(* ===== verification/Edge_Prelude.thy ===== *)
theory Edge_Prelude
  imports Main "HOL-Library.Word"
begin

text \<open>
  Shared vocabulary of the development: the C integer types of \<^verbatim>\<open><stdint.h>\<close> as words,
  C strings as character lists, \<^verbatim>\<open>snprintf\<close> into a bounded array, decimal output of
  unsigned integers, the lines a component hands to the logger, and the list, option and
  word lemmas that the components share.

  A C string is the list of its characters before the terminating NUL. A
  \<^verbatim>\<open>char[n]\<close> member is the C string it holds, so a well-formed member has fewer than
  \<open>n\<close> characters and no NUL among them: that is the predicate \<open>fits\<close>.
\<close>

named_theorems fits_intros \<open>members of fixed-size char arrays stay inside them\<close>
named_theorems frame_simps \<open>fields an operation does not write\<close>

type_synonym u8 = "8 word"
type_synonym u16 = "16 word"
type_synonym u32 = "32 word"
type_synonym u64 = "64 word"

subsection \<open>C strings\<close>

definition nul :: char where
  "nul = CHR 0x00"

definition c_str :: "string \<Rightarrow> string" where
  "c_str s = takeWhile (\<lambda>c. c \<noteq> nul) s"

definition snprintf :: "nat \<Rightarrow> string \<Rightarrow> string" where
  "snprintf n s = take (n - 1) (c_str s)"

definition fits :: "nat \<Rightarrow> string \<Rightarrow> bool" where
  "fits n s \<longleftrightarrow> length s < n \<and> nul \<notin> set s"

lemma nul_notin_c_str [simp]: "nul \<notin> set (c_str s)"
  by (auto simp: c_str_def dest: set_takeWhileD)

lemma c_str_id: "nul \<notin> set s \<Longrightarrow> c_str s = s"
  unfolding c_str_def by (rule takeWhile_eq_all_conv [THEN iffD2]) auto

lemma c_str_c_str [simp]: "c_str (c_str s) = c_str s"
  by (rule c_str_id) simp

lemma snprintf_fits [fits_intros]: "0 < n \<Longrightarrow> fits n (snprintf n s)"
  by (auto simp: fits_def snprintf_def dest: in_set_takeD)

lemma snprintf_id [simp]: "fits n s \<Longrightarrow> snprintf n s = s"
  by (auto simp: fits_def snprintf_def c_str_id)

lemma fits_Nil [simp, fits_intros]: "0 < n \<Longrightarrow> fits n []"
  by (simp add: fits_def)

lemma fits_mono: "fits m s \<Longrightarrow> m \<le> n \<Longrightarrow> fits n s"
  by (auto simp: fits_def)

lemma length_snprintf: "0 < n \<Longrightarrow> length (snprintf n s) < n"
  using snprintf_fits [of n s] by (simp add: fits_def)

subsection \<open>Decimal output\<close>

definition digit_char :: "nat \<Rightarrow> char" where
  "digit_char d = ''0123456789'' ! d"

fun show_nat :: "nat \<Rightarrow> string" where
  "show_nat n =
     (if n < 10 then [digit_char n]
      else show_nat (n div 10) @ [digit_char (n mod 10)])"

declare show_nat.simps [simp del]

definition show_word :: "'a::len word \<Rightarrow> string" where
  "show_word w = show_nat (unat w)"

definition is_digit_char :: "char \<Rightarrow> bool" where
  "is_digit_char c \<longleftrightarrow> 48 \<le> (of_char c :: nat) \<and> (of_char c :: nat) \<le> 57"

fun read_nat_acc :: "nat \<Rightarrow> string \<Rightarrow> nat" where
  "read_nat_acc acc [] = acc"
| "read_nat_acc acc (c # cs) = read_nat_acc (10 * acc + (of_char c - 48)) cs"

lemma read_nat_acc_append:
  "read_nat_acc acc (s @ t) = read_nat_acc (read_nat_acc acc s) t"
  by (induction s arbitrary: acc) simp_all

lemma of_char_digit: "d < 10 \<Longrightarrow> (of_char (digit_char d) :: nat) = 48 + d"
proof -
  assume "d < 10"
  then have "d \<in> {0, 1, 2, 3, 4, 5, 6, 7, 8, 9}" by auto
  then show ?thesis by (auto simp: digit_char_def)
qed

lemma read_show_nat: "read_nat_acc 0 (show_nat n) = n"
proof (induction n rule: show_nat.induct)
  case (1 n)
  show ?case
  proof (cases "n < 10")
    case True
    then show ?thesis
      by (subst show_nat.simps) (simp add: of_char_digit)
  next
    case False
    with 1 have "read_nat_acc 0 (show_nat (n div 10)) = n div 10" by simp
    with False show ?thesis
      by (subst show_nat.simps) (simp add: read_nat_acc_append of_char_digit)
  qed
qed

lemma show_nat_inject: "show_nat m = show_nat n \<longleftrightarrow> m = n"
  by (metis read_show_nat)

lemma show_nat_digits: "c \<in> set (show_nat n) \<Longrightarrow> is_digit_char c"
proof (induction n rule: show_nat.induct)
  case (1 n)
  then show ?case
    by (cases "n < 10"; subst (asm) show_nat.simps [of n])
      (auto simp: is_digit_char_def of_char_digit)
qed

lemma nul_notin_show_nat [simp]: "nul \<notin> set (show_nat n)"
  by (auto simp: nul_def is_digit_char_def dest: show_nat_digits)

lemma length_show_nat: "n < 10 ^ k \<Longrightarrow> 0 < k \<Longrightarrow> length (show_nat n) \<le> k"
proof (induction n arbitrary: k rule: show_nat.induct)
  case (1 n)
  show ?case
  proof (cases "n < 10")
    case True
    with 1(3) show ?thesis by (subst show_nat.simps) simp
  next
    case False
    with "1.prems" obtain j where j: "k = Suc j" "0 < j"
      by (cases k; cases "k = 1") auto
    with "1.prems" have "n div 10 < 10 ^ j" by auto
    with "1.IH" [OF False this j(2)] False j show ?thesis by (subst show_nat.simps) simp
  qed
qed

subsection \<open>Log lines\<close>

text \<open>
  A component that logs returns the lines it hands to \<^verbatim>\<open>log_info\<close>, \<^verbatim>\<open>log_warn\<close>
  and \<^verbatim>\<open>log_error\<close>, in order; the logger itself is modelled in \<open>Platform\<close>.
\<close>

datatype log_level = LOG_INFO | LOG_WARN | LOG_ERROR

type_synonym log_lines = "(log_level \<times> string) list"

definition show_bool :: "bool \<Rightarrow> string" where
  "show_bool b = (if b then ''true'' else ''false'')"

subsection \<open>Modular indices\<close>

lemma mod_add_less_neq:
  fixes a b n :: nat
  assumes "a < b" and "b < n"
  shows "(t + b) mod n \<noteq> (t + a) mod n"
proof
  assume "(t + b) mod n = (t + a) mod n"
  then have "n dvd (t + b) - (t + a)"
    using assms mod_eq_dvd_iff_nat [of "t + a" "t + b" n] by simp
  with assms show False by (auto dest: dvd_imp_le)
qed

lemma mod_add_eq_iff:
  fixes a b n :: nat
  assumes "a < n" and "b < n"
  shows "(t + a) mod n = (t + b) mod n \<longleftrightarrow> a = b"
  using assms mod_add_less_neq [of a b n t] mod_add_less_neq [of b a n t]
  by (metis linorder_neqE_nat)

subsection \<open>Counters\<close>

text \<open>Consecutive identifiers from a counter: the first, then those from its successor.\<close>

lemma word_upt_Suc:
  "map (\<lambda>k. x + of_nat k) [0..<Suc n] = x # map (\<lambda>k. (x :: 'a::len word) + 1 + of_nat k) [0..<n]"
  by (induction n) (simp_all add: algebra_simps)

end
