(* ===== verification/IEEE_Double.thy ===== *)
theory IEEE_Double
  imports Complex_Main Edge_Prelude
begin

text \<open>
  The C type \<^verbatim>\<open>double\<close>: IEEE 754 binary64 with round-to-nearest-even. Set points,
  thresholds and measurements of the gateway are doubles, and its guards compare them, so
  the comparisons follow the standard on NaN and the infinities and every arithmetic
  operation is the exact rational result rounded once.

  A finite non-zero value and \<open>+0\<close> are \<open>Fin r\<close>; \<open>-0\<close> is \<open>NegZero\<close>, since
  \<^verbatim>\<open>printf\<close> shows its sign; the payload and sign of a NaN are not represented.
  \<open>wf_double\<close> says that a finite value is one of the representable ones. The lemmas
  show that rounding is a projection onto them, keeps signs and powers of two as bounds,
  and that the difference of two different representable values is never rounded to zero
  (gradual underflow), which the peak-shaving guard of the state engine relies on.
\<close>

datatype double = NaN | PInf | NInf | NegZero | Fin rat

definition pow2 :: "int \<Rightarrow> rat" where
  "pow2 e = (if 0 \<le> e then 2 ^ nat e else 1 / 2 ^ nat (- e))"

fun nbits :: "nat \<Rightarrow> nat" where
  "nbits n = (if n = 0 then 0 else Suc (nbits (n div 2)))"

declare nbits.simps [simp del]

text \<open>The exponent of the leading bit of a positive rational.\<close>

definition ilog2 :: "rat \<Rightarrow> int" where
  "ilog2 r =
     (if 1 \<le> r then int (nbits (nat \<lfloor>r\<rfloor>)) - 1
      else - int (nbits (nat (\<lceil>1 / r\<rceil> - 1))))"

text \<open>Nearest integer, ties to even.\<close>

definition rne :: "rat \<Rightarrow> int" where
  "rne x =
     (let f = \<lfloor>x\<rfloor>; d = x - of_int f
      in if d < 1 / 2 then f
         else if 1 / 2 < d then f + 1
         else if even f then f else f + 1)"

definition ulp_exp :: "rat \<Rightarrow> int" where
  "ulp_exp r = max (ilog2 \<bar>r\<bar> - 52) (- 1074)"

definition round64 :: "rat \<Rightarrow> double" where
  "round64 r =
     (if r = 0 then Fin 0
      else let e = ulp_exp r; m = rne (r / pow2 e)
        in if m = 0 then (if r < 0 then NegZero else Fin 0)
           else let v = of_int m * pow2 e
             in if 2 ^ 1024 \<le> v then PInf
                else if v \<le> - (2 ^ 1024) then NInf
                else Fin v)"

fun dval :: "double \<Rightarrow> rat" where
  "dval (Fin r) = r"
| "dval _ = 0"

fun is_finite :: "double \<Rightarrow> bool" where
  "is_finite (Fin r) = True"
| "is_finite NegZero = True"
| "is_finite _ = False"

fun dsign :: "double \<Rightarrow> bool" where
  "dsign (Fin r) = (r < 0)"
| "dsign NegZero = True"
| "dsign NInf = True"
| "dsign _ = False"

definition wf_double :: "double \<Rightarrow> bool" where
  "wf_double d = (case d of Fin r \<Rightarrow> round64 r = Fin r | _ \<Rightarrow> True)"

subsection \<open>Comparisons\<close>

fun drank :: "double \<Rightarrow> int" where
  "drank NInf = - 1"
| "drank PInf = 1"
| "drank _ = 0"

definition dlt :: "double \<Rightarrow> double \<Rightarrow> bool" where
  "dlt a b \<longleftrightarrow> a \<noteq> NaN \<and> b \<noteq> NaN \<and>
     (drank a < drank b \<or> drank a = drank b \<and> dval a < dval b)"

definition dle :: "double \<Rightarrow> double \<Rightarrow> bool" where
  "dle a b \<longleftrightarrow> a \<noteq> NaN \<and> b \<noteq> NaN \<and>
     (drank a < drank b \<or> drank a = drank b \<and> dval a \<le> dval b)"

subsection \<open>Arithmetic\<close>

fun dneg :: "double \<Rightarrow> double" where
  "dneg NaN = NaN"
| "dneg PInf = NInf"
| "dneg NInf = PInf"
| "dneg NegZero = Fin 0"
| "dneg (Fin r) = (if r = 0 then NegZero else Fin (- r))"

definition dadd :: "double \<Rightarrow> double \<Rightarrow> double" where
  "dadd a b =
     (if a = NaN \<or> b = NaN then NaN
      else if \<not> is_finite a \<or> \<not> is_finite b then
        (if is_finite a then b else if is_finite b \<or> a = b then a else NaN)
      else if dval a + dval b = 0 then
        (if a = NegZero \<and> b = NegZero then NegZero else Fin 0)
      else round64 (dval a + dval b))"

definition dsub :: "double \<Rightarrow> double \<Rightarrow> double" where
  "dsub a b = dadd a (dneg b)"

definition dmul :: "double \<Rightarrow> double \<Rightarrow> double" where
  "dmul a b =
     (if a = NaN \<or> b = NaN then NaN
      else let neg = (dsign a \<noteq> dsign b)
        in if \<not> is_finite a \<or> \<not> is_finite b then
             (if is_finite a \<and> dval a = 0 \<or> is_finite b \<and> dval b = 0 then NaN
              else if neg then NInf else PInf)
           else if dval a * dval b = 0 then (if neg then NegZero else Fin 0)
           else round64 (dval a * dval b))"

definition double_of_nat :: "nat \<Rightarrow> double" where
  "double_of_nat n = round64 (of_nat n)"

text \<open>
  Conversion to an unsigned integer of \<open>w\<close> bits: the fraction is dropped, and a value
  whose integral part does not fit is undefined behaviour (C11 6.3.1.4), here \<open>None\<close>.
\<close>

definition trunc_rat :: "rat \<Rightarrow> int" where
  "trunc_rat r = (if 0 \<le> r then \<lfloor>r\<rfloor> else \<lceil>r\<rceil>)"

definition double_to_uint :: "nat \<Rightarrow> double \<Rightarrow> nat option" where
  "double_to_uint w d =
     (if is_finite d \<and> 0 \<le> trunc_rat (dval d) \<and> trunc_rat (dval d) < 2 ^ w
      then Some (nat (trunc_rat (dval d))) else None)"

subsection \<open>Output with a fixed number of decimals (\<^verbatim>\<open>%.nf\<close>)\<close>

definition zero_pad :: "nat \<Rightarrow> string \<Rightarrow> string" where
  "zero_pad n s = replicate (n - length s) (CHR ''0'') @ s"

definition show_fixed_abs :: "nat \<Rightarrow> rat \<Rightarrow> string" where
  "show_fixed_abs n r =
     (let m = nat (rne (r * 10 ^ n))
      in show_nat (m div 10 ^ n) @ (if n = 0 then '''' else ''.'' @ zero_pad n (show_nat (m mod 10 ^ n))))"

definition show_fixed :: "nat \<Rightarrow> double \<Rightarrow> string" where
  "show_fixed n d =
     (if d = NaN then ''nan''
      else (if dsign d then ''-'' else '''') @
           (if is_finite d then show_fixed_abs n \<bar>dval d\<bar> else ''inf''))"


subsection \<open>Powers of two and the leading bit\<close>

lemma pow2_pos [simp]: "0 < pow2 e"
  by (simp add: pow2_def)

lemma pow2_neq_0 [simp]: "pow2 e \<noteq> 0"
  using pow2_pos [of e] by linarith

lemma pow2_of_nat [simp]: "pow2 (int n) = 2 ^ n"
  by (simp add: pow2_def)

lemma pow2_Suc: "pow2 (e + 1) = 2 * pow2 e"
proof (cases "0 \<le> e")
  case True
  then have "nat (e + 1) = Suc (nat e)" by simp
  with True show ?thesis by (simp add: pow2_def)
next
  case False
  define k where "k = nat (- e - 1)"
  with False have k: "e = - int (Suc k)" by simp
  then have e: "nat (- (e + 1)) = k" "nat (- e) = Suc k" by simp_all
  show ?thesis
  proof (cases "k = 0")
    case True
    with k show ?thesis by (simp add: pow2_def)
  next
    case pos: False
    with k have "\<not> 0 \<le> e + 1" by simp
    with False e show ?thesis unfolding pow2_def by simp
  qed
qed

lemma pow2_add_nat: "pow2 (e + int n) = pow2 e * 2 ^ n"
proof (induction n)
  case 0
  show ?case by simp
next
  case (Suc n)
  have "pow2 (e + int (Suc n)) = pow2 ((e + int n) + 1)" by (simp add: algebra_simps)
  also have "\<dots> = 2 * pow2 (e + int n)" by (rule pow2_Suc)
  also have "\<dots> = pow2 e * 2 ^ Suc n" using Suc by simp
  finally show ?case .
qed

lemma pow2_add: "pow2 (a + b) = pow2 a * pow2 b"
proof (cases "0 \<le> b")
  case True
  then obtain n where "b = int n" using zero_le_imp_eq_int by blast
  then show ?thesis by (simp add: pow2_add_nat)
next
  case False
  then obtain n where n: "b = - int n" by (cases b rule: int_cases2) auto
  have "pow2 a = pow2 (a - int n + int n)" by simp
  also have "\<dots> = pow2 (a - int n) * 2 ^ n" by (rule pow2_add_nat)
  finally have "pow2 (a - int n) = pow2 a / 2 ^ n" by simp
  moreover have "pow2 (- int n) = 1 / 2 ^ n" by (simp add: pow2_def)
  ultimately show ?thesis using n by simp
qed

lemma pow2_mono: "a \<le> b \<Longrightarrow> pow2 a \<le> pow2 b"
proof -
  assume "a \<le> b"
  then have "pow2 b = pow2 a * 2 ^ nat (b - a)" using pow2_add_nat [of a "nat (b - a)"] by simp
  moreover have "pow2 a * 1 \<le> pow2 a * 2 ^ nat (b - a)"
    by (intro mult_left_mono) (simp_all add: less_imp_le)
  ultimately show ?thesis by simp
qed

lemma pow2_strict_mono: "a < b \<Longrightarrow> pow2 a < pow2 b"
proof -
  assume "a < b"
  then have "2 * pow2 a \<le> pow2 b" using pow2_mono [of "a + 1" b] by (simp add: pow2_Suc)
  with pow2_pos [of a] show ?thesis by linarith
qed

lemma pow2_less_iff: "pow2 a < pow2 b \<longleftrightarrow> a < b"
  by (meson linorder_not_less pow2_mono pow2_strict_mono)

lemma pow2_diff: "pow2 (a - b) = pow2 a / pow2 b"
  using pow2_add [of "a - b" b] by (simp add: field_simps)

lemma nbits_bounds: "n < 2 ^ nbits n \<and> (0 < n \<longrightarrow> 2 ^ nbits n \<le> 2 * n)"
proof (induction n rule: nbits.induct)
  case (1 n)
  show ?case
  proof (cases "n = 0")
    case True
    then show ?thesis by (simp add: nbits.simps)
  next
    case False
    with 1 have ih: "n div 2 < 2 ^ nbits (n div 2)"
      "0 < n div 2 \<longrightarrow> 2 ^ nbits (n div 2) \<le> 2 * (n div 2)" by blast+
    from ih(1) have "n < 2 * 2 ^ nbits (n div 2)" by linarith
    moreover have "2 * 2 ^ nbits (n div 2) \<le> 2 * n"
    proof (cases "n div 2 = 0")
      case True
      moreover have "nbits 0 = 0" by (simp add: nbits.simps)
      ultimately show ?thesis using False by simp
    next
      case pos: False
      with ih(2) show ?thesis by linarith
    qed
    ultimately show ?thesis using False by (simp add: nbits.simps [of n])
  qed
qed

lemma ilog2_ge1:
  assumes "1 \<le> r"
  shows "pow2 (ilog2 r) \<le> r \<and> r < pow2 (ilog2 r + 1)"
proof -
  define n where "n = nat \<lfloor>r\<rfloor>"
  have f: "1 \<le> \<lfloor>r\<rfloor>" using assms by simp
  then have "int n = \<lfloor>r\<rfloor>" by (simp add: n_def)
  then have nr: "(of_int \<lfloor>r\<rfloor> :: rat) = of_nat n" by (metis of_int_of_nat_eq)
  have n: "0 < n" "of_nat n \<le> r" "r < of_nat n + 1"
    using f floor_correct [of r] unfolding nr by (simp_all add: n_def)
  have ex: "ilog2 r + 1 = int (nbits n)" using assms by (simp add: ilog2_def n_def)
  have up: "r < 2 ^ nbits n"
  proof -
    have "n + 1 \<le> 2 ^ nbits n" using nbits_bounds [of n] by simp
    then have "(of_nat (n + 1) :: rat) \<le> of_nat (2 ^ nbits n)" by (rule of_nat_mono)
    with n(3) show ?thesis by simp
  qed
  have "2 ^ nbits n \<le> 2 * n" using nbits_bounds [of n] n(1) by simp
  then have "(of_nat (2 ^ nbits n) :: rat) \<le> of_nat (2 * n)" by (rule of_nat_mono)
  then have lo: "pow2 (ilog2 r + 1) \<le> 2 * r" using n(2) ex by simp
  then have "pow2 (ilog2 r) \<le> r" using pow2_Suc [of "ilog2 r"] by linarith
  with up ex show ?thesis by simp
qed

lemma ilog2_lt1:
  assumes "0 < r" "r < 1"
  shows "pow2 (ilog2 r) \<le> r \<and> r < pow2 (ilog2 r + 1)"
proof -
  define q where "q = \<lceil>1 / r\<rceil> - 1"
  have q1: "1 < 1 / r" using assms by simp
  then have "1 < \<lceil>1 / r\<rceil>" by simp
  then have qpos: "0 < q" by (simp add: q_def)
  define n where "n = nat q"
  have nq: "(of_nat n :: rat) = of_int \<lceil>1 / r\<rceil> - 1"
  proof -
    have "int n = q" using qpos by (simp add: n_def)
    then have "(of_int (int n) :: rat) = of_int q" by (rule arg_cong)
    then show ?thesis by (simp add: q_def)
  qed
  have n: "0 < n" "of_nat n < 1 / r" "1 / r \<le> of_nat n + 1"
    using qpos ceiling_correct [of "1 / r"] by (simp_all add: nq) (simp add: n_def)
  have ex: "ilog2 r = - int (nbits n)" using assms by (simp add: ilog2_def n_def q_def)
  have inv: "pow2 (- int (nbits n)) = 1 / 2 ^ nbits n"
    using pow2_diff [of 0 "int (nbits n)"] by (simp add: pow2_def)
  have "n + 1 \<le> 2 ^ nbits n" using nbits_bounds [of n] by simp
  then have "(of_nat (n + 1) :: rat) \<le> of_nat (2 ^ nbits n)" by (rule of_nat_mono)
  with n(3) have "1 / r \<le> 2 ^ nbits n" by simp
  then have lo: "pow2 (ilog2 r) \<le> r" unfolding ex inv using assms by (simp add: field_simps)
  have "2 ^ nbits n \<le> 2 * n" using nbits_bounds [of n] n(1) by simp
  then have "(of_nat (2 ^ nbits n) :: rat) \<le> of_nat (2 * n)" by (rule of_nat_mono)
  with n(2) have "2 ^ nbits n < 2 / r" by simp
  then have "r < 2 * pow2 (ilog2 r)" unfolding ex inv using assms by (simp add: field_simps)
  with lo show ?thesis by (simp add: pow2_Suc)
qed

lemma ilog2_bounds: "0 < r \<Longrightarrow> pow2 (ilog2 r) \<le> r \<and> r < pow2 (ilog2 r + 1)"
  using ilog2_ge1 ilog2_lt1 by (cases "1 \<le> r") auto

lemma ilog2_le: "0 < r \<Longrightarrow> r < pow2 (k + 1) \<Longrightarrow> ilog2 r \<le> k"
  using ilog2_bounds [of r] pow2_less_iff [of "ilog2 r" "k + 1"] by linarith

subsection \<open>Rounding\<close>

lemma rne_of_int [simp]: "rne (of_int n) = n"
  by (simp add: rne_def)

lemma rne_cases: "rne x = \<lfloor>x\<rfloor> \<or> rne x = \<lfloor>x\<rfloor> + 1 \<and> of_int \<lfloor>x\<rfloor> < x"
  by (auto simp: rne_def Let_def)

lemma rne_le: "x \<le> of_int n \<Longrightarrow> rne x \<le> n"
proof -
  assume x: "x \<le> of_int n"
  then have fl: "\<lfloor>x\<rfloor> \<le> n" by (metis floor_mono floor_of_int)
  show ?thesis
  proof (cases "\<lfloor>x\<rfloor> = n")
    case True
    with x have "x = of_int n" using of_int_floor_le [of x] by simp
    then show ?thesis by simp
  next
    case False
    with fl rne_cases [of x] show ?thesis by auto
  qed
qed

lemma rne_ge: "of_int n \<le> x \<Longrightarrow> n \<le> rne x"
  using rne_cases [of x] le_floor_iff [of n x] by linarith

lemma rne_nonneg: "0 \<le> x \<Longrightarrow> 0 \<le> rne x"
  using rne_ge [of 0 x] by simp

lemma rne_abs_le: "\<bar>x\<bar> \<le> of_int n \<Longrightarrow> \<bar>rne x\<bar> \<le> n"
  using rne_le [of x n] rne_ge [of "- n" x] by (auto simp: abs_le_iff)

lemma ulp_exp_ge: "- 1074 \<le> ulp_exp r"
  by (simp add: ulp_exp_def)

lemma ulp_exp_le: "r \<noteq> 0 \<Longrightarrow> \<bar>r\<bar> < pow2 (k + 53) \<Longrightarrow> - 1074 \<le> k \<Longrightarrow> ulp_exp r \<le> k"
  using ilog2_le [of "\<bar>r\<bar>" "k + 52"] by (simp add: ulp_exp_def algebra_simps)

lemma ulp_exp_lower: "r \<noteq> 0 \<Longrightarrow> - 1074 < ulp_exp r \<Longrightarrow> pow2 (ulp_exp r + 52) \<le> \<bar>r\<bar>"
  using ilog2_bounds [of "\<bar>r\<bar>"] by (auto simp: ulp_exp_def max_def split: if_splits)

lemma rne_scaled_int:
  assumes "k \<le> j"
  shows "of_int (rne (of_int m * pow2 j / pow2 k)) = of_int m * pow2 j / pow2 k"
proof -
  obtain n where n: "j = k + int n" using assms zle_iff_zadd by blast
  have "of_int m * pow2 j / pow2 k = of_int (m * 2 ^ n)"
    by (simp add: n pow2_add_nat)
  then show ?thesis by (metis rne_of_int)
qed

text \<open>Every integer multiple of a power of two with at most 53 significant bits is kept.\<close>

lemma round64_exact:
  assumes v: "v = of_int m * pow2 k" and m: "\<bar>m\<bar> \<le> 2 ^ 53" and k: "- 1074 \<le> k"
    and small: "\<bar>v\<bar> < 2 ^ 1024"
  shows "round64 v = Fin v"
proof (cases "v = 0")
  case True
  then show ?thesis by (simp add: round64_def)
next
  case False
  have exact: "of_int (rne (v / pow2 (ulp_exp v))) = v / pow2 (ulp_exp v)"
  proof (cases "ulp_exp v \<le> k")
    case True
    then show ?thesis unfolding v by (rule rne_scaled_int)
  next
    case e: False
    with k have "pow2 (ulp_exp v + 52) \<le> \<bar>v\<bar>" by (intro ulp_exp_lower [OF False]) linarith
    moreover have "pow2 (k + 53) \<le> pow2 (ulp_exp v + 52)" using e by (intro pow2_mono) linarith
    moreover have "\<bar>v\<bar> = of_int \<bar>m\<bar> * pow2 k"
      using v by (simp add: abs_mult less_imp_le)
    moreover have "of_int \<bar>m\<bar> * pow2 k \<le> 2 ^ 53 * pow2 k"
      using m by (intro mult_right_mono) (simp_all only: of_int_le_numeral_power_cancel_iff less_imp_le pow2_pos)
    moreover have "pow2 (k + 53) = 2 ^ 53 * pow2 k"
      using pow2_add_nat [of k 53] by simp
    ultimately have top: "\<bar>v\<bar> = pow2 (k + 53)" "pow2 (ulp_exp v + 52) \<le> pow2 (k + 53)" by linarith+
    then have "ulp_exp v + 52 \<le> k + 53" using pow2_strict_mono [of "k + 53" "ulp_exp v + 52"] by linarith
    with e have e1: "ulp_exp v \<le> k + 53" by linarith
    obtain s :: int where s: "v = of_int s * pow2 (k + 53)"
    proof (cases "0 \<le> v")
      case True
      with top(1) have "v = of_int 1 * pow2 (k + 53)" by simp
      then show ?thesis by (rule that)
    next
      case False
      with top(1) have "v = of_int (- 1) * pow2 (k + 53)" by simp
      then show ?thesis by (rule that)
    qed
    show ?thesis using rne_scaled_int [OF e1, of s] s by simp
  qed
  then have exact_v: "of_int (rne (v / pow2 (ulp_exp v))) * pow2 (ulp_exp v) = v" by simp
  with False have "rne (v / pow2 (ulp_exp v)) \<noteq> 0" by auto
  with False exact_v small show ?thesis
    by (simp add: round64_def Let_def abs_less_iff)
qed

lemma scaled_bound:
  assumes "r \<noteq> 0"
  shows "\<bar>rne (r / pow2 (ulp_exp r))\<bar> \<le> 2 ^ 53"
proof (rule rne_abs_le)
  have "ilog2 \<bar>r\<bar> + 1 \<le> ulp_exp r + 53" by (simp add: ulp_exp_def)
  then have "pow2 (ilog2 \<bar>r\<bar> + 1) \<le> pow2 (ulp_exp r + 53)" by (rule pow2_mono)
  then have "\<bar>r\<bar> \<le> pow2 (ulp_exp r) * 2 ^ 53"
    using ilog2_bounds [of "\<bar>r\<bar>"] assms pow2_add_nat [of "ulp_exp r" 53] by simp
  then show "\<bar>r / pow2 (ulp_exp r)\<bar> \<le> of_int (2 ^ 53)"
    by (simp add: abs_divide less_imp_le divide_le_eq mult.commute)
qed

lemma round64_cases:
  obtains (zero) "r = 0" "round64 r = Fin 0"
  | (under) "r \<noteq> 0" "rne (r / pow2 (ulp_exp r)) = 0" "round64 r = (if r < 0 then NegZero else Fin 0)"
  | (over) "r \<noteq> 0" "2 ^ 1024 \<le> of_int (rne (r / pow2 (ulp_exp r))) * pow2 (ulp_exp r)" "round64 r = PInf"
  | (nover) "r \<noteq> 0" "of_int (rne (r / pow2 (ulp_exp r))) * pow2 (ulp_exp r) \<le> - (2 ^ 1024)" "round64 r = NInf"
  | (fin) v m where "r \<noteq> 0" "m = rne (r / pow2 (ulp_exp r))" "v = of_int m * pow2 (ulp_exp r)"
      "m \<noteq> 0" "\<bar>v\<bar> < 2 ^ 1024" "round64 r = Fin v"
proof -
  let ?m = "rne (r / pow2 (ulp_exp r))" and ?v = "of_int (rne (r / pow2 (ulp_exp r))) * pow2 (ulp_exp r)"
  consider "r = 0" | "r \<noteq> 0" "?m = 0" | "r \<noteq> 0" "?m \<noteq> 0" "2 ^ 1024 \<le> ?v"
    | "r \<noteq> 0" "?m \<noteq> 0" "\<not> 2 ^ 1024 \<le> ?v" "?v \<le> - (2 ^ 1024)"
    | "r \<noteq> 0" "?m \<noteq> 0" "\<not> 2 ^ 1024 \<le> ?v" "\<not> ?v \<le> - (2 ^ 1024)"
    by blast
  then show ?thesis
  proof cases
    case 1
    then show ?thesis by (intro zero) (simp_all add: round64_def)
  next
    case 2
    then show ?thesis by (intro under) (simp_all add: round64_def Let_def)
  next
    case 3
    then show ?thesis by (intro over) (simp_all add: round64_def Let_def)
  next
    case 4
    then show ?thesis by (intro nover) (simp_all add: round64_def Let_def)
  next
    case 5
    then have "\<bar>?v\<bar> < 2 ^ 1024" unfolding abs_less_iff by linarith
    with 5 show ?thesis
      by (intro fin [of ?m ?v]) (simp_all add: round64_def Let_def)
  qed
qed

lemma round64_wf [simp]: "wf_double (round64 r)"
proof (cases r rule: round64_cases)
  case (fin v m)
  have "round64 v = Fin v"
    using round64_exact [OF fin(3) _ ulp_exp_ge fin(5)] scaled_bound [OF fin(1)] fin(2) by simp
  with fin show ?thesis by (simp add: wf_double_def)
qed (auto simp: wf_double_def round64_def)

lemma round64_le_pow2:
  assumes r: "\<bar>r\<bar> \<le> pow2 k" and k: "- 1022 \<le> k" "k < 1024"
  shows "is_finite (round64 r) \<and> \<bar>dval (round64 r)\<bar> \<le> pow2 k"
proof -
  have m: "\<bar>of_int (rne (r / pow2 (ulp_exp r))) * pow2 (ulp_exp r)\<bar> \<le> pow2 k" if "r \<noteq> 0"
  proof -
    have "pow2 k < pow2 ((k - 52) + 53)" by (simp add: pow2_strict_mono)
    with r have e: "ulp_exp r \<le> k - 52" by (intro ulp_exp_le that) (use k in linarith)+
    then obtain n where n: "k = ulp_exp r + int n"
      by (metis diff_add_cancel zle_iff_zadd add.assoc add.commute order_trans zle_diff1_eq less_imp_le
          diff_ge_0_iff_ge zero_le_numeral le_diff_eq add_increasing2)
    have "\<bar>r / pow2 (ulp_exp r)\<bar> \<le> of_int (2 ^ n)"
      using r by (simp add: abs_divide less_imp_le divide_le_eq n pow2_add_nat mult.commute)
    then have "\<bar>rne (r / pow2 (ulp_exp r))\<bar> \<le> 2 ^ n" by (rule rne_abs_le)
    then have "(of_int \<bar>rne (r / pow2 (ulp_exp r))\<bar> :: rat) \<le> 2 ^ n"
      by (metis of_int_le_iff of_int_numeral of_int_power)
    then have "of_int \<bar>rne (r / pow2 (ulp_exp r))\<bar> * pow2 (ulp_exp r) \<le> 2 ^ n * pow2 (ulp_exp r)"
      by (rule mult_right_mono) (simp add: less_imp_le)
    then show ?thesis by (simp add: abs_mult n pow2_add_nat mult.commute less_imp_le)
  qed
  have top: "pow2 k < 2 ^ 1024" using pow2_strict_mono [of k 1024] k by (simp add: pow2_def)
  show ?thesis
  proof (cases r rule: round64_cases)
    case zero
    then show ?thesis by (simp add: less_imp_le)
  next
    case under
    then show ?thesis by (simp add: less_imp_le)
  next
    case over
    with m top show ?thesis by linarith
  next
    case nover
    with m top show ?thesis by linarith
  next
    case (fin v m')
    with m show ?thesis by simp
  qed
qed

lemma round64_nonneg:
  assumes "0 \<le> r"
  shows "round64 r = PInf \<or> (\<exists>v \<ge> 0. round64 r = Fin v)"
proof -
  have m: "0 \<le> of_int (rne (r / pow2 (ulp_exp r))) * pow2 (ulp_exp r)"
    using rne_nonneg [of "r / pow2 (ulp_exp r)"] assms by (simp add: less_imp_le)
  show ?thesis
  proof (cases r rule: round64_cases)
    case nover
    have "(0 :: rat) < 2 ^ 1024" by simp
    with nover(2) m have False by linarith
    then show ?thesis ..
  qed (use assms m in auto)
qed

lemma rne_error: "\<bar>of_int (rne x) - x\<bar> \<le> (1 :: rat)"
  using rne_cases [of x] floor_correct [of x] by auto

lemma round64_error:
  assumes r: "0 \<le> r" "r \<le> pow2 k" and k: "- 1022 \<le> k" "k < 1024"
  shows "\<exists>v \<ge> 0. round64 r = Fin v \<and> \<bar>v - r\<bar> \<le> pow2 (k - 52)"
proof (cases "r = 0")
  case True
  then show ?thesis by (simp add: round64_def less_imp_le)
next
  case False
  let ?u = "pow2 (ulp_exp r)"
  have "\<bar>of_int (rne (r / ?u)) * ?u - r\<bar> = \<bar>(of_int (rne (r / ?u)) - r / ?u) * ?u\<bar>"
    by (simp add: left_diff_distrib)
  also have "\<dots> = \<bar>of_int (rne (r / ?u)) - r / ?u\<bar> * ?u"
    using pow2_pos [of "ulp_exp r"] by (simp only: abs_mult abs_of_pos)
  also have "\<dots> \<le> 1 * ?u"
    by (rule mult_right_mono [OF rne_error]) (simp add: less_imp_le)
  finally have e: "\<bar>of_int (rne (r / ?u)) * ?u - r\<bar> \<le> ?u" by simp
  have "pow2 k < pow2 ((k - 52) + 53)" by (simp add: pow2_strict_mono)
  with r k have "ulp_exp r \<le> k - 52" by (intro ulp_exp_le False) auto
  with e have close: "\<bar>of_int (rne (r / ?u)) * ?u - r\<bar> \<le> pow2 (k - 52)"
    using pow2_mono order_trans by blast
  have fin: "is_finite (round64 r)" using round64_le_pow2 [of r k] r k by simp
  from round64_nonneg [OF r(1)] fin obtain v where v: "0 \<le> v" "round64 r = Fin v" by auto
  show ?thesis
    by (cases r rule: round64_cases) (use v close False r in auto)
qed

subsection \<open>Gradual underflow\<close>

lemma wf_finite_multiple:
  assumes "wf_double (Fin r)"
  obtains n :: int where "r = of_int n * pow2 (- 1074)"
proof (cases r rule: round64_cases)
  case zero
  then show ?thesis using that [of 0] by simp
next
  case (fin v m)
  with assms have r: "r = of_int m * pow2 (ulp_exp r)" by (simp add: wf_double_def)
  obtain n where n: "ulp_exp r = - 1074 + int n"
    using ulp_exp_ge [of r] zle_iff_zadd [of "- 1074" "ulp_exp r"] by auto
  have "r = of_int (m * 2 ^ n) * pow2 (- 1074)"
    using pow2_add_nat [of "- 1074" n] by (subst r) (simp only: n of_int_mult of_int_power of_int_numeral mult_ac)
  then show ?thesis by (rule that)
qed (use assms in \<open>auto simp: wf_double_def split: if_splits\<close>)

lemma round64_multiple_nonzero:
  assumes r: "r = of_int n * pow2 (- 1074)" and "0 < n"
  shows "round64 r = PInf \<or> (\<exists>v > 0. round64 r = Fin v)"
proof -
  have r0: "0 < r" using assms by simp
  have "1 \<le> rne (r / pow2 (ulp_exp r))"
  proof (rule rne_ge)
    show "of_int 1 \<le> r / pow2 (ulp_exp r)"
    proof (cases "- 1074 < ulp_exp r")
      case True
      then have "pow2 (ulp_exp r + 52) \<le> r" using ulp_exp_lower [of r] r0 by simp
      moreover have "pow2 (ulp_exp r) \<le> pow2 (ulp_exp r + 52)" by (rule pow2_mono) simp
      ultimately show ?thesis by (simp add: le_divide_eq)
    next
      case False
      then have "ulp_exp r = - 1074" using ulp_exp_ge [of r] by simp
      moreover have "(1 :: rat) \<le> of_int n" using assms(2) by simp
      ultimately show ?thesis by (simp add: r)
    qed
  qed
  then have pos: "0 < of_int (rne (r / pow2 (ulp_exp r))) * pow2 (ulp_exp r)" by simp
  show ?thesis
  proof (cases r rule: round64_cases)
    case nover
    have "(0 :: rat) < 2 ^ 1024" by simp
    with nover(2) pos have False by linarith
    then show ?thesis ..
  qed (use r0 pos in auto)
qed

subsection \<open>Comparison and sign lemmas\<close>

lemma dlt_Fin [simp]: "dlt (Fin a) (Fin b) \<longleftrightarrow> a < b"
  by (simp add: dlt_def)

lemma dle_Fin [simp]: "dle (Fin a) (Fin b) \<longleftrightarrow> a \<le> b"
  by (simp add: dle_def)

lemma dlt_NaN [simp]: "\<not> dlt NaN b" "\<not> dlt a NaN"
  by (simp_all add: dlt_def)

lemma dle_NaN [simp]: "\<not> dle NaN b" "\<not> dle a NaN"
  by (simp_all add: dle_def)

lemma dlt_irrefl [simp]: "\<not> dlt a a"
  by (simp add: dlt_def)

lemma not_dle: "a \<noteq> NaN \<Longrightarrow> b \<noteq> NaN \<Longrightarrow> \<not> dle a b \<longleftrightarrow> dlt b a"
  by (auto simp: dle_def dlt_def)

lemma not_dlt: "a \<noteq> NaN \<Longrightarrow> b \<noteq> NaN \<Longrightarrow> \<not> dlt a b \<longleftrightarrow> dle b a"
  by (auto simp: dle_def dlt_def)

lemma dlt_imp_dle: "dlt a b \<Longrightarrow> dle a b"
  by (auto simp: dle_def dlt_def)

lemma dle_refl [simp]: "dle a a \<longleftrightarrow> a \<noteq> NaN"
  by (simp add: dle_def)

lemma dle_trans: "dle a b \<Longrightarrow> dle b c \<Longrightarrow> dle a c"
  by (auto simp: dle_def)

lemma dlt_dle_trans: "dlt a b \<Longrightarrow> dle b c \<Longrightarrow> dlt a c"
  by (auto simp: dle_def dlt_def)

lemma dlt_not_NaN: "dlt a b \<Longrightarrow> a \<noteq> NaN \<and> b \<noteq> NaN"
  by (auto simp: dlt_def)

lemma dneg_mono: "dle a b \<Longrightarrow> dle (dneg b) (dneg a)"
  by (cases a; cases b) (auto simp: dle_def)

lemma dneg_strict_mono: "dlt a b \<Longrightarrow> dlt (dneg b) (dneg a)"
  by (cases a; cases b) (auto simp: dlt_def)

lemma dneg_pos: "dlt (Fin 0) d \<Longrightarrow> dlt (dneg d) (Fin 0)"
  by (cases d) (auto simp: dlt_def)

lemma dval_dneg [simp]: "dval (dneg d) = - dval d"
  by (cases d) auto

lemma is_finite_dneg [simp]: "is_finite (dneg d) \<longleftrightarrow> is_finite d"
  by (cases d) auto

lemma is_finite_not_NaN: "is_finite d \<Longrightarrow> d \<noteq> NaN"
  by (cases d) auto

lemma round64_not_NaN [simp]: "round64 r \<noteq> NaN"
  by (cases r rule: round64_cases) auto

lemma wf_finite_multiple_dval:
  assumes "wf_double d"
  obtains n :: int where "dval d = of_int n * pow2 (- 1074)"
proof (cases d)
  case (Fin r)
  with assms show ?thesis using wf_finite_multiple that by auto
qed (use that [of 0] in auto)

text \<open>Subtraction of a smaller value never underflows to zero.\<close>

lemma dsub_pos:
  assumes wf: "wf_double a" "wf_double b" and lt: "dlt b a"
  shows "dlt (Fin 0) (dsub a b)"
proof (cases "is_finite a \<and> is_finite b")
  case True
  with lt have d: "dval b < dval a" by (cases a; cases b) (auto simp: dlt_def)
  obtain m n :: int where mn: "dval a = of_int m * pow2 (- 1074)" "dval b = of_int n * pow2 (- 1074)"
    using wf_finite_multiple_dval wf by metis
  have diff: "dval a - dval b = of_int (m - n) * pow2 (- 1074)"
    by (simp add: mn algebra_simps)
  have "n < m" using d mn mult_less_cancel_right_pos [OF pow2_pos [of "- 1074"], of "of_int n" "of_int m"] by simp
  then have "round64 (dval a - dval b) = PInf \<or> (\<exists>v > 0. round64 (dval a - dval b) = Fin v)"
    by (intro round64_multiple_nonzero [OF diff]) simp
  moreover have "dsub a b = round64 (dval a - dval b)"
    using True d is_finite_not_NaN by (auto simp: dsub_def dadd_def)
  ultimately show ?thesis by (auto simp: dlt_def)
next
  case False
  with lt show ?thesis by (cases a; cases b) (auto simp: dlt_def dsub_def dadd_def)
qed

lemma double_of_nat_exact:
  assumes n: "n \<le> 2 ^ 53"
  shows "double_of_nat n = Fin (of_nat n)"
  unfolding double_of_nat_def
proof (rule round64_exact)
  show "(of_nat n :: rat) = of_int (int n) * pow2 0" by (simp add: pow2_def)
  show "\<bar>int n\<bar> \<le> 2 ^ 53" using n by (metis abs_of_nat of_nat_le_iff of_nat_numeral of_nat_power)
  have "(of_nat n :: rat) \<le> of_nat (2 ^ 53)" using n by (rule of_nat_mono)
  then show "\<bar>of_nat n :: rat\<bar> < 2 ^ 1024" by simp
qed simp

lemma wf_double_dadd [simp]: "wf_double a \<Longrightarrow> wf_double b \<Longrightarrow> wf_double (dadd a b)"
  by (simp add: dadd_def) (simp add: wf_double_def round64_def)

lemma rne_minus: "rne (- x) = - rne x"
proof (cases "x = of_int \<lfloor>x\<rfloor>")
  case True
  then show ?thesis by (metis of_int_minus rne_of_int)
next
  case False
  then have "\<lceil>x\<rceil> = \<lfloor>x\<rfloor> + 1" by (metis ceiling_altdef)
  then have "\<lfloor>- x\<rfloor> = - \<lfloor>x\<rfloor> - 1" by (simp add: floor_minus)
  then show ?thesis by (simp add: rne_def Let_def)
qed

lemma wf_double_dneg [simp]:
  assumes "wf_double a"
  shows "wf_double (dneg a)"
proof (cases a)
  case (Fin r)
  have e: "ulp_exp (- r) = ulp_exp r" by (simp add: ulp_exp_def)
  from Fin assms have "round64 (- r) = Fin (- r)"
    by (cases r rule: round64_cases) (auto simp: wf_double_def round64_def Let_def e rne_minus split: if_splits)
  then have "wf_double (Fin (- r))" by (simp add: wf_double_def)
  with Fin show ?thesis by (cases "r = 0") (simp_all add: wf_double_def)
qed (auto simp: wf_double_def round64_def)

subsection \<open>Evaluation\<close>

text \<open>Rewrite rules that compute with rational literals inside the simplifier.\<close>

lemma floor_rat_frac: "\<lfloor>numeral a / numeral b :: rat\<rfloor> = numeral a div numeral b"
  using floor_divide_of_int_eq [of "numeral a" "numeral b", where ?'a = rat] by simp

lemma floor_rat_frac1: "\<lfloor>1 / numeral b :: rat\<rfloor> = 1 div numeral b"
  using floor_divide_of_int_eq [of 1 "numeral b", where ?'a = rat] by simp

lemma ceiling_rat_frac: "\<lceil>numeral a / numeral b :: rat\<rceil> = - (- numeral a div numeral b)"
  using ceiling_divide_eq_div [of "numeral a" "numeral b", where ?'a = rat] by simp

lemma floor_rat_nfrac: "\<lfloor>- numeral a / numeral b :: rat\<rfloor> = - numeral a div numeral b"
  using floor_divide_of_int_eq [of "- numeral a" "numeral b", where ?'a = rat] by simp

lemmas rat_floor_eval = floor_rat_frac floor_rat_frac1 ceiling_rat_frac floor_rat_nfrac

lemmas round_eval =
  round64_def ulp_exp_def ilog2_def nbits.simps rne_def pow2_def Let_def rat_floor_eval

lemmas double_eval =
  round_eval dmul_def dadd_def dsub_def double_of_nat_def dlt_def dle_def

lemmas show_eval =
  show_fixed_def show_fixed_abs_def show_nat.simps zero_pad_def digit_char_def show_word_def

end
