(* ===== verification/Device_Model.thy ===== *)
theory Device_Model
  imports IEEE_Double
begin

text \<open>
  The unified device model, \<^verbatim>\<open>src/src/model/device_model.{h,c}\<close>: the five value
  types every layer exchanges (device, point, telemetry, alarm, command), their
  constructors, the enum printers, and the connection health of a device.

  A pointer argument is an \<open>option\<close> (\<open>None\<close> is \<^verbatim>\<open>NULL\<close>); an operation that writes
  through a pointer returns the new pointee. The enums are datatypes, so the
  \<^verbatim>\<open>default\<close> branch of a printer, reached only by an integer that is no enumerator, has
  no counterpart. The lemmas show that every constructor keeps the fixed-size members
  inside their arrays, and how the failure counter drives the online state, including its
  wrap-around after \<open>2 ^ 32\<close> failures.
\<close>

subsection \<open>Types\<close>

abbreviation EDGEFLOW_ID_MAX :: nat where "EDGEFLOW_ID_MAX \<equiv> 64"
abbreviation EDGEFLOW_NAME_MAX :: nat where "EDGEFLOW_NAME_MAX \<equiv> 64"
abbreviation EDGEFLOW_UNIT_MAX :: nat where "EDGEFLOW_UNIT_MAX \<equiv> 16"
abbreviation EDGEFLOW_MESSAGE_MAX :: nat where "EDGEFLOW_MESSAGE_MAX \<equiv> 128"

datatype device_protocol_t =
    DEVICE_PROTOCOL_MODBUS_RTU
  | DEVICE_PROTOCOL_MODBUS_TCP
  | DEVICE_PROTOCOL_TCP
  | DEVICE_PROTOCOL_UDP
  | DEVICE_PROTOCOL_SIMULATOR

datatype device_online_state_t =
    DEVICE_ONLINE_UNKNOWN
  | DEVICE_ONLINE_ONLINE
  | DEVICE_ONLINE_OFFLINE
  | DEVICE_ONLINE_DEGRADED

datatype point_type_t =
    POINT_TYPE_ANALOG
  | POINT_TYPE_DIGITAL
  | POINT_TYPE_ENUM

datatype telemetry_quality_t =
    TELEMETRY_QUALITY_GOOD
  | TELEMETRY_QUALITY_BAD
  | TELEMETRY_QUALITY_UNCERTAIN

datatype alarm_level_t =
    ALARM_LEVEL_INFO
  | ALARM_LEVEL_MINOR
  | ALARM_LEVEL_MAJOR
  | ALARM_LEVEL_CRITICAL

datatype alarm_state_t =
    ALARM_STATE_ACTIVE
  | ALARM_STATE_RECOVERED

datatype command_type_t =
    COMMAND_TYPE_SET_POINT_VALUE
  | COMMAND_TYPE_SET_DEVICE_MODE
  | COMMAND_TYPE_STOP_DEVICE

datatype command_state_t =
    COMMAND_STATE_PENDING
  | COMMAND_STATE_SENT
  | COMMAND_STATE_ACKED
  | COMMAND_STATE_VERIFIED
  | COMMAND_STATE_TIMEOUT
  | COMMAND_STATE_RETRYING
  | COMMAND_STATE_FAILED

datatype system_state_t =
    SYSTEM_STATE_INIT
  | SYSTEM_STATE_STANDBY
  | SYSTEM_STATE_RUNNING
  | SYSTEM_STATE_DEGRADED
  | SYSTEM_STATE_FAULT
  | SYSTEM_STATE_STOPPED

record device_t =
  dev_id :: string
  dev_name :: string
  dev_protocol :: device_protocol_t
  dev_online_state :: device_online_state_t
  dev_last_seen_ms :: u64
  dev_consecutive_failures :: u32
  dev_last_error :: string

record point_t =
  pt_id :: string
  pt_device_id :: string
  pt_name :: string
  pt_type :: point_type_t
  pt_unit :: string
  pt_scale :: double
  pt_offset :: double
  pt_low_limit :: double
  pt_high_limit :: double

record telemetry_t =
  tl_ts_ms :: u64
  tl_device_id :: string
  tl_point_id :: string
  tl_value :: double
  tl_unit :: string
  tl_quality :: telemetry_quality_t
  tl_source_id :: u16

record alarm_event_t =
  al_alarm_id :: u64
  al_ts_ms :: u64
  al_device_id :: string
  al_code :: string
  al_level :: alarm_level_t
  al_state :: alarm_state_t
  al_message :: string
  al_recovered_ts_ms :: u64

record command_t =
  cmd_command_id :: u64
  cmd_created_ts_ms :: u64
  cmd_target_device_id :: string
  cmd_type :: command_type_t
  cmd_state :: command_state_t
  cmd_point_id :: string
  cmd_target_value :: double
  cmd_retry_count :: int
  cmd_max_retries :: int
  cmd_result_message :: string

text \<open>The all-zero objects \<^verbatim>\<open>memset\<close> and \<^verbatim>\<open>calloc\<close> leave.\<close>

definition device_zero :: device_t where
  "device_zero = \<lparr>dev_id = '''', dev_name = '''', dev_protocol = DEVICE_PROTOCOL_MODBUS_RTU,
     dev_online_state = DEVICE_ONLINE_UNKNOWN, dev_last_seen_ms = 0,
     dev_consecutive_failures = 0, dev_last_error = ''''\<rparr>"

definition point_zero :: point_t where
  "point_zero = \<lparr>pt_id = '''', pt_device_id = '''', pt_name = '''', pt_type = POINT_TYPE_ANALOG,
     pt_unit = '''', pt_scale = Fin 0, pt_offset = Fin 0, pt_low_limit = Fin 0, pt_high_limit = Fin 0\<rparr>"

definition telemetry_zero :: telemetry_t where
  "telemetry_zero = \<lparr>tl_ts_ms = 0, tl_device_id = '''', tl_point_id = '''', tl_value = Fin 0,
     tl_unit = '''', tl_quality = TELEMETRY_QUALITY_GOOD, tl_source_id = 0\<rparr>"

definition alarm_zero :: alarm_event_t where
  "alarm_zero = \<lparr>al_alarm_id = 0, al_ts_ms = 0, al_device_id = '''', al_code = '''',
     al_level = ALARM_LEVEL_INFO, al_state = ALARM_STATE_ACTIVE, al_message = '''',
     al_recovered_ts_ms = 0\<rparr>"

definition command_zero :: command_t where
  "command_zero = \<lparr>cmd_command_id = 0, cmd_created_ts_ms = 0, cmd_target_device_id = '''',
     cmd_type = COMMAND_TYPE_SET_POINT_VALUE, cmd_state = COMMAND_STATE_PENDING,
     cmd_point_id = '''', cmd_target_value = Fin 0, cmd_retry_count = 0, cmd_max_retries = 0,
     cmd_result_message = ''''\<rparr>"

subsection \<open>Operations\<close>

definition copy_string :: "string \<Rightarrow> nat \<Rightarrow> string option \<Rightarrow> string" where
  "copy_string dst dst_len src =
     (if dst_len = 0 then dst
      else snprintf dst_len (case src of Some s \<Rightarrow> s | None \<Rightarrow> ''''))"

fun telemetry_quality_to_string :: "telemetry_quality_t \<Rightarrow> string" where
  "telemetry_quality_to_string TELEMETRY_QUALITY_GOOD = ''good''"
| "telemetry_quality_to_string TELEMETRY_QUALITY_BAD = ''bad''"
| "telemetry_quality_to_string TELEMETRY_QUALITY_UNCERTAIN = ''uncertain''"

fun system_state_to_string :: "system_state_t \<Rightarrow> string" where
  "system_state_to_string SYSTEM_STATE_INIT = ''INIT''"
| "system_state_to_string SYSTEM_STATE_STANDBY = ''STANDBY''"
| "system_state_to_string SYSTEM_STATE_RUNNING = ''RUNNING''"
| "system_state_to_string SYSTEM_STATE_DEGRADED = ''DEGRADED''"
| "system_state_to_string SYSTEM_STATE_FAULT = ''FAULT''"
| "system_state_to_string SYSTEM_STATE_STOPPED = ''STOPPED''"

fun command_state_to_string :: "command_state_t \<Rightarrow> string" where
  "command_state_to_string COMMAND_STATE_PENDING = ''PENDING''"
| "command_state_to_string COMMAND_STATE_SENT = ''SENT''"
| "command_state_to_string COMMAND_STATE_ACKED = ''ACKED''"
| "command_state_to_string COMMAND_STATE_VERIFIED = ''VERIFIED''"
| "command_state_to_string COMMAND_STATE_TIMEOUT = ''TIMEOUT''"
| "command_state_to_string COMMAND_STATE_RETRYING = ''RETRYING''"
| "command_state_to_string COMMAND_STATE_FAILED = ''FAILED''"

definition device_init ::
  "device_t option \<Rightarrow> string option \<Rightarrow> string option \<Rightarrow> device_protocol_t \<Rightarrow> int \<times> device_t option" where
  "device_init device did name protocol =
     (if device = None \<or> did = None \<or> name = None then (- 1, device)
      else (0, Some (device_zero
        \<lparr>dev_id := copy_string '''' EDGEFLOW_ID_MAX did,
         dev_name := copy_string '''' EDGEFLOW_NAME_MAX name,
         dev_protocol := protocol,
         dev_online_state := DEVICE_ONLINE_UNKNOWN\<rparr>)))"

definition point_init ::
  "point_t option \<Rightarrow> string option \<Rightarrow> string option \<Rightarrow> string option \<Rightarrow> point_type_t \<Rightarrow>
   string option \<Rightarrow> double \<Rightarrow> double \<Rightarrow> int \<times> point_t option" where
  "point_init point pid device_id name type unit scale offset =
     (if point = None \<or> pid = None \<or> device_id = None \<or> name = None then (- 1, point)
      else (0, Some (point_zero
        \<lparr>pt_id := copy_string '''' EDGEFLOW_ID_MAX pid,
         pt_device_id := copy_string '''' EDGEFLOW_ID_MAX device_id,
         pt_name := copy_string '''' EDGEFLOW_NAME_MAX name,
         pt_type := type,
         pt_unit := copy_string '''' EDGEFLOW_UNIT_MAX unit,
         pt_scale := scale,
         pt_offset := offset\<rparr>)))"

definition point_raw_to_engineering :: "point_t option \<Rightarrow> double \<Rightarrow> double" where
  "point_raw_to_engineering point raw_value =
     (case point of
        None \<Rightarrow> raw_value
      | Some p \<Rightarrow> dadd (dmul raw_value (pt_scale p)) (pt_offset p))"

definition device_mark_online :: "device_t option \<Rightarrow> u64 \<Rightarrow> device_t option" where
  "device_mark_online device ts_ms =
     (case device of
        None \<Rightarrow> None
      | Some d \<Rightarrow> Some (d
          \<lparr>dev_online_state := DEVICE_ONLINE_ONLINE,
           dev_last_seen_ms := ts_ms,
           dev_consecutive_failures := 0,
           dev_last_error := ''''\<rparr>))"

definition device_mark_failure :: "device_t option \<Rightarrow> u64 \<Rightarrow> string option \<Rightarrow> device_t option" where
  "device_mark_failure device ts_ms error =
     (case device of
        None \<Rightarrow> None
      | Some d \<Rightarrow>
          let n = dev_consecutive_failures d + 1;
              d' = d\<lparr>dev_last_seen_ms := ts_ms,
                     dev_consecutive_failures := n,
                     dev_last_error := copy_string (dev_last_error d) EDGEFLOW_MESSAGE_MAX error\<rparr>
          in Some (if 3 \<le> n then d'\<lparr>dev_online_state := DEVICE_ONLINE_OFFLINE\<rparr>
                   else if 0 < n then d'\<lparr>dev_online_state := DEVICE_ONLINE_DEGRADED\<rparr>
                   else d'))"

definition telemetry_init ::
  "telemetry_t option \<Rightarrow> u64 \<Rightarrow> string option \<Rightarrow> string option \<Rightarrow> double \<Rightarrow> string option \<Rightarrow> u16 \<Rightarrow>
   telemetry_t option" where
  "telemetry_init telemetry ts_ms device_id point_id value unit source_id =
     (if telemetry = None then None
      else Some (telemetry_zero
        \<lparr>tl_ts_ms := ts_ms,
         tl_device_id := copy_string '''' EDGEFLOW_ID_MAX device_id,
         tl_point_id := copy_string '''' EDGEFLOW_ID_MAX point_id,
         tl_value := value,
         tl_unit := copy_string '''' EDGEFLOW_UNIT_MAX unit,
         tl_quality := TELEMETRY_QUALITY_GOOD,
         tl_source_id := source_id\<rparr>))"

text \<open>The telemetry record that a call on a non-NULL slot leaves there.\<close>

definition mk_telemetry :: "u64 \<Rightarrow> string \<Rightarrow> string \<Rightarrow> double \<Rightarrow> string \<Rightarrow> u16 \<Rightarrow> telemetry_t" where
  "mk_telemetry ts_ms device_id point_id value unit source_id =
     the (telemetry_init (Some telemetry_zero) ts_ms (Some device_id) (Some point_id) value
       (Some unit) source_id)"

definition command_init_setpoint ::
  "command_t option \<Rightarrow> u64 \<Rightarrow> u64 \<Rightarrow> string option \<Rightarrow> string option \<Rightarrow> double \<Rightarrow> int \<Rightarrow>
   int \<times> command_t option" where
  "command_init_setpoint command command_id created_ts_ms target_device_id point_id target_value max_retries =
     (if command = None \<or> target_device_id = None \<or> point_id = None \<or> max_retries < 0
      then (- 1, command)
      else (0, Some (command_zero
        \<lparr>cmd_command_id := command_id,
         cmd_created_ts_ms := created_ts_ms,
         cmd_target_device_id := copy_string '''' EDGEFLOW_ID_MAX target_device_id,
         cmd_type := COMMAND_TYPE_SET_POINT_VALUE,
         cmd_state := COMMAND_STATE_PENDING,
         cmd_point_id := copy_string '''' EDGEFLOW_ID_MAX point_id,
         cmd_target_value := target_value,
         cmd_max_retries := max_retries\<rparr>)))"

definition command_mark_verified :: "command_t option \<Rightarrow> string option \<Rightarrow> int \<times> command_t option" where
  "command_mark_verified command message =
     (case command of
        None \<Rightarrow> (- 1, None)
      | Some c \<Rightarrow> (0, Some (c
          \<lparr>cmd_state := COMMAND_STATE_VERIFIED,
           cmd_result_message := copy_string (cmd_result_message c) EDGEFLOW_MESSAGE_MAX message\<rparr>)))"

definition alarm_make ::
  "alarm_event_t option \<Rightarrow> u64 \<Rightarrow> u64 \<Rightarrow> string option \<Rightarrow> string option \<Rightarrow> alarm_level_t \<Rightarrow>
   string option \<Rightarrow> int \<times> alarm_event_t option" where
  "alarm_make alarm alarm_id ts_ms device_id code level message =
     (if alarm = None \<or> device_id = None \<or> code = None then (- 1, alarm)
      else (0, Some (alarm_zero
        \<lparr>al_alarm_id := alarm_id,
         al_ts_ms := ts_ms,
         al_device_id := copy_string '''' EDGEFLOW_ID_MAX device_id,
         al_code := copy_string '''' EDGEFLOW_ID_MAX code,
         al_level := level,
         al_state := ALARM_STATE_ACTIVE,
         al_message := copy_string '''' EDGEFLOW_MESSAGE_MAX message\<rparr>)))"

subsection \<open>Well-formed objects\<close>

definition device_wf :: "device_t \<Rightarrow> bool" where
  "device_wf d \<longleftrightarrow> fits EDGEFLOW_ID_MAX (dev_id d) \<and> fits EDGEFLOW_NAME_MAX (dev_name d) \<and>
     fits EDGEFLOW_MESSAGE_MAX (dev_last_error d)"

definition point_wf :: "point_t \<Rightarrow> bool" where
  "point_wf p \<longleftrightarrow> fits EDGEFLOW_ID_MAX (pt_id p) \<and> fits EDGEFLOW_ID_MAX (pt_device_id p) \<and>
     fits EDGEFLOW_NAME_MAX (pt_name p) \<and> fits EDGEFLOW_UNIT_MAX (pt_unit p)"

definition telemetry_wf :: "telemetry_t \<Rightarrow> bool" where
  "telemetry_wf t \<longleftrightarrow> fits EDGEFLOW_ID_MAX (tl_device_id t) \<and> fits EDGEFLOW_ID_MAX (tl_point_id t) \<and>
     fits EDGEFLOW_UNIT_MAX (tl_unit t)"

definition alarm_wf :: "alarm_event_t \<Rightarrow> bool" where
  "alarm_wf a \<longleftrightarrow> fits EDGEFLOW_ID_MAX (al_device_id a) \<and> fits EDGEFLOW_ID_MAX (al_code a) \<and>
     fits EDGEFLOW_MESSAGE_MAX (al_message a)"

definition command_wf :: "command_t \<Rightarrow> bool" where
  "command_wf c \<longleftrightarrow> fits EDGEFLOW_ID_MAX (cmd_target_device_id c) \<and> fits EDGEFLOW_ID_MAX (cmd_point_id c) \<and>
     fits EDGEFLOW_MESSAGE_MAX (cmd_result_message c) \<and> 0 \<le> cmd_max_retries c"

lemma copy_string_fits [fits_intros]: "0 < n \<Longrightarrow> fits n (copy_string dst n src)"
  by (simp add: copy_string_def snprintf_fits)

lemma copy_string_id [simp]: "fits n s \<Longrightarrow> copy_string dst n (Some s) = s"
  by (auto simp: copy_string_def fits_def [of 0])

lemma device_init_wf: "device_init d i n p = (0, Some d') \<Longrightarrow> device_wf d'"
  by (auto simp: device_init_def device_wf_def device_zero_def fits_intros split: if_splits)

lemma point_init_wf: "point_init p i d n t u s off = (0, Some p') \<Longrightarrow> point_wf p'"
  by (auto simp: point_init_def point_wf_def point_zero_def fits_intros split: if_splits)

lemma telemetry_init_wf: "telemetry_init t ts d p v u s = Some t' \<Longrightarrow> telemetry_wf t'"
  by (auto simp: telemetry_init_def telemetry_wf_def telemetry_zero_def fits_intros split: if_splits)

lemma command_init_setpoint_wf:
  "command_init_setpoint c i ts d p v m = (0, Some c') \<Longrightarrow> command_wf c'"
  by (auto simp: command_init_setpoint_def command_wf_def command_zero_def fits_intros split: if_splits)

lemma alarm_make_wf: "alarm_make a i ts d c l m = (0, Some a') \<Longrightarrow> alarm_wf a'"
  by (auto simp: alarm_make_def alarm_wf_def alarm_zero_def fits_intros split: if_splits)

lemma command_mark_verified_wf:
  "command_wf c \<Longrightarrow> command_mark_verified (Some c) m = (0, Some c') \<Longrightarrow> command_wf c'"
  by (auto simp: command_mark_verified_def command_wf_def fits_intros)

lemma telemetry_wf_zero [simp]: "telemetry_wf telemetry_zero"
  by (simp add: telemetry_wf_def telemetry_zero_def)

lemma mk_telemetry_wf [simp]: "telemetry_wf (mk_telemetry ts d p v u s)"
  by (auto simp: mk_telemetry_def telemetry_init_def telemetry_wf_def telemetry_zero_def fits_intros)

lemma mk_telemetry_simps [simp]:
  "tl_ts_ms (mk_telemetry ts d p v u s) = ts"
  "tl_value (mk_telemetry ts d p v u s) = v"
  "tl_quality (mk_telemetry ts d p v u s) = TELEMETRY_QUALITY_GOOD"
  "tl_source_id (mk_telemetry ts d p v u s) = s"
  "fits 64 p \<Longrightarrow> tl_point_id (mk_telemetry ts d p v u s) = p"
  "fits 64 d \<Longrightarrow> tl_device_id (mk_telemetry ts d p v u s) = d"
  "fits 16 u \<Longrightarrow> tl_unit (mk_telemetry ts d p v u s) = u"
  by (simp_all add: mk_telemetry_def telemetry_init_def)

lemma fits_code: "fits n s \<longleftrightarrow> length s < n \<and> list_all (\<lambda>c. c \<noteq> nul) s"
  by (auto simp: fits_def list_all_iff)

subsection \<open>Connection health\<close>

text \<open>Consecutive failures at the given times, each with its error text.\<close>

fun mark_failures :: "device_t \<Rightarrow> (u64 \<times> string) list \<Rightarrow> device_t" where
  "mark_failures d [] = d"
| "mark_failures d ((ts, e) # es) = mark_failures (the (device_mark_failure (Some d) ts (Some e))) es"

definition health_of :: "nat \<Rightarrow> device_online_state_t \<Rightarrow> device_online_state_t" where
  "health_of n s =
     (if 3 \<le> n then DEVICE_ONLINE_OFFLINE else if 0 < n then DEVICE_ONLINE_DEGRADED else s)"

lemma device_mark_failure_step:
  fixes ts :: u64 and e :: "string option"
  assumes "unat (dev_consecutive_failures d) + 1 < 2 ^ 32"
  defines "d' \<equiv> the (device_mark_failure (Some d) ts e)"
  shows "unat (dev_consecutive_failures d') = unat (dev_consecutive_failures d) + 1"
    and "dev_online_state d' = health_of (unat (dev_consecutive_failures d) + 1) (dev_online_state d)"
proof -
  let ?n = "dev_consecutive_failures d + 1"
  have n: "unat ?n = unat (dev_consecutive_failures d) + 1"
    using assms(1) by (simp add: unat_word_ariths)
  then show "unat (dev_consecutive_failures d') = unat (dev_consecutive_failures d) + 1"
    by (simp add: d'_def device_mark_failure_def Let_def)
  have "3 \<le> ?n \<longleftrightarrow> 3 \<le> unat ?n" "0 < ?n \<longleftrightarrow> 0 < unat ?n"
    by (simp_all add: word_le_nat_alt word_less_nat_alt)
  with n show "dev_online_state d' = health_of (unat (dev_consecutive_failures d) + 1) (dev_online_state d)"
    by (simp add: d'_def device_mark_failure_def Let_def health_of_def)
qed

lemma mark_failures_count:
  assumes "unat (dev_consecutive_failures d) + length es < 2 ^ 32"
  shows "unat (dev_consecutive_failures (mark_failures d es)) =
      unat (dev_consecutive_failures d) + length es \<and>
    dev_online_state (mark_failures d es) =
      (if es = [] then dev_online_state d
       else health_of (unat (dev_consecutive_failures d) + length es) (dev_online_state d))"
  using assms
proof (induction es arbitrary: d)
  case Nil
  then show ?case by simp
next
  case (Cons e es)
  obtain ts err where e: "e = (ts, err)" by (cases e)
  let ?d = "the (device_mark_failure (Some d) ts (Some err))"
  from Cons.prems have lt: "unat (dev_consecutive_failures d) + 1 < 2 ^ 32" by simp
  note st = device_mark_failure_step [OF lt, of ts "Some err"]
  have "unat (dev_consecutive_failures ?d) + length es < 2 ^ 32" using Cons.prems st(1) by simp
  from Cons.IH [OF this] st show ?case by (auto simp: e health_of_def)
qed

text \<open>
  Progressive degradation (\<^verbatim>\<open>device_mark_online\<close>, \<^verbatim>\<open>device_mark_failure\<close>): after a
  successful poll, the first and second failure in a row leave the device DEGRADED, the third
  and every later one OFFLINE, and the counter is the number of failures, as long as there are
  fewer than \<open>2 ^ 32\<close> of them.
\<close>

theorem device_health_after_failures:
  assumes "device_mark_online (Some d0) t0 = Some d" and "length es < 2 ^ 32"
  shows "unat (dev_consecutive_failures (mark_failures d es)) = length es \<and>
    dev_online_state (mark_failures d es) =
      (if es = [] then DEVICE_ONLINE_ONLINE
       else if length es < 3 then DEVICE_ONLINE_DEGRADED
       else DEVICE_ONLINE_OFFLINE)"
proof -
  from assms(1) have "dev_consecutive_failures d = 0" "dev_online_state d = DEVICE_ONLINE_ONLINE"
    by (auto simp: device_mark_online_def)
  with assms(2) mark_failures_count [of d es] show ?thesis
    by (auto simp: health_of_def)
qed

text \<open>
  The failure counter is a 32-bit word: the failure that follows \<open>2 ^ 32 - 1\<close> of them
  wraps it to zero and leaves the state as it was, and the next one reports a long-dead
  OFFLINE device as DEGRADED.
\<close>

theorem device_failure_counter_wraps:
  assumes "dev_consecutive_failures d = - 1"
  shows "dev_consecutive_failures (mark_failures d [(t1, e1)]) = 0 \<and>
    dev_online_state (mark_failures d [(t1, e1)]) = dev_online_state d \<and>
    dev_online_state (mark_failures d [(t1, e1), (t2, e2)]) = DEVICE_ONLINE_DEGRADED"
  using assms by (simp add: device_mark_failure_def Let_def word_le_nat_alt)

end
