(* ===== verification/Spsc_Ring.thy ===== *)
theory Spsc_Ring
  imports Device_Model
begin

text \<open>
  The single-producer single-consumer ring between the ingress and the worker thread,
  \<^verbatim>\<open>src/src/core/ring.{h,c}\<close>, called sequentially. A ring of \<open>size\<close> slots holds at
  most \<open>size - 1\<close> records. The interface \<open>bounded_fifo\<close> says what the two threads rely
  on (bounded first-in first-out order); it is proved for the ring by relating the slots from
  \<open>tail\<close> to \<open>head\<close> to a list. \<open>Ring_Concurrent\<close> interleaves the two sides.
\<close>

subsection \<open>The ring\<close>

record spsc_ring_t =
  rg_buf :: "telemetry_t list option"
  rg_size :: u32
  rg_head :: u32
  rg_tail :: u32
  rg_dropped :: u32

definition spsc_ring_init :: "bool \<Rightarrow> spsc_ring_t option \<Rightarrow> u32 \<Rightarrow> int \<times> spsc_ring_t option" where
  "spsc_ring_init calloc_ok ring sz =
     (case ring of
        None \<Rightarrow> (- 1, None)
      | Some r \<Rightarrow>
          if sz < 2 then (- 1, Some r)
          else if \<not> calloc_ok then (- 1, Some (r\<lparr>rg_buf := None\<rparr>))
          else (0, Some (r\<lparr>rg_buf := Some (replicate (unat sz) telemetry_zero),
                           rg_size := sz, rg_head := 0, rg_tail := 0, rg_dropped := 0\<rparr>)))"

definition spsc_ring_destroy :: "spsc_ring_t option \<Rightarrow> spsc_ring_t option" where
  "spsc_ring_destroy ring =
     (case ring of None \<Rightarrow> None | Some r \<Rightarrow> Some (r\<lparr>rg_buf := None, rg_size := 0\<rparr>))"

definition spsc_ring_push :: "spsc_ring_t option \<Rightarrow> telemetry_t option \<Rightarrow> bool \<times> spsc_ring_t option" where
  "spsc_ring_push ring point =
     (case (ring, point) of
        (Some r, Some p) \<Rightarrow>
          (case rg_buf r of
             None \<Rightarrow> (False, Some r)
           | Some buf \<Rightarrow>
               let head = rg_head r;
                   nxt = (head + 1) mod rg_size r;
                   tail = rg_tail r
               in if nxt = tail then (False, Some (r\<lparr>rg_dropped := rg_dropped r + 1\<rparr>))
                  else (True, Some (r\<lparr>rg_buf := Some (buf[unat head := p]), rg_head := nxt\<rparr>)))
      | _ \<Rightarrow> (False, ring))"

text \<open>The output parameter of \<^verbatim>\<open>spsc_ring_pop\<close> is the second component.\<close>

definition spsc_ring_pop ::
  "spsc_ring_t option \<Rightarrow> telemetry_t option \<Rightarrow> bool \<times> telemetry_t option \<times> spsc_ring_t option" where
  "spsc_ring_pop ring point =
     (case (ring, point) of
        (Some r, Some p) \<Rightarrow>
          (case rg_buf r of
             None \<Rightarrow> (False, point, ring)
           | Some buf \<Rightarrow>
               let tail = rg_tail r; head = rg_head r
               in if tail = head then (False, point, ring)
                  else (True, Some (buf ! unat tail),
                        Some (r\<lparr>rg_tail := (tail + 1) mod rg_size r\<rparr>)))
      | _ \<Rightarrow> (False, point, ring))"

definition spsc_ring_count :: "spsc_ring_t option \<Rightarrow> u32" where
  "spsc_ring_count ring =
     (case ring of
        None \<Rightarrow> 0
      | Some r \<Rightarrow>
          if rg_buf r = None then 0
          else if rg_tail r \<le> rg_head r then rg_head r - rg_tail r
          else rg_size r - rg_tail r + rg_head r)"

definition spsc_ring_dropped :: "spsc_ring_t option \<Rightarrow> u32" where
  "spsc_ring_dropped ring = (case ring of None \<Rightarrow> 0 | Some r \<Rightarrow> rg_dropped r)"

subsection \<open>Slots from tail to head as a list\<close>

definition used :: "nat \<Rightarrow> nat \<Rightarrow> nat \<Rightarrow> nat" where
  "used n h t = (h + n - t) mod n"

definition slice :: "'a list \<Rightarrow> nat \<Rightarrow> nat \<Rightarrow> nat \<Rightarrow> 'a list" where
  "slice buf n t k = map (\<lambda>i. buf ! ((t + i) mod n)) [0..<k]"

definition ring_items :: "spsc_ring_t \<Rightarrow> telemetry_t list" where
  "ring_items r =
     slice (the (rg_buf r)) (unat (rg_size r)) (unat (rg_tail r))
       (used (unat (rg_size r)) (unat (rg_head r)) (unat (rg_tail r)))"

definition ring_cap :: "spsc_ring_t \<Rightarrow> nat" where
  "ring_cap r = unat (rg_size r) - 1"

definition ring_wf :: "spsc_ring_t \<Rightarrow> bool" where
  "ring_wf r \<longleftrightarrow> rg_buf r \<noteq> None \<and> length (the (rg_buf r)) = unat (rg_size r) \<and>
     2 \<le> rg_size r \<and> rg_head r < rg_size r \<and> rg_tail r < rg_size r"

lemma used_less: "0 < n \<Longrightarrow> used n h t < n"
  by (simp add: used_def)

lemma used_eq_if: "h < n \<Longrightarrow> t < n \<Longrightarrow> used n h t = (if t \<le> h then h - t else h + n - t)"
  by (auto simp: used_def mod_if)

lemma used_0_iff: "h < n \<Longrightarrow> t < n \<Longrightarrow> used n h t = 0 \<longleftrightarrow> h = t"
  by (auto simp: used_eq_if)

lemma add_used: "h < n \<Longrightarrow> t < n \<Longrightarrow> (t + used n h t) mod n = h"
  by (auto simp: used_eq_if)

lemma next_eq_iff_full:
  "h < n \<Longrightarrow> t < n \<Longrightarrow> (h + 1) mod n = t \<longleftrightarrow> used n h t = n - 1"
  by (auto simp: used_eq_if mod_Suc)

lemma used_push:
  "h < n \<Longrightarrow> t < n \<Longrightarrow> used n h t < n - 1 \<Longrightarrow> used n ((h + 1) mod n) t = Suc (used n h t)"
  by (auto simp: used_eq_if mod_Suc)

lemma used_pop:
  "h < n \<Longrightarrow> t < n \<Longrightarrow> 0 < used n h t \<Longrightarrow> used n h ((t + 1) mod n) = used n h t - 1"
  by (auto simp: used_eq_if mod_Suc split: if_splits)

lemma length_slice [simp]: "length (slice buf n t k) = k"
  by (simp add: slice_def)

lemma slice_0 [simp]: "slice buf n t 0 = []"
  by (simp add: slice_def)

lemma slice_snoc: "slice buf n t (Suc k) = slice buf n t k @ [buf ! ((t + k) mod n)]"
  by (simp add: slice_def)

lemma slice_Cons: "slice buf n t (Suc k) = buf ! (t mod n) # slice buf n ((t + 1) mod n) k"
  by (rule nth_equalityI) (auto simp: slice_def nth_Cons mod_simps simp del: upt_Suc split: nat.split)

lemma slice_update:
  assumes "k < n" and "length buf = n"
  shows "slice (buf[(t + k) mod n := x]) n t k = slice buf n t k"
proof -
  have "(t + k) mod n \<noteq> (t + i) mod n" if "i < k" for i
    using mod_add_less_neq [of i k n t] that assms by simp
  then show ?thesis by (simp add: slice_def)
qed

lemma ring_wf_nat:
  assumes "ring_wf r"
  shows "2 \<le> unat (rg_size r)" "unat (rg_head r) < unat (rg_size r)"
    "unat (rg_tail r) < unat (rg_size r)" "length (the (rg_buf r)) = unat (rg_size r)"
  using assms by (auto simp: ring_wf_def word_le_nat_alt word_less_nat_alt)

lemma unat_ring_next:
  fixes i n :: u32
  assumes "unat i < unat n"
  shows "unat ((i + 1) mod n) = (unat i + 1) mod unat n"
proof -
  have "unat n < 2 ^ 32" using unsigned_less [of n] by simp
  with assms have "unat (i + 1) = unat i + 1" by (simp add: unat_word_ariths)
  then show ?thesis by (simp add: unat_mod)
qed

lemma unat_ring_next_less:
  fixes i n :: u32
  assumes "unat i < unat n"
  shows "unat ((i + 1) mod n) < unat n"
  using assms by (simp add: unat_ring_next)

lemma ring_next_eq_iff:
  assumes "ring_wf r"
  shows "(rg_head r + 1) mod rg_size r = rg_tail r \<longleftrightarrow>
    used (unat (rg_size r)) (unat (rg_head r)) (unat (rg_tail r)) = unat (rg_size r) - 1"
proof -
  note w = ring_wf_nat [OF assms]
  have "(rg_head r + 1) mod rg_size r = rg_tail r \<longleftrightarrow>
      (unat (rg_head r) + 1) mod unat (rg_size r) = unat (rg_tail r)"
    using unat_ring_next [OF w(2)] by (metis word_unat_eq_iff)
  also have "\<dots> \<longleftrightarrow> used (unat (rg_size r)) (unat (rg_head r)) (unat (rg_tail r)) = unat (rg_size r) - 1"
    by (rule next_eq_iff_full [OF w(2,3)])
  finally show ?thesis .
qed

lemma ring_full_iff:
  assumes "ring_wf r"
  shows "(rg_head r + 1) mod rg_size r = rg_tail r \<longleftrightarrow> length (ring_items r) = ring_cap r"
  using ring_next_eq_iff [OF assms] by (simp add: ring_items_def ring_cap_def)

lemma ring_items_le_cap: "ring_wf r \<Longrightarrow> length (ring_items r) \<le> ring_cap r"
  using used_less [of "unat (rg_size r)" "unat (rg_head r)" "unat (rg_tail r)"] ring_wf_nat(1) [of r]
  by (simp add: ring_items_def ring_cap_def)

lemma ring_push_items:
  fixes x :: telemetry_t
  assumes wf: "ring_wf r" and room: "length (ring_items r) < ring_cap r"
  defines "r' \<equiv> r\<lparr>rg_buf := Some ((the (rg_buf r))[unat (rg_head r) := x]),
                  rg_head := (rg_head r + 1) mod rg_size r\<rparr>"
  shows "ring_items r' = ring_items r @ [x]" "ring_wf r'" "ring_cap r' = ring_cap r"
proof -
  note w = ring_wf_nat [OF wf]
  let ?n = "unat (rg_size r)" and ?h = "unat (rg_head r)" and ?t = "unat (rg_tail r)"
    and ?b = "the (rg_buf r)"
  have u: "used ?n ?h ?t < ?n - 1" using room by (simp add: ring_items_def ring_cap_def)
  have h: "(?t + used ?n ?h ?t) mod ?n = ?h" by (rule add_used [OF w(2,3)])
  have "ring_items r' = slice (?b[?h := x]) ?n ?t (Suc (used ?n ?h ?t))"
    using used_push [OF w(2,3) u] unat_ring_next [OF w(2)] by (simp add: r'_def ring_items_def)
  also have "\<dots> = slice (?b[?h := x]) ?n ?t (used ?n ?h ?t) @ [x]"
    using w(2,4) by (simp add: slice_snoc h)
  also have "slice (?b[?h := x]) ?n ?t (used ?n ?h ?t) = ring_items r"
    using slice_update [of "used ?n ?h ?t" ?n ?b ?t x] u w(4) by (simp add: h ring_items_def)
  finally show "ring_items r' = ring_items r @ [x]" .
  show "ring_wf r'"
    using wf unat_ring_next_less [OF w(2)] by (simp add: r'_def ring_wf_def word_less_nat_alt)
  show "ring_cap r' = ring_cap r" by (simp add: r'_def ring_cap_def)
qed

lemma ring_pop_items:
  assumes wf: "ring_wf r" and ne: "rg_tail r \<noteq> rg_head r"
  defines "r' \<equiv> r\<lparr>rg_tail := (rg_tail r + 1) mod rg_size r\<rparr>"
  shows "ring_items r = the (rg_buf r) ! unat (rg_tail r) # ring_items r'"
    "ring_wf r'" "ring_cap r' = ring_cap r"
proof -
  note w = ring_wf_nat [OF wf]
  let ?n = "unat (rg_size r)" and ?h = "unat (rg_head r)" and ?t = "unat (rg_tail r)"
  have "0 < used ?n ?h ?t" using used_0_iff [OF w(2,3)] ne by (metis gr0I word_unat_eq_iff)
  then obtain k where k: "used ?n ?h ?t = Suc k" by (cases "used ?n ?h ?t") auto
  then have "used ?n ?h (unat (rg_tail r')) = k"
    using used_pop [OF w(2,3)] unat_ring_next [OF w(3)] by (simp add: r'_def)
  with k show "ring_items r = the (rg_buf r) ! unat (rg_tail r) # ring_items r'"
    using w(3) unat_ring_next [OF w(3)] by (simp add: ring_items_def slice_Cons r'_def)
  show "ring_wf r'"
    using wf unat_ring_next_less [OF w(3)] by (simp add: r'_def ring_wf_def word_less_nat_alt)
  show "ring_cap r' = ring_cap r" by (simp add: r'_def ring_cap_def)
qed

lemma ring_empty_iff:
  assumes "ring_wf r"
  shows "ring_items r = [] \<longleftrightarrow> rg_tail r = rg_head r"
proof -
  note w = ring_wf_nat [OF assms]
  have "ring_items r = [] \<longleftrightarrow> used (unat (rg_size r)) (unat (rg_head r)) (unat (rg_tail r)) = 0"
    by (metis length_0_conv length_slice ring_items_def)
  also have "\<dots> \<longleftrightarrow> rg_tail r = rg_head r"
    using used_0_iff [OF w(2,3)] by (metis word_unat_eq_iff)
  finally show ?thesis .
qed

lemma ring_count_items:
  assumes "ring_wf r"
  shows "unat (spsc_ring_count (Some r)) = length (ring_items r)"
proof -
  note w = ring_wf_nat [OF assms]
  have b: "unat (rg_size r) < 2 ^ 32" using unsigned_less [of "rg_size r"] by simp
  have "rg_buf r \<noteq> None" using assms by (simp add: ring_wf_def)
  then show ?thesis
    using w b by (auto simp: spsc_ring_count_def ring_items_def used_eq_if word_le_nat_alt
        unat_sub_if' unat_word_ariths)
qed

subsection \<open>The queue interface\<close>

datatype 'a queue_op = Push 'a | Pop

locale bounded_fifo =
  fixes push :: "'q \<Rightarrow> 'a \<Rightarrow> bool \<times> 'q"
    and pop :: "'q \<Rightarrow> 'a option \<times> 'q"
    and items :: "'q \<Rightarrow> 'a list"
    and cap :: "'q \<Rightarrow> nat"
    and inv :: "'q \<Rightarrow> bool"
  assumes push_room: "inv q \<Longrightarrow> length (items q) < cap q \<Longrightarrow>
      fst (push q x) \<and> items (snd (push q x)) = items q @ [x]"
    and push_full: "inv q \<Longrightarrow> cap q \<le> length (items q) \<Longrightarrow>
      \<not> fst (push q x) \<and> items (snd (push q x)) = items q"
    and push_inv: "inv q \<Longrightarrow> inv (snd (push q x)) \<and> cap (snd (push q x)) = cap q"
    and pop_empty: "inv q \<Longrightarrow> items q = [] \<Longrightarrow> fst (pop q) = None \<and> items (snd (pop q)) = []"
    and pop_Cons: "inv q \<Longrightarrow> items q = x # xs \<Longrightarrow> fst (pop q) = Some x \<and> items (snd (pop q)) = xs"
    and pop_inv: "inv q \<Longrightarrow> inv (snd (pop q)) \<and> cap (snd (pop q)) = cap q"
    and items_le_cap: "inv q \<Longrightarrow> length (items q) \<le> cap q"
begin

lemma push_accepts_iff: "inv q \<Longrightarrow> fst (push q x) \<longleftrightarrow> length (items q) < cap q"
  using push_room [of q x] push_full [of q x] by (cases "length (items q) < cap q") auto

lemma pop_items: "inv q \<Longrightarrow> items q = (case fst (pop q) of None \<Rightarrow> [] | Some x \<Rightarrow> [x]) @ items (snd (pop q))"
  using pop_empty [of q] pop_Cons [of q] by (cases "items q") auto

text \<open>
  A sequence of calls, collecting the records the queue accepted and those it gave out.
\<close>

fun run :: "'q \<Rightarrow> 'a queue_op list \<Rightarrow> 'a list \<times> 'a list \<times> 'q" where
  "run q [] = ([], [], q)"
| "run q (Push x # ops) =
     (case run (snd (push q x)) ops of
        (acc, out, q') \<Rightarrow> (if fst (push q x) then x # acc else acc, out, q'))"
| "run q (Pop # ops) =
     (case run (snd (pop q)) ops of
        (acc, out, q') \<Rightarrow>
          (acc, (case fst (pop q) of None \<Rightarrow> out | Some x \<Rightarrow> x # out), q'))"

lemma run_fifo:
  assumes "inv q" and "run q ops = (acc, out, q')"
  shows "items q @ acc = out @ items q' \<and> inv q' \<and> cap q' = cap q"
  using assms
proof (induction q ops arbitrary: acc out q' rule: run.induct)
  case (1 q)
  then show ?case by simp
next
  case (2 q x ops)
  obtain acc1 where r: "run (snd (push q x)) ops = (acc1, out, q')"
    and acc: "acc = (if fst (push q x) then x # acc1 else acc1)"
    using "2.prems"(2) by (auto split: prod.splits)
  from "2.IH" [OF _ r] push_inv [OF "2.prems"(1)]
  have ih: "items (snd (push q x)) @ acc1 = out @ items q' \<and> inv q' \<and> cap q' = cap q" by auto
  show ?case
  proof (cases "length (items q) < cap q")
    case True
    with push_room [OF "2.prems"(1) True, of x] ih acc show ?thesis by auto
  next
    case False
    with push_full [OF "2.prems"(1), of x] ih acc show ?thesis by auto
  qed
next
  case (3 q ops)
  obtain out1 where r: "run (snd (pop q)) ops = (acc, out1, q')"
    and out: "out = (case fst (pop q) of None \<Rightarrow> out1 | Some x \<Rightarrow> x # out1)"
    using "3.prems"(2) by (auto split: prod.splits)
  from "3.IH" [OF _ r] pop_inv [OF "3.prems"(1)]
  have "items (snd (pop q)) @ acc = out1 @ items q' \<and> inv q' \<and> cap q' = cap q" by auto
  with pop_items [OF "3.prems"(1)] out show ?case by (auto split: option.splits)
qed

text \<open>Pushing a list stops accepting when the queue is full and never reorders.\<close>

fun push_all :: "'q \<Rightarrow> 'a list \<Rightarrow> nat \<times> 'q" where
  "push_all q [] = (0, q)"
| "push_all q (x # xs) =
     (case push_all (snd (push q x)) xs of
        (n, q') \<Rightarrow> (if fst (push q x) then Suc n else n, q'))"

lemma push_all_items:
  assumes "inv q"
  shows "items (snd (push_all q xs)) = items q @ take (cap q - length (items q)) xs \<and>
    fst (push_all q xs) = min (length xs) (cap q - length (items q)) \<and>
    inv (snd (push_all q xs)) \<and> cap (snd (push_all q xs)) = cap q"
  using assms
proof (induction xs arbitrary: q)
  case Nil
  then show ?case by simp
next
  case (Cons x xs)
  let ?q = "snd (push q x)"
  from push_inv [OF Cons.prems, of x] have q: "inv ?q" "cap ?q = cap q" by auto
  note ih = Cons.IH [OF q(1)]
  show ?case
  proof (cases "length (items q) < cap q")
    case True
    then obtain k where "cap q - length (items q) = Suc k" by (cases "cap q - length (items q)") auto
    moreover from this True have "cap q - Suc (length (items q)) = k" by simp
    ultimately show ?thesis
      using push_room [OF Cons.prems True, of x] ih q(2) by (simp add: split_beta)
  next
    case False
    with push_full [OF Cons.prems, of x] ih q(2) show ?thesis by (simp add: split_beta)
  qed
qed

end

text \<open>The calls on a live ring, as the two threads make them.\<close>

definition ring_push :: "spsc_ring_t \<Rightarrow> telemetry_t \<Rightarrow> bool \<times> spsc_ring_t" where
  "ring_push r x = (case spsc_ring_push (Some r) (Some x) of (b, r') \<Rightarrow> (b, the r'))"

definition ring_pop :: "spsc_ring_t \<Rightarrow> telemetry_t option \<times> spsc_ring_t" where
  "ring_pop r =
     (case spsc_ring_pop (Some r) (Some telemetry_zero) of
        (b, x, r') \<Rightarrow> (if b then x else None, the r'))"

lemma ring_push_eq:
  assumes "ring_wf r"
  shows "ring_push r x =
    (if length (ring_items r) = ring_cap r then (False, r\<lparr>rg_dropped := rg_dropped r + 1\<rparr>)
     else (True, r\<lparr>rg_buf := Some ((the (rg_buf r))[unat (rg_head r) := x]),
                   rg_head := (rg_head r + 1) mod rg_size r\<rparr>))"
  using assms ring_full_iff [OF assms]
  by (auto simp: ring_push_def spsc_ring_push_def ring_wf_def Let_def)

lemma ring_pop_eq:
  assumes "ring_wf r"
  shows "ring_pop r =
    (if ring_items r = [] then (None, r)
     else (Some (the (rg_buf r) ! unat (rg_tail r)), r\<lparr>rg_tail := (rg_tail r + 1) mod rg_size r\<rparr>))"
  using assms ring_empty_iff [OF assms]
  by (auto simp: ring_pop_def spsc_ring_pop_def ring_wf_def Let_def)

interpretation ring: bounded_fifo ring_push ring_pop ring_items ring_cap ring_wf
proof unfold_locales
  fix q :: spsc_ring_t and x :: telemetry_t and xs
  assume wf: "ring_wf q"
  show "length (ring_items q) < ring_cap q \<Longrightarrow>
      fst (ring_push q x) \<and> ring_items (snd (ring_push q x)) = ring_items q @ [x]"
    using wf ring_push_items(1) [OF wf, of x] by (simp add: ring_push_eq)
  show "ring_cap q \<le> length (ring_items q) \<Longrightarrow>
      \<not> fst (ring_push q x) \<and> ring_items (snd (ring_push q x)) = ring_items q"
    using wf ring_items_le_cap [OF wf] by (auto simp: ring_push_eq) (simp add: ring_items_def)
  show "ring_wf (snd (ring_push q x)) \<and> ring_cap (snd (ring_push q x)) = ring_cap q"
    using wf ring_items_le_cap [OF wf] ring_push_items(2,3) [OF wf, of x]
    by (auto simp: ring_push_eq) (simp_all add: ring_wf_def ring_cap_def)
  show "ring_items q = [] \<Longrightarrow> fst (ring_pop q) = None \<and> ring_items (snd (ring_pop q)) = []"
    using wf by (simp add: ring_pop_eq)
  show "ring_items q = x # xs \<Longrightarrow> fst (ring_pop q) = Some x \<and> ring_items (snd (ring_pop q)) = xs"
    using wf ring_empty_iff [OF wf] ring_pop_items(1) [OF wf] by (auto simp: ring_pop_eq)
  show "ring_wf (snd (ring_pop q)) \<and> ring_cap (snd (ring_pop q)) = ring_cap q"
    using wf ring_empty_iff [OF wf] ring_pop_items(2,3) [OF wf] by (auto simp: ring_pop_eq)
  show "length (ring_items q) \<le> ring_cap q" using wf by (rule ring_items_le_cap)
qed

lemma ring_init_wf:
  assumes "spsc_ring_init ok (Some r) n = (0, Some r')"
  shows "ring_wf r' \<and> ring_items r' = [] \<and> ring_cap r' = unat n - 1"
  using assms by (auto simp: spsc_ring_init_def ring_wf_def ring_items_def ring_cap_def used_def
      word_le_nat_alt word_less_nat_alt split: if_splits)

text \<open>
  C6. The ring is a bounded FIFO: after a successful \<^verbatim>\<open>spsc_ring_init\<close>, for every sequence
  of \<^verbatim>\<open>spsc_ring_push\<close> and \<^verbatim>\<open>spsc_ring_pop\<close> calls the records accepted so far are exactly
  those given out, in the same order, followed by those still held; never more than
  \<open>size - 1\<close> are held, and \<^verbatim>\<open>spsc_ring_count\<close> is their number.
\<close>

theorem ring_fifo:
  assumes "spsc_ring_init ok (Some r0) n = (0, Some r)"
    and "ring.run r ops = (accepted, given, r')"
  shows "accepted = given @ ring_items r' \<and> length (ring_items r') \<le> unat n - 1 \<and>
    unat (spsc_ring_count (Some r')) = length (ring_items r')"
proof -
  from ring_init_wf [OF assms(1)] have r: "ring_wf r" "ring_items r = []" "ring_cap r = unat n - 1"
    by auto
  from ring.run_fifo [OF r(1) assms(2)] r have r': "accepted = given @ ring_items r'" "ring_wf r'"
    "ring_cap r' = unat n - 1" by auto
  with ring.items_le_cap [OF r'(2)] ring_count_items [OF r'(2)] show ?thesis by simp
qed

definition demo_point :: "nat \<Rightarrow> telemetry_t" where
  "demo_point k = telemetry_zero\<lparr>tl_ts_ms := of_nat k\<rparr>"

definition demo_ring :: spsc_ring_t where
  "demo_ring = \<lparr>rg_buf = Some [telemetry_zero, telemetry_zero, telemetry_zero], rg_size = 3,
     rg_head = 0, rg_tail = 0, rg_dropped = 0\<rparr>"

lemma demo_ring_init:
  "spsc_ring_init True (Some demo_ring) 3 = (0, Some demo_ring)"
  by (simp add: spsc_ring_init_def demo_ring_def word_less_nat_alt) (simp add: numeral_3_eq_3)

theorem ring_fifo_witness:
  "spsc_ring_init True (Some demo_ring) 3 = (0, Some demo_ring) \<and>
   fst (ring.run demo_ring [Push (demo_point 1), Push (demo_point 2), Push (demo_point 3), Pop]) =
     fst (snd (ring.run demo_ring [Push (demo_point 1), Push (demo_point 2), Push (demo_point 3), Pop])) @
     ring_items (snd (snd (ring.run demo_ring [Push (demo_point 1), Push (demo_point 2), Push (demo_point 3), Pop])))"
  using demo_ring_init
    ring_fifo [OF demo_ring_init, of "[Push (demo_point 1), Push (demo_point 2), Push (demo_point 3), Pop]"
      "fst (ring.run demo_ring [Push (demo_point 1), Push (demo_point 2), Push (demo_point 3), Pop])"
      "fst (snd (ring.run demo_ring [Push (demo_point 1), Push (demo_point 2), Push (demo_point 3), Pop]))"
      "snd (snd (ring.run demo_ring [Push (demo_point 1), Push (demo_point 2), Push (demo_point 3), Pop]))"]
  by (metis prod.collapse)

text \<open>
  A push is refused exactly when the ring already holds \<open>size - 1\<close> records; a refusal
  changes nothing but the drop counter, which it increments (modulo \<open>2 ^ 32\<close>).
\<close>

theorem ring_push_refused_iff_full:
  assumes "ring_wf r" and "spsc_ring_push (Some r) (Some p) = (ok, Some r')"
  shows "(\<not> ok \<longleftrightarrow> length (ring_items r) = unat (rg_size r) - 1) \<and>
    (\<not> ok \<longrightarrow> r' = r\<lparr>rg_dropped := rg_dropped r + 1\<rparr>) \<and>
    (ok \<longrightarrow> ring_items r' = ring_items r @ [p] \<and> rg_dropped r' = rg_dropped r)"
proof -
  have e: "ring_push r p = (ok, r')" using assms(2) by (simp add: ring_push_def)
  have room: "length (ring_items r) \<noteq> ring_cap r \<Longrightarrow> length (ring_items r) < ring_cap r"
    using ring_items_le_cap [OF assms(1)] by simp
  show ?thesis
    using e room ring_push_items(1) [OF assms(1), of p]
    by (auto simp: ring_push_eq [OF assms(1)] ring_cap_def split: if_splits)
qed

end
