(* ===== verification/Ring_Concurrent.thy ===== *)
theory Ring_Concurrent
  imports Spsc_Ring
begin

text \<open>
  The ring of \<^verbatim>\<open>src/src/core/ring.c\<close> under concurrency: one producer runs
  \<^verbatim>\<open>spsc_ring_push\<close> and one consumer \<^verbatim>\<open>spsc_ring_pop\<close>, interleaved at every access to
  shared memory. Each C11 atomic (default, sequentially consistent order) is one step, and so
  is each plain access to a slot of \<^verbatim>\<open>buf\<close>; a program counter per side holds the locals
  loaded so far. \<open>sy_accepted\<close>, \<open>sy_given\<close> and \<open>sy_refused\<close> record the history.

  The invariant relates the possibly stale index each side has loaded to the current one: the
  producer's tail may lag, so it underestimates the room, the consumer's head may lag, so it
  underestimates the contents. From it follow first-in first-out delivery in every interleaving
  and the absence of a data race on the slots.
\<close>

datatype prod_pc =
    P_idle
  | P_head telemetry_t u32
  | P_both telemetry_t u32 u32
  | P_written telemetry_t u32

datatype cons_pc =
    C_idle
  | C_tail u32
  | C_both u32 u32
  | C_read u32 telemetry_t

record spsc_sys =
  sy_ring :: spsc_ring_t
  sy_prod :: prod_pc
  sy_cons :: cons_pc
  sy_accepted :: "telemetry_t list"
  sy_given :: "telemetry_t list"
  sy_refused :: nat

definition spsc_start :: "spsc_ring_t \<Rightarrow> spsc_sys" where
  "spsc_start r = \<lparr>sy_ring = r, sy_prod = P_idle, sy_cons = C_idle,
     sy_accepted = [], sy_given = [], sy_refused = 0\<rparr>"

abbreviation ring_next :: "spsc_ring_t \<Rightarrow> u32 \<Rightarrow> u32" where
  "ring_next r i \<equiv> (i + 1) mod rg_size r"

inductive spsc_step :: "spsc_sys \<Rightarrow> spsc_sys \<Rightarrow> bool" where
  p_load_head: "sy_prod s = P_idle \<Longrightarrow>
     spsc_step s (s\<lparr>sy_prod := P_head x (rg_head (sy_ring s))\<rparr>)"
| p_load_tail: "sy_prod s = P_head x h \<Longrightarrow>
     spsc_step s (s\<lparr>sy_prod := P_both x h (rg_tail (sy_ring s))\<rparr>)"
| p_drop: "sy_prod s = P_both x h t \<Longrightarrow> ring_next (sy_ring s) h = t \<Longrightarrow>
     spsc_step s (s\<lparr>sy_prod := P_idle,
       sy_ring := (sy_ring s)\<lparr>rg_dropped := rg_dropped (sy_ring s) + 1\<rparr>,
       sy_refused := Suc (sy_refused s)\<rparr>)"
| p_write: "sy_prod s = P_both x h t \<Longrightarrow> ring_next (sy_ring s) h \<noteq> t \<Longrightarrow>
     spsc_step s (s\<lparr>sy_prod := P_written x h,
       sy_ring := (sy_ring s)\<lparr>rg_buf := Some ((the (rg_buf (sy_ring s)))[unat h := x])\<rparr>\<rparr>)"
| p_publish: "sy_prod s = P_written x h \<Longrightarrow>
     spsc_step s (s\<lparr>sy_prod := P_idle,
       sy_ring := (sy_ring s)\<lparr>rg_head := ring_next (sy_ring s) h\<rparr>,
       sy_accepted := sy_accepted s @ [x]\<rparr>)"
| c_load_tail: "sy_cons s = C_idle \<Longrightarrow>
     spsc_step s (s\<lparr>sy_cons := C_tail (rg_tail (sy_ring s))\<rparr>)"
| c_load_head: "sy_cons s = C_tail t \<Longrightarrow>
     spsc_step s (s\<lparr>sy_cons := C_both t (rg_head (sy_ring s))\<rparr>)"
| c_empty: "sy_cons s = C_both t h \<Longrightarrow> t = h \<Longrightarrow>
     spsc_step s (s\<lparr>sy_cons := C_idle\<rparr>)"
| c_read: "sy_cons s = C_both t h \<Longrightarrow> t \<noteq> h \<Longrightarrow>
     spsc_step s (s\<lparr>sy_cons := C_read t (the (rg_buf (sy_ring s)) ! unat t)\<rparr>)"
| c_publish: "sy_cons s = C_read t v \<Longrightarrow>
     spsc_step s (s\<lparr>sy_cons := C_idle,
       sy_ring := (sy_ring s)\<lparr>rg_tail := ring_next (sy_ring s) t\<rparr>,
       sy_given := sy_given s @ [v]\<rparr>)"

inductive spsc_reach :: "spsc_ring_t \<Rightarrow> spsc_sys \<Rightarrow> bool" for r where
  start: "spsc_reach r (spsc_start r)"
| step: "spsc_reach r s \<Longrightarrow> spsc_step s s' \<Longrightarrow> spsc_reach r s'"

subsection \<open>The invariant\<close>

abbreviation ring_used :: "spsc_ring_t \<Rightarrow> u32 \<Rightarrow> u32 \<Rightarrow> nat" where
  "ring_used r h t \<equiv> used (unat (rg_size r)) (unat h) (unat t)"

fun prod_ok :: "spsc_ring_t \<Rightarrow> prod_pc \<Rightarrow> bool" where
  "prod_ok r P_idle = True"
| "prod_ok r (P_head x h) = (h = rg_head r)"
| "prod_ok r (P_both x h t) =
     (h = rg_head r \<and> t < rg_size r \<and> length (ring_items r) \<le> ring_used r h t)"
| "prod_ok r (P_written x h) =
     (h = rg_head r \<and> length (ring_items r) < ring_cap r \<and> the (rg_buf r) ! unat h = x)"

fun cons_ok :: "spsc_ring_t \<Rightarrow> cons_pc \<Rightarrow> bool" where
  "cons_ok r C_idle = True"
| "cons_ok r (C_tail t) = (t = rg_tail r)"
| "cons_ok r (C_both t h) =
     (t = rg_tail r \<and> h < rg_size r \<and> ring_used r h t \<le> length (ring_items r))"
| "cons_ok r (C_read t v) =
     (t = rg_tail r \<and> ring_items r \<noteq> [] \<and> v = the (rg_buf r) ! unat t)"

definition spsc_inv :: "spsc_sys \<Rightarrow> bool" where
  "spsc_inv s \<longleftrightarrow>
     ring_wf (sy_ring s) \<and> prod_ok (sy_ring s) (sy_prod s) \<and> cons_ok (sy_ring s) (sy_cons s) \<and>
     sy_accepted s = sy_given s @ ring_items (sy_ring s)"

text \<open>A slot write at \<open>head\<close> while there is room is invisible to the consumer.\<close>

lemma ring_head_neq_tail:
  assumes "ring_wf r" and "ring_items r \<noteq> []"
  shows "rg_head r \<noteq> rg_tail r"
  using ring_empty_iff [OF assms(1)] assms(2) by metis

lemma ring_write_head:
  fixes x :: telemetry_t
  assumes wf: "ring_wf r" and room: "length (ring_items r) < ring_cap r"
  defines "r' \<equiv> r\<lparr>rg_buf := Some ((the (rg_buf r))[unat (rg_head r) := x])\<rparr>"
  shows "ring_items r' = ring_items r" "ring_wf r'" "ring_cap r' = ring_cap r"
    "the (rg_buf r') ! unat (rg_head r) = x"
    "ring_items r \<noteq> [] \<Longrightarrow> the (rg_buf r') ! unat (rg_tail r) = the (rg_buf r) ! unat (rg_tail r)"
proof -
  note w = ring_wf_nat [OF wf]
  let ?n = "unat (rg_size r)" and ?k = "ring_used r (rg_head r) (rg_tail r)"
  have k: "?k < ?n" using room by (simp add: ring_items_def ring_cap_def)
  have h: "(unat (rg_tail r) + ?k) mod ?n = unat (rg_head r)" by (rule add_used [OF w(2,3)])
  show "ring_items r' = ring_items r"
    using slice_update [OF k w(4), of "unat (rg_tail r)" x] by (simp add: h r'_def ring_items_def)
  show "ring_wf r'" using wf by (simp add: r'_def ring_wf_def)
  show "ring_cap r' = ring_cap r" by (simp add: r'_def ring_cap_def)
  show "the (rg_buf r') ! unat (rg_head r) = x" using w by (simp add: r'_def)
  assume "ring_items r \<noteq> []"
  then have "unat (rg_head r) \<noteq> unat (rg_tail r)"
    using ring_head_neq_tail [OF wf] by (simp add: word_unat_eq_iff)
  then show "the (rg_buf r') ! unat (rg_tail r) = the (rg_buf r) ! unat (rg_tail r)"
    by (simp add: r'_def)
qed

lemma ring_used_full:
  assumes "ring_wf r" and "t < rg_size r" and "ring_next r (rg_head r) \<noteq> t"
  shows "ring_used r (rg_head r) t < ring_cap r"
proof -
  note w = ring_wf_nat [OF assms(1)]
  have t: "unat t < unat (rg_size r)" using assms(2) by (simp add: word_less_nat_alt)
  have "ring_used r (rg_head r) t \<noteq> unat (rg_size r) - 1"
    using assms(3) unat_ring_next [OF w(2)] next_eq_iff_full [OF w(2) t] by (metis word_unat_eq_iff)
  with used_less [of "unat (rg_size r)"] w(1) show ?thesis
    by (simp add: ring_cap_def) (metis Suc_pred le_neq_implies_less less_Suc_eq_le less_le_trans pos2)
qed

lemma ring_used_pos:
  assumes "ring_wf r" and "h < rg_size r" and "rg_tail r \<noteq> h"
  shows "0 < ring_used r h (rg_tail r)"
  using used_0_iff [of "unat h" "unat (rg_size r)" "unat (rg_tail r)"] ring_wf_nat(3) [OF assms(1)] assms
  by (metis gr0I word_less_nat_alt word_unat_eq_iff)

lemma ring_dropped_frame [simp]:
  "ring_items (r\<lparr>rg_dropped := d\<rparr>) = ring_items r" "ring_wf (r\<lparr>rg_dropped := d\<rparr>) = ring_wf r"
  "ring_cap (r\<lparr>rg_dropped := d\<rparr>) = ring_cap r"
  by (simp_all add: ring_items_def ring_wf_def ring_cap_def)

lemma prod_ok_dropped [simp]: "prod_ok (r\<lparr>rg_dropped := d\<rparr>) p = prod_ok r p"
  by (cases p) simp_all

lemma cons_ok_dropped [simp]: "cons_ok (r\<lparr>rg_dropped := d\<rparr>) c = cons_ok r c"
  by (cases c) simp_all

subsection \<open>Every step keeps it\<close>

lemma p_write_inv:
  assumes inv: "spsc_inv s" and pc: "sy_prod s = P_both x h t" and ne: "ring_next (sy_ring s) h \<noteq> t"
  shows "spsc_inv (s\<lparr>sy_prod := P_written x h,
       sy_ring := (sy_ring s)\<lparr>rg_buf := Some ((the (rg_buf (sy_ring s)))[unat h := x])\<rparr>\<rparr>)"
proof -
  let ?r = "sy_ring s"
  from inv pc have wf: "ring_wf ?r" and h: "h = rg_head ?r" and t: "t < rg_size ?r"
    and le: "length (ring_items ?r) \<le> ring_used ?r h t"
    and c: "cons_ok ?r (sy_cons s)" and acc: "sy_accepted s = sy_given s @ ring_items ?r"
    by (auto simp: spsc_inv_def)
  have room: "length (ring_items ?r) < ring_cap ?r"
    using le ring_used_full [OF wf t] ne h by auto
  note w = ring_write_head [OF wf room, of x]
  have "cons_ok (?r\<lparr>rg_buf := Some ((the (rg_buf ?r))[unat h := x])\<rparr>) (sy_cons s)"
    using c w h by (cases "sy_cons s") auto
  with w room h acc show ?thesis by (simp add: spsc_inv_def)
qed

lemma p_publish_inv:
  assumes inv: "spsc_inv s" and pc: "sy_prod s = P_written x h"
  shows "spsc_inv (s\<lparr>sy_prod := P_idle,
       sy_ring := (sy_ring s)\<lparr>rg_head := ring_next (sy_ring s) h\<rparr>,
       sy_accepted := sy_accepted s @ [x]\<rparr>)"
proof -
  let ?r = "sy_ring s"
  from inv pc have wf: "ring_wf ?r" and h: "h = rg_head ?r"
    and room: "length (ring_items ?r) < ring_cap ?r" and x: "the (rg_buf ?r) ! unat h = x"
    and c: "cons_ok ?r (sy_cons s)" and acc: "sy_accepted s = sy_given s @ ring_items ?r"
    by (auto simp: spsc_inv_def)
  obtain b where b: "rg_buf ?r = Some b" using wf by (auto simp: ring_wf_def)
  then have "b[unat (rg_head ?r) := x] = b" using x h by (metis list_update_id option.sel)
  then have r: "?r\<lparr>rg_head := ring_next ?r h\<rparr> =
      ?r\<lparr>rg_buf := Some ((the (rg_buf ?r))[unat (rg_head ?r) := x]), rg_head := ring_next ?r (rg_head ?r)\<rparr>"
    using b h by (cases "sy_ring s") simp
  note w = ring_push_items [OF wf room, of x, folded r]
  have "cons_ok (?r\<lparr>rg_head := ring_next ?r h\<rparr>) (sy_cons s)"
    using c w by (cases "sy_cons s") auto
  with w acc show ?thesis by (simp add: spsc_inv_def)
qed

lemma c_read_inv:
  assumes inv: "spsc_inv s" and pc: "sy_cons s = C_both t h" and ne: "t \<noteq> h"
  shows "spsc_inv (s\<lparr>sy_cons := C_read t (the (rg_buf (sy_ring s)) ! unat t)\<rparr>)"
proof -
  from inv pc have "0 < ring_used (sy_ring s) h t" "ring_used (sy_ring s) h t \<le> length (ring_items (sy_ring s))"
    using ring_used_pos [of "sy_ring s" h] ne by (auto simp: spsc_inv_def)
  then have "ring_items (sy_ring s) \<noteq> []" by auto
  with inv pc show ?thesis by (simp add: spsc_inv_def)
qed

lemma c_publish_inv:
  assumes inv: "spsc_inv s" and pc: "sy_cons s = C_read t v"
  shows "spsc_inv (s\<lparr>sy_cons := C_idle,
       sy_ring := (sy_ring s)\<lparr>rg_tail := ring_next (sy_ring s) t\<rparr>,
       sy_given := sy_given s @ [v]\<rparr>)"
proof -
  let ?r = "sy_ring s"
  from inv pc have wf: "ring_wf ?r" and t: "t = rg_tail ?r" and ne: "ring_items ?r \<noteq> []"
    and v: "v = the (rg_buf ?r) ! unat t" and p: "prod_ok ?r (sy_prod s)"
    and acc: "sy_accepted s = sy_given s @ ring_items ?r"
    by (auto simp: spsc_inv_def)
  have "rg_tail ?r \<noteq> rg_head ?r" using ring_head_neq_tail [OF wf ne] by simp
  note w = ring_pop_items [OF wf this, folded t]
  have "length (ring_items ?r) = Suc (length (ring_items (?r\<lparr>rg_tail := ring_next ?r t\<rparr>)))"
    using w(1) by (metis length_Cons)
  then have "prod_ok (?r\<lparr>rg_tail := ring_next ?r t\<rparr>) (sy_prod s)"
    using p w(3) by (cases "sy_prod s") auto
  with w acc v show ?thesis by (simp add: spsc_inv_def)
qed

lemma spsc_step_inv: "spsc_step s s' \<Longrightarrow> spsc_inv s \<Longrightarrow> spsc_inv s'"
proof (induction rule: spsc_step.induct)
  case (p_write s x h t)
  then show ?case by (intro p_write_inv)
next
  case (p_publish s x h)
  then show ?case by (intro p_publish_inv)
next
  case (c_read s t h)
  then show ?case by (intro c_read_inv)
next
  case (c_publish s t v)
  then show ?case by (intro c_publish_inv)
qed (auto simp: spsc_inv_def ring_wf_def ring_items_def)

lemma spsc_start_inv: "ring_wf r \<Longrightarrow> ring_items r = [] \<Longrightarrow> spsc_inv (spsc_start r)"
  by (simp add: spsc_inv_def spsc_start_def)

lemma spsc_reach_inv: "spsc_reach r s \<Longrightarrow> ring_wf r \<Longrightarrow> ring_items r = [] \<Longrightarrow> spsc_inv s"
  by (induction rule: spsc_reach.induct) (auto intro: spsc_start_inv spsc_step_inv)

lemma spsc_step_dropped:
  "spsc_step s s' \<Longrightarrow>
   rg_size (sy_ring s') = rg_size (sy_ring s) \<and>
   (rg_dropped (sy_ring s) = rg_dropped r + of_nat (sy_refused s) \<longrightarrow>
    rg_dropped (sy_ring s') = rg_dropped r + of_nat (sy_refused s'))"
  by (induction rule: spsc_step.induct) auto

lemma spsc_reach_dropped:
  "spsc_reach r s \<Longrightarrow>
   rg_size (sy_ring s) = rg_size r \<and> rg_dropped (sy_ring s) = rg_dropped r + of_nat (sy_refused s)"
proof (induction rule: spsc_reach.induct)
  case start
  show ?case by (simp add: spsc_start_def)
next
  case (step s s')
  with spsc_step_dropped [of s s' r] show ?case by simp
qed

subsection \<open>Results\<close>

text \<open>
  No data race on the slots: in no reachable state is the producer about to write the slot
  the consumer is about to read.
\<close>

lemma spsc_race_free:
  assumes "spsc_ring_init ok (Some r0) n = (0, Some r)" and "spsc_reach r s"
    and "sy_prod s = P_both x h t" and "ring_next (sy_ring s) h \<noteq> t"
    and "sy_cons s = C_both t' h'" and "t' \<noteq> h'"
  shows "unat h \<noteq> unat t'"
proof -
  from ring_init_wf [OF assms(1)] spsc_reach_inv [OF assms(2)] have inv: "spsc_inv s" by auto
  from c_read_inv [OF inv assms(5,6)] have "ring_items (sy_ring s) \<noteq> []" by (simp add: spsc_inv_def)
  then have "rg_head (sy_ring s) \<noteq> rg_tail (sy_ring s)"
    using inv by (intro ring_head_neq_tail) (auto simp: spsc_inv_def)
  with inv assms(3,5) show ?thesis by (auto simp: spsc_inv_def word_unat_eq_iff)
qed

text \<open>
  C5. Lock-free FIFO: in every interleaving of one producer in \<^verbatim>\<open>spsc_ring_push\<close> and one
  consumer in \<^verbatim>\<open>spsc_ring_pop\<close>, the records the producer has published are those the
  consumer has taken, in the same order, followed by the at most \<open>size - 1\<close> records in the
  ring: nothing is lost, duplicated, reordered or torn, the drop counter is the number of
  refused pushes modulo \<open>2 ^ 32\<close>, and the producer never writes the slot the consumer reads.
\<close>

theorem spsc_concurrent_fifo:
  assumes "spsc_ring_init ok (Some r0) n = (0, Some r)" and "spsc_reach r s"
  shows "sy_accepted s = sy_given s @ ring_items (sy_ring s) \<and>
    length (ring_items (sy_ring s)) \<le> unat n - 1 \<and>
    rg_dropped (sy_ring s) = of_nat (sy_refused s) \<and>
    (\<forall>x h t t' h'. sy_prod s = P_both x h t \<and> ring_next (sy_ring s) h \<noteq> t \<and>
       sy_cons s = C_both t' h' \<and> t' \<noteq> h' \<longrightarrow> unat h \<noteq> unat t')"
proof -
  have race: "\<forall>x h t t' h'. sy_prod s = P_both x h t \<and> ring_next (sy_ring s) h \<noteq> t \<and>
       sy_cons s = C_both t' h' \<and> t' \<noteq> h' \<longrightarrow> unat h \<noteq> unat t'"
    using spsc_race_free [OF assms] by blast
  from ring_init_wf [OF assms(1)] have r: "ring_wf r" "ring_items r = []" by auto
  from assms(1) have sz: "rg_size r = n" "rg_dropped r = 0"
    by (auto simp: spsc_ring_init_def split: if_splits)
  from spsc_reach_inv [OF assms(2) r] have inv: "spsc_inv s" .
  then have "length (ring_items (sy_ring s)) \<le> ring_cap (sy_ring s)"
    by (intro ring_items_le_cap) (simp add: spsc_inv_def)
  with inv spsc_reach_dropped [OF assms(2)] sz race show ?thesis
    by (simp add: spsc_inv_def ring_cap_def)
qed

lemma demo_reach:
  "spsc_reach demo_ring (spsc_start demo_ring
     \<lparr>sy_prod := P_idle,
      sy_ring := demo_ring\<lparr>rg_buf := Some [demo_point 7, telemetry_zero, telemetry_zero], rg_head := 1\<rparr>,
      sy_accepted := [demo_point 7]\<rparr>)"
proof -
  let ?s0 = "spsc_start demo_ring"
  let ?s1 = "?s0\<lparr>sy_prod := P_head (demo_point 7) 0\<rparr>"
  let ?s2 = "?s0\<lparr>sy_prod := P_both (demo_point 7) 0 0\<rparr>"
  let ?r3 = "demo_ring\<lparr>rg_buf := Some [demo_point 7, telemetry_zero, telemetry_zero]\<rparr>"
  let ?s3 = "?s0\<lparr>sy_prod := P_written (demo_point 7) 0, sy_ring := ?r3\<rparr>"
  have "spsc_reach demo_ring ?s1"
    using spsc_reach.step [OF spsc_reach.start spsc_step.p_load_head [of ?s0 "demo_point 7"]]
    by (simp add: spsc_start_def demo_ring_def)
  then have "spsc_reach demo_ring ?s2"
    using spsc_reach.step [OF _ spsc_step.p_load_tail [of ?s1 "demo_point 7" 0]]
    by (simp add: spsc_start_def demo_ring_def)
  then have "spsc_reach demo_ring ?s3"
    using spsc_reach.step [OF _ spsc_step.p_write [of ?s2 "demo_point 7" 0 0]]
    by (simp add: spsc_start_def demo_ring_def word_unat_eq_iff unat_mod)
  then show ?thesis
    using spsc_reach.step [OF _ spsc_step.p_publish [of ?s3 "demo_point 7" 0]]
    by (simp add: spsc_start_def demo_ring_def)
qed

lemma demo_both_ready:
  defines "r \<equiv> demo_ring\<lparr>rg_buf := Some [demo_point 7, telemetry_zero, telemetry_zero], rg_head := 1\<rparr>"
  shows "spsc_reach demo_ring (spsc_start demo_ring
     \<lparr>sy_prod := P_both (demo_point 8) 1 0, sy_cons := C_both 0 1, sy_ring := r,
      sy_accepted := [demo_point 7]\<rparr>)"
proof -
  let ?s = "spsc_start demo_ring\<lparr>sy_prod := P_idle, sy_ring := r, sy_accepted := [demo_point 7]\<rparr>"
  let ?s1 = "?s\<lparr>sy_prod := P_head (demo_point 8) 1\<rparr>"
  let ?s2 = "?s\<lparr>sy_prod := P_both (demo_point 8) 1 0\<rparr>"
  let ?s3 = "?s2\<lparr>sy_cons := C_tail 0\<rparr>"
  have "spsc_reach demo_ring ?s" using demo_reach by (simp add: r_def)
  then have "spsc_reach demo_ring ?s1"
    using spsc_reach.step [OF _ spsc_step.p_load_head [of ?s "demo_point 8"]]
    by (simp add: r_def)
  then have "spsc_reach demo_ring ?s2"
    using spsc_reach.step [OF _ spsc_step.p_load_tail [of ?s1 "demo_point 8" 1]]
    by (simp add: r_def demo_ring_def)
  then have "spsc_reach demo_ring ?s3"
    using spsc_reach.step [OF _ spsc_step.c_load_tail [of ?s2]]
    by (simp add: r_def demo_ring_def spsc_start_def)
  then show ?thesis
    using spsc_reach.step [OF _ spsc_step.c_load_head [of ?s3 0]]
    by (simp add: r_def demo_ring_def spsc_start_def)
qed

theorem spsc_concurrent_fifo_witness:
  "spsc_ring_init True (Some demo_ring) 3 = (0, Some demo_ring) \<and>
   [demo_point 7] = [] @ ring_items
     (demo_ring\<lparr>rg_buf := Some [demo_point 7, telemetry_zero, telemetry_zero], rg_head := 1\<rparr>) \<and>
   ring_next demo_ring 1 \<noteq> 0 \<and> unat (1 :: u32) \<noteq> unat (0 :: u32)"
proof -
  have ne: "ring_next demo_ring 1 \<noteq> 0"
    by (simp add: demo_ring_def word_unat_eq_iff unat_mod)
  with demo_ring_init spsc_concurrent_fifo [OF demo_ring_init demo_both_ready] show ?thesis
    by (simp add: spsc_start_def)
qed

end
