(* ===== verification/Modbus_Crc.thy ===== *)
theory Modbus_Crc
  imports Edge_Prelude
begin

unbundle bit_operations_syntax

text \<open>
  The Modbus RTU checksum of \<^verbatim>\<open>src/src/ingress/modbus_rtu.c\<close>: the bit-by-bit reflected
  CRC-16 with polynomial \<open>0xA001\<close> and start value \<open>0xFFFF\<close>, kept at its width. One step
  of the register is linear over exclusive-or and injective (the bit shifted out reappears as
  bit 15); from these two facts follow that a frame with its checksum appended low byte first
  leaves the register at zero, that the comparison in \<^verbatim>\<open>modbus_serial_exchange\<close> is
  equivalent to that zero residue, and that every error confined to two neighbouring bytes
  is detected.
\<close>

definition crc_bit :: "u16 \<Rightarrow> u16" where
  "crc_bit crc = (if crc AND 1 \<noteq> 0 then drop_bit 1 crc XOR 0xA001 else drop_bit 1 crc)"

definition crc_byte :: "u16 \<Rightarrow> u8 \<Rightarrow> u16" where
  "crc_byte crc b = (crc_bit ^^ 8) (crc XOR ucast b)"

definition modbus_crc16 :: "u8 list \<Rightarrow> nat \<Rightarrow> u16" where
  "modbus_crc16 buf len = foldl crc_byte 0xFFFF (take len buf)"

text \<open>The two checksum bytes in the order they travel: \<^verbatim>\<open>crc & 0xFF\<close>, \<^verbatim>\<open>crc >> 8\<close>.\<close>

definition crc_lo :: "u16 \<Rightarrow> u8" where
  "crc_lo crc = ucast (crc AND 0xFF)"

definition crc_hi :: "u16 \<Rightarrow> u8" where
  "crc_hi crc = ucast (drop_bit 8 crc)"

definition crc_join :: "u8 \<Rightarrow> u8 \<Rightarrow> u16" where
  "crc_join lo hi = ucast lo OR push_bit 8 (ucast hi)"

subsection \<open>Bits of 8- and 16-bit words\<close>

lemma u16_bitD: "bit (c :: u16) n \<Longrightarrow> n < 16"
  using bit_imp_le_length [of c n] by simp

lemma u8_bitD: "bit (c :: u8) n \<Longrightarrow> n < 8"
  using bit_imp_le_length [of c n] by simp

lemma bit_ucast_8_16: "bit (ucast (b :: u8) :: u16) n \<longleftrightarrow> bit b n"
  by (auto simp: bit_ucast_iff dest: u8_bitD)

lemma bit_ucast_16_8: "bit (ucast (w :: u16) :: u8) n \<longleftrightarrow> n < 8 \<and> bit w n"
  by (auto simp: bit_ucast_iff dest: u16_bitD)

lemma bit_255: "bit (0xFF :: u16) n \<longleftrightarrow> n < 8"
proof -
  have "(0xFF :: u16) = mask 8" by (simp add: mask_eq_exp_minus_1)
  then show ?thesis by (simp only: bit_mask_iff) auto
qed

lemma bit_push_8: "bit (push_bit 8 (w :: u16)) n \<longleftrightarrow> 8 \<le> n \<and> n < 16 \<and> bit w (n - 8)"
  by (auto simp: bit_push_bit_iff dest: u16_bitD)

lemmas word_bits = bit_ucast_8_16 bit_ucast_16_8 bit_255 bit_push_8 bit_xor_iff bit_or_iff
  bit_and_iff bit_drop_bit_eq

lemma xor_right_cancel: "a XOR u = b XOR u \<Longrightarrow> a = (b :: u16)"
proof (rule bit_eqI)
  fix n
  assume "a XOR u = b XOR u"
  then have "bit (a XOR u) n = bit (b XOR u) n" by simp
  then show "bit a n = bit b n" by (auto simp: bit_xor_iff)
qed

lemma xor_move: "a XOR u = b XOR v \<Longrightarrow> a XOR b = u XOR (v :: u16)"
proof (rule bit_eqI)
  fix n
  assume "a XOR u = b XOR v"
  then have "bit (a XOR u) n = bit (b XOR v) n" by simp
  then show "bit (a XOR b) n = bit (u XOR v) n" by (auto simp: bit_xor_iff)
qed

lemma xor_common: "(c XOR x) XOR (c XOR y) = x XOR (y :: u16)"
  by (rule bit_eqI) (auto simp: bit_xor_iff)

subsection \<open>One register step\<close>

lemma and_1_bit: "(c :: u16) AND 1 \<noteq> 0 \<longleftrightarrow> bit c 0"
  by (simp add: and_one_eq odd_iff_mod_2_eq_one bit_0)

lemma bit_A001_15: "bit (0xA001 :: u16) 15"
  by simp

lemma crc_bit_15: "bit (crc_bit c) 15 \<longleftrightarrow> bit c 0"
  by (auto simp: crc_bit_def and_1_bit bit_xor_iff bit_drop_bit_eq dest: u16_bitD)

lemma crc_bit_even: "\<not> bit c 0 \<Longrightarrow> crc_bit c = drop_bit 1 c"
  by (simp add: crc_bit_def and_1_bit)

lemma crc_bit_odd: "bit c 0 \<Longrightarrow> crc_bit c = drop_bit 1 c XOR 0xA001"
  by (simp add: crc_bit_def and_1_bit)

lemma word_eq_drop_bit_1:
  fixes a b :: u16
  assumes "bit a 0 \<longleftrightarrow> bit b 0" and "drop_bit 1 a = drop_bit 1 b"
  shows "a = b"
proof (rule bit_eqI)
  fix n
  show "bit a n \<longleftrightarrow> bit b n"
  proof (cases n)
    case 0
    with assms(1) show ?thesis by simp
  next
    case (Suc m)
    from assms(2) have "bit (drop_bit 1 a) m = bit (drop_bit 1 b) m" by simp
    with Suc show ?thesis by (simp add: bit_drop_bit_eq)
  qed
qed

lemma crc_bit_inj: "crc_bit a = crc_bit b \<Longrightarrow> a = b"
proof -
  assume eq: "crc_bit a = crc_bit b"
  then have lsb: "bit a 0 \<longleftrightarrow> bit b 0" by (metis crc_bit_15)
  have "drop_bit 1 a = drop_bit 1 b"
  proof (cases "bit a 0")
    case True
    with eq lsb have "(drop_bit 1 a XOR 0xA001) XOR 0xA001 = (drop_bit 1 b XOR 0xA001) XOR 0xA001"
      by (simp add: crc_bit_odd)
    then show ?thesis by (blast dest: xor_right_cancel)
  next
    case False
    with eq lsb show ?thesis by (simp add: crc_bit_even)
  qed
  with lsb show ?thesis by (rule word_eq_drop_bit_1)
qed

lemma crc_bit_xor: "crc_bit (a XOR b) = crc_bit a XOR crc_bit b"
proof -
  have d: "drop_bit 1 (a XOR b) = drop_bit 1 a XOR drop_bit 1 b" by (simp add: drop_bit_xor)
  have l: "bit (a XOR b) 0 \<longleftrightarrow> bit a 0 \<noteq> bit b 0" by (simp add: bit_xor_iff)
  show ?thesis
    by (cases "bit a 0"; cases "bit b 0")
      (simp_all add: crc_bit_odd crc_bit_even l d xor.assoc xor.left_commute xor.commute)
qed

lemma crc_bits_inj: "(crc_bit ^^ k) a = (crc_bit ^^ k) b \<Longrightarrow> a = b"
  by (induction k) (auto dest: crc_bit_inj)

lemma crc_bits_xor: "(crc_bit ^^ k) (a XOR b) = (crc_bit ^^ k) a XOR (crc_bit ^^ k) b"
  by (induction k) (simp_all add: crc_bit_xor)

lemma crc_bits_shift: "(\<And>i. i < k \<Longrightarrow> \<not> bit c i) \<Longrightarrow> (crc_bit ^^ k) c = drop_bit k c"
proof (induction k)
  case 0
  then show ?case by simp
next
  case (Suc k)
  then have "(crc_bit ^^ Suc k) c = crc_bit (drop_bit k c)" by simp
  also have "\<dots> = drop_bit 1 (drop_bit k c)"
    using Suc.prems [of k] by (intro crc_bit_even) (simp add: bit_drop_bit_eq)
  finally show ?case by (simp add: drop_bit_drop_bit)
qed

subsection \<open>Whole frames\<close>

lemma crc_byte_inj_state: "crc_byte a x = crc_byte b x \<Longrightarrow> a = b"
  unfolding crc_byte_def by (blast dest: crc_bits_inj xor_right_cancel)

lemma foldl_crc_inj: "foldl crc_byte a xs = foldl crc_byte b xs \<Longrightarrow> a = b"
  by (induction xs arbitrary: a b) (auto dest: crc_byte_inj_state)

lemma crc_join_bits: "bit (crc_join lo hi) n \<longleftrightarrow> (if n < 8 then bit lo n else bit hi (n - 8))"
  by (auto simp: crc_join_def word_bits dest: u8_bitD)

lemma crc_byte_join_lo: "crc_byte (crc_join lo hi) lo = ucast hi"
proof -
  define c where "c = crc_join lo hi XOR ucast lo"
  have b: "bit c n \<longleftrightarrow> 8 \<le> n \<and> bit hi (n - 8)" for n
    by (auto simp: c_def bit_xor_iff crc_join_bits bit_ucast_8_16 dest: u8_bitD)
  have "(crc_bit ^^ 8) c = drop_bit 8 c" by (rule crc_bits_shift) (simp add: b)
  also have "\<dots> = ucast hi"
    by (rule bit_eqI) (simp add: bit_drop_bit_eq b bit_ucast_8_16)
  finally show ?thesis by (simp add: crc_byte_def c_def)
qed

lemma crc_bits_0 [simp]: "(crc_bit ^^ k) 0 = 0"
  using crc_bits_shift [of k 0] by simp

lemma crc_two_bytes_zero: "crc_byte (crc_byte (crc_join lo hi) lo) hi = 0"
  by (simp add: crc_byte_join_lo) (simp add: crc_byte_def)

lemma crc_residue_iff:
  "foldl crc_byte 0xFFFF (msg @ [lo, hi]) = 0 \<longleftrightarrow> foldl crc_byte 0xFFFF msg = crc_join lo hi"
proof
  assume "foldl crc_byte 0xFFFF (msg @ [lo, hi]) = 0"
  then have "crc_byte (crc_byte (foldl crc_byte 0xFFFF msg) lo) hi =
      crc_byte (crc_byte (crc_join lo hi) lo) hi"
    by (simp add: crc_two_bytes_zero)
  then show "foldl crc_byte 0xFFFF msg = crc_join lo hi" by (blast dest: crc_byte_inj_state)
next
  assume "foldl crc_byte 0xFFFF msg = crc_join lo hi"
  then show "foldl crc_byte 0xFFFF (msg @ [lo, hi]) = 0" by (simp add: crc_two_bytes_zero)
qed

lemma crc_lo_bits: "bit (crc_lo c) n \<longleftrightarrow> n < 8 \<and> bit c n"
  unfolding crc_lo_def by (simp only: bit_ucast_16_8 bit_and_iff bit_255) blast

lemma crc_hi_bits: "bit (crc_hi c) n \<longleftrightarrow> n < 8 \<and> bit c (n + 8)"
  unfolding crc_hi_def by (simp only: bit_ucast_16_8 bit_drop_bit_eq o_def add.commute)

lemma crc_join_lo_hi: "crc_join (crc_lo c) (crc_hi c) = c"
  by (rule bit_eqI) (auto simp: crc_join_bits crc_lo_bits crc_hi_bits dest: u16_bitD)

text \<open>
  C25. Zero residue: appending the checksum low byte first, as \<^verbatim>\<open>modbus_poll_simulate\<close> does
  for its request, makes the checksum of the whole frame zero, and no other pair of trailing
  bytes does.
\<close>

theorem crc_residue_unique:
  "modbus_crc16 (msg @ [lo, hi]) (length msg + 2) = 0 \<longleftrightarrow>
   lo = crc_lo (modbus_crc16 msg (length msg)) \<and> hi = crc_hi (modbus_crc16 msg (length msg))"
proof -
  have j: "crc_lo (crc_join lo hi) = lo \<and> crc_hi (crc_join lo hi) = hi"
    by (auto intro!: bit_eqI simp: crc_lo_bits crc_hi_bits crc_join_bits dest: u8_bitD)
  have "modbus_crc16 (msg @ [lo, hi]) (length msg + 2) = 0 \<longleftrightarrow>
      modbus_crc16 msg (length msg) = crc_join lo hi"
    using crc_residue_iff [of msg lo hi] by (simp add: modbus_crc16_def)
  also have "\<dots> \<longleftrightarrow> lo = crc_lo (modbus_crc16 msg (length msg)) \<and>
      hi = crc_hi (modbus_crc16 msg (length msg))"
    using j crc_join_lo_hi [of "modbus_crc16 msg (length msg)"] by auto
  finally show ?thesis .
qed

lemma ucast_8_16_xor_eq_0:
  assumes "(ucast a :: u16) XOR ucast b = 0"
  shows "a = (b :: u8)"
proof (rule bit_eqI)
  fix n
  from assms have "bit ((ucast a :: u16) XOR ucast b) n = bit (0 :: u16) n" by simp
  then show "bit a n = bit b n" by (auto simp: word_bits)
qed

text \<open>A byte pushed above the register's low half comes back after eight steps.\<close>

lemma crc_bits_push:
  assumes "\<And>n. 8 \<le> n \<Longrightarrow> \<not> bit e n"
  shows "(crc_bit ^^ 8) (push_bit 8 e) = e"
proof -
  have "(crc_bit ^^ 8) (push_bit 8 e) = drop_bit 8 (push_bit 8 e)"
    by (rule crc_bits_shift) (simp add: bit_push_8)
  also have "\<dots> = e"
  proof (rule bit_eqI)
    fix n
    show "bit (drop_bit 8 (push_bit 8 e)) n = bit e n"
      using assms [of n] by (cases "n < 8") (auto simp: bit_drop_bit_eq bit_push_8)
  qed
  finally show ?thesis .
qed

lemma two_byte_step_inj:
  assumes "crc_byte (crc_byte c x1) x2 = crc_byte (crc_byte c y1) y2"
  shows "x1 = y1 \<and> x2 = y2"
proof -
  define d e :: u16 where "d = ucast x1 XOR ucast y1" and "e = ucast x2 XOR ucast y2"
  have d8: "8 \<le> n \<Longrightarrow> \<not> bit d n" and e8: "8 \<le> n \<Longrightarrow> \<not> bit e n" for n
    by (auto simp: d_def e_def word_bits dest: u8_bitD)
  from assms have "(crc_bit ^^ 8) (c XOR ucast x1) XOR ucast x2 = (crc_bit ^^ 8) (c XOR ucast y1) XOR ucast y2"
    unfolding crc_byte_def by (rule crc_bits_inj)
  then have "(crc_bit ^^ 8) (c XOR ucast x1) XOR (crc_bit ^^ 8) (c XOR ucast y1) = e"
    unfolding e_def by (rule xor_move)
  then have "(crc_bit ^^ 8) d = e" by (simp only: crc_bits_xor [symmetric] xor_common d_def)
  also have "e = (crc_bit ^^ 8) (push_bit 8 e)" by (rule crc_bits_push [OF e8, symmetric])
  finally have de: "d = push_bit 8 e" by (rule crc_bits_inj)
  have "e = 0"
  proof (rule bit_eqI)
    fix n
    show "bit e n = bit 0 n"
    proof (cases "n < 8")
      case True
      have "bit d (n + 8) = bit (push_bit 8 e) (n + 8)" using de by simp
      with True d8 [of "n + 8"] show ?thesis by (simp add: bit_push_8)
    next
      case False
      with e8 [of n] show ?thesis by simp
    qed
  qed
  with de have "d = 0" by simp
  with \<open>e = 0\<close> show ?thesis unfolding d_def e_def by (blast dest: ucast_8_16_xor_eq_0)
qed

text \<open>
  C24. Burst errors: two frames of equal length that differ only within two neighbouring bytes
  (in particular in a single bit or a single byte) have different checksums.
\<close>

theorem crc_detects_burst:
  assumes "(x1, x2) \<noteq> (y1, y2)"
  shows "modbus_crc16 (pre @ [x1, x2] @ post) (length pre + 2 + length post) \<noteq>
    modbus_crc16 (pre @ [y1, y2] @ post) (length pre + 2 + length post)"
proof
  assume "modbus_crc16 (pre @ [x1, x2] @ post) (length pre + 2 + length post) =
    modbus_crc16 (pre @ [y1, y2] @ post) (length pre + 2 + length post)"
  then have "foldl crc_byte (crc_byte (crc_byte (foldl crc_byte 0xFFFF pre) x1) x2) post =
      foldl crc_byte (crc_byte (crc_byte (foldl crc_byte 0xFFFF pre) y1) y2) post"
    by (simp add: modbus_crc16_def)
  then show False using assms two_byte_step_inj by (blast dest: foldl_crc_inj)
qed

theorem crc_detects_burst_witness:
  "((0x03 :: u8), (0x00 :: u8)) \<noteq> (0x03, 0x01) \<and>
   modbus_crc16 ([0x01] @ [0x03, 0x00] @ [0x00, 0x00, 0x03]) (length [0x01 :: u8] + 2 + length [0x00 :: u8, 0x00, 0x03]) \<noteq>
   modbus_crc16 ([0x01] @ [0x03, 0x01] @ [0x00, 0x00, 0x03]) (length [0x01 :: u8] + 2 + length [0x00 :: u8, 0x00, 0x03])"
proof -
  have h: "((0x03 :: u8), (0x00 :: u8)) \<noteq> (0x03, 0x01)" by simp
  with crc_detects_burst [OF h, of "[0x01]" "[0x00, 0x00, 0x03]"] show ?thesis by blast
qed

end
