(* ===== verification/Environment.thy ===== *)
theory Environment
  imports IEEE_Double "HOL-Library.Monad_Syntax"
begin

text \<open>
  Everything outside the repository that the program calls: the operating system, the C
  library's files, libmodbus and SQLite. None of it is given a definition. The record
  \<open>env\<close> is an argument of every operation that leaves the program, and holds the answers as
  arbitrary functions of the number of calls made so far, so that a theorem about an
  operation holds for every behaviour of its surroundings, or names the documented
  behaviour it relies on as a hypothesis.

  \<^item> \<open>env_ret\<close>, \<open>env_errno\<close>, \<open>env_strerror\<close>, \<open>env_data\<close>: what the n-th call returns, the
    error it sets, the text of that error and the bytes or registers it delivers; \<open>env_clock\<close>: what the n-th reading of the
    monotonic clock gives.
  \<^item> \<open>env_calls\<close>: the calls made, each with the value it returned, in order.
  \<^item> \<open>env_files\<close>: the text of each file the program writes; \<open>env_log_fp\<close> is the logger's
    handle and \<open>env_stderr\<close> the text on the error stream.
  \<^item> \<open>env_sqlite\<close>, \<open>env_db\<close>: the SQLite library and its database.
\<close>

unbundle bit_operations_syntax

type_synonym bytes = "u8 list"

definition bytes_of :: "string \<Rightarrow> bytes" where
  "bytes_of s = map (\<lambda>c. of_nat (of_char c)) s"

datatype errno_t = ERRNO_NONE | EINTR | EAGAIN | EOTHER

text \<open>The terminal settings the serial port code chooses.\<close>

datatype speed_t = B9600 | B19200 | B38400 | B115200

record termios =
  tio_raw :: bool
  tio_ispeed :: speed_t
  tio_ospeed :: speed_t
  tio_clocal :: bool
  tio_cread :: bool
  tio_parenb :: bool
  tio_cstopb :: bool
  tio_cs8 :: bool
  tio_vmin :: nat
  tio_vtime :: nat

text \<open>The calls, with the arguments a property may depend on.\<close>

datatype call =
    C_clock_gettime
  | C_nanosleep nat nat
  | C_mkdir string
  | C_fopen string string
  | C_socket string
  | C_inet_pton string
  | C_connect int string
  | C_open string
  | C_tcgetattr int
  | C_tcsetattr int termios
  | C_select int nat nat
  | C_write int bytes
  | C_read int nat
  | C_close int
  | C_calloc
  | C_epoll_create1
  | C_timerfd_create
  | C_epoll_ctl int int
  | C_timerfd_settime int nat nat
  | C_epoll_wait int int
  | C_pthread_create string
  | C_pthread_join string
  | C_modbus_new_tcp string int
  | C_modbus_new_rtu string int char int int
  | C_modbus_set_slave int int
  | C_modbus_set_response_timeout int int int
  | C_modbus_connect int
  | C_modbus_read_registers int int int
  | C_modbus_close int
  | C_modbus_free int

datatype sql_value = SQL_INT int | SQL_TEXT string | SQL_REAL double | SQL_NULL

text \<open>
  The SQLite library over an opaque database: \<open>sq_prepare\<close> answers whether a statement
  compiles, \<open>sq_step\<close> runs a compiled data-changing statement with its bound values and
  answers whether the step gave \<^verbatim>\<open>SQLITE_DONE\<close>, \<open>sq_rows\<close> gives the rows a compiled query
  delivers by successive \<^verbatim>\<open>SQLITE_ROW\<close> steps, and the column functions convert a value
  of a row (a NULL text is \<open>None\<close>).
\<close>

record 'd sqlite_api =
  sq_open :: "'d \<Rightarrow> string \<Rightarrow> bool \<times> 'd"
  sq_exec :: "'d \<Rightarrow> string \<Rightarrow> bool \<times> 'd"
  sq_prepare :: "'d \<Rightarrow> string \<Rightarrow> bool \<times> 'd"
  sq_step :: "'d \<Rightarrow> string \<Rightarrow> sql_value list \<Rightarrow> bool \<times> 'd"
  sq_rows :: "'d \<Rightarrow> string \<Rightarrow> sql_value list \<Rightarrow> sql_value list list \<times> 'd"
  sq_column_int64 :: "sql_value \<Rightarrow> int"
  sq_column_text :: "sql_value \<Rightarrow> string option"
  sq_column_double :: "sql_value \<Rightarrow> double"
  sq_last_insert_rowid :: "'d \<Rightarrow> int"
  sq_close :: "'d \<Rightarrow> 'd"

record 'd env =
  env_n :: nat
  env_ret :: "nat \<Rightarrow> int"
  env_errno :: "nat \<Rightarrow> errno_t"
  env_data :: "nat \<Rightarrow> nat list"
  env_strerror :: "nat \<Rightarrow> string"
  env_clock :: "nat \<Rightarrow> (int \<times> int) option"
  env_getenv :: "string \<Rightarrow> string option"
  env_calls :: "(call \<times> int) list"
  env_files :: "string \<Rightarrow> string"
  env_log_fp :: "string option"
  env_stderr :: string
  env_sqlite :: "'d sqlite_api"
  env_db :: 'd

text \<open>One call that returns an integer.\<close>

definition syscall :: "call \<Rightarrow> 'd env \<Rightarrow> int \<times> 'd env" where
  "syscall c w =
     (env_ret w (env_n w),
      w\<lparr>env_n := Suc (env_n w), env_calls := env_calls w @ [(c, env_ret w (env_n w))]\<rparr>)"

definition append_file :: "string \<Rightarrow> string \<Rightarrow> 'd env \<Rightarrow> 'd env" where
  "append_file path text w = w\<lparr>env_files := (env_files w)(path := env_files w path @ text)\<rparr>"

definition truncate_file :: "string \<Rightarrow> 'd env \<Rightarrow> 'd env" where
  "truncate_file path w = w\<lparr>env_files := (env_files w)(path := [])\<rparr>"

subsection \<open>What the calls leave alone\<close>

definition same_world :: "'d env \<Rightarrow> 'd env \<Rightarrow> bool" where
  "same_world w w' \<longleftrightarrow>
     env_ret w' = env_ret w \<and> env_errno w' = env_errno w \<and> env_data w' = env_data w \<and>
     env_strerror w' = env_strerror w \<and>
     env_clock w' = env_clock w \<and> env_getenv w' = env_getenv w \<and> env_sqlite w' = env_sqlite w \<and>
     env_n w \<le> env_n w' \<and> (\<exists>cs. env_calls w' = env_calls w @ cs)"

lemma same_world_refl [simp, intro]: "same_world w w"
  by (simp add: same_world_def)

lemma same_world_trans [trans]: "same_world a b \<Longrightarrow> same_world b c \<Longrightarrow> same_world a c"
  by (fastforce simp: same_world_def)

lemma syscall_fst [simp]: "fst (syscall c w) = env_ret w (env_n w)"
  by (simp add: syscall_def)

lemma syscall_snd [frame_simps]:
  "env_n (snd (syscall c w)) = Suc (env_n w)"
  "env_calls (snd (syscall c w)) = env_calls w @ [(c, env_ret w (env_n w))]"
  "env_ret (snd (syscall c w)) = env_ret w"
  "env_errno (snd (syscall c w)) = env_errno w"
  "env_data (snd (syscall c w)) = env_data w"
  "env_strerror (snd (syscall c w)) = env_strerror w"
  "env_clock (snd (syscall c w)) = env_clock w"
  "env_getenv (snd (syscall c w)) = env_getenv w"
  "env_files (snd (syscall c w)) = env_files w"
  "env_log_fp (snd (syscall c w)) = env_log_fp w"
  "env_stderr (snd (syscall c w)) = env_stderr w"
  "env_sqlite (snd (syscall c w)) = env_sqlite w"
  "env_db (snd (syscall c w)) = env_db w"
  by (simp_all add: syscall_def)

lemma same_world_syscall [simp, intro]: "same_world w (snd (syscall c w))"
  by (simp add: same_world_def frame_simps)

lemma file_frame [frame_simps]:
  "env_n (append_file p t w) = env_n w" "env_n (truncate_file p w) = env_n w"
  "env_calls (append_file p t w) = env_calls w" "env_calls (truncate_file p w) = env_calls w"
  "env_ret (append_file p t w) = env_ret w" "env_ret (truncate_file p w) = env_ret w"
  "env_errno (append_file p t w) = env_errno w" "env_errno (truncate_file p w) = env_errno w"
  "env_data (append_file p t w) = env_data w" "env_data (truncate_file p w) = env_data w"
  "env_strerror (append_file p t w) = env_strerror w" "env_strerror (truncate_file p w) = env_strerror w"
  "env_clock (append_file p t w) = env_clock w" "env_clock (truncate_file p w) = env_clock w"
  "env_getenv (append_file p t w) = env_getenv w" "env_getenv (truncate_file p w) = env_getenv w"
  "env_log_fp (append_file p t w) = env_log_fp w" "env_log_fp (truncate_file p w) = env_log_fp w"
  "env_stderr (append_file p t w) = env_stderr w" "env_stderr (truncate_file p w) = env_stderr w"
  "env_sqlite (append_file p t w) = env_sqlite w" "env_sqlite (truncate_file p w) = env_sqlite w"
  "env_db (append_file p t w) = env_db w" "env_db (truncate_file p w) = env_db w"
  "env_files (append_file p t w) q = (if q = p then env_files w p @ t else env_files w q)"
  "env_files (truncate_file p w) q = (if q = p then [] else env_files w q)"
  by (simp_all add: append_file_def truncate_file_def)

subsection \<open>Descriptors\<close>

text \<open>
  The descriptors a sequence of calls has opened and not closed, each with its multiplicity;
  a descriptor that is closed without being open, or returned while open, is what a leak or
  a double close would leave behind.
\<close>

fun opens :: "call \<Rightarrow> bool" where
  "opens (C_socket _) = True"
| "opens (C_open _) = True"
| "opens C_epoll_create1 = True"
| "opens C_timerfd_create = True"
| "opens _ = False"

fun fd_balance :: "int \<Rightarrow> (call \<times> int) list \<Rightarrow> int" where
  "fd_balance fd [] = 0"
| "fd_balance fd ((c, r) # cs) =
     (if opens c \<and> r = fd \<and> 0 \<le> r then 1 else 0) -
     (if c = C_close fd then 1 else 0) + fd_balance fd cs"

lemma fd_balance_append [simp]: "fd_balance fd (xs @ ys) = fd_balance fd xs + fd_balance fd ys"
  by (induction xs) auto

text \<open>The bytes that went out on a descriptor: of each write, as many as it reported.\<close>

fun sent_on :: "int \<Rightarrow> (call \<times> int) list \<Rightarrow> bytes" where
  "sent_on fd [] = []"
| "sent_on fd ((C_write fd' bs, r) # cs) =
     (if fd' = fd \<and> 0 \<le> r then take (nat r) bs else []) @ sent_on fd cs"
| "sent_on fd (_ # cs) = sent_on fd cs"

lemma sent_on_append [simp]: "sent_on fd (xs @ ys) = sent_on fd xs @ sent_on fd ys"
  by (induction fd xs rule: sent_on.induct) auto

text \<open>What POSIX documents of reads and writes: neither reports more than it was asked for.\<close>

fun posix_call :: "call \<times> int \<Rightarrow> bool" where
  "posix_call (C_write _ bs, r) \<longleftrightarrow> r \<le> int (length bs)"
| "posix_call (C_read _ m, r) \<longleftrightarrow> r \<le> int m"
| "posix_call _ \<longleftrightarrow> True"

definition posix_io :: "(call \<times> int) list \<Rightarrow> bool" where
  "posix_io cs = list_all posix_call cs"

lemma posix_io_append [simp]: "posix_io (xs @ ys) \<longleftrightarrow> posix_io xs \<and> posix_io ys"
  by (simp add: posix_io_def)

lemma posix_io_Nil [simp]: "posix_io []"
  by (simp add: posix_io_def)

lemma posix_io_Cons [simp]: "posix_io (c # cs) \<longleftrightarrow> posix_call c \<and> posix_io cs"
  by (simp add: posix_io_def)

definition data_at :: "nat list \<Rightarrow> nat \<Rightarrow> nat" where
  "data_at xs i = (if i < length xs then xs ! i else 0)"

text \<open>The bytes the next call delivers, when it reports \<open>n\<close> of them.\<close>

definition read_bytes :: "'d env \<Rightarrow> nat \<Rightarrow> bytes" where
  "read_bytes w n = map (\<lambda>i. of_nat (data_at (env_data w (env_n w)) i)) [0..<n]"

lemma length_read_bytes [simp]: "length (read_bytes w n) = n"
  by (simp add: read_bytes_def)

end
