(* ===== verification/Platform.thy ===== *)
theory Platform
  imports Environment
begin

text \<open>
  The platform services under the runtime: the monotonic millisecond clock and the sleep
  loop (\<^verbatim>\<open>src/src/common/time_util.c\<close>), the file logger
  (\<^verbatim>\<open>src/src/platform/logger.c\<close>), the heartbeat registry of the three threads
  (\<^verbatim>\<open>heartbeat.c\<close>), the metrics file (\<^verbatim>\<open>metrics.c\<close>) and the systemd
  notifications (\<^verbatim>\<open>watchdog.c\<close>).

  A logger message is the text after formatting; streams are assumed to accept what is
  written to them. The sleep loop repeats until \<^verbatim>\<open>nanosleep\<close> returns 0, so it is a partial
  function whose value \<open>None\<close> is a loop that never ends.
\<close>

subsection \<open>Clock and sleep\<close>

definition ms_of_timespec :: "int \<Rightarrow> int \<Rightarrow> u64" where
  "ms_of_timespec s ns = word_of_int s * 1000 + word_of_int ns div 1000000"

definition edgeflow_now_ms :: "'d env \<Rightarrow> u64 \<times> 'd env" where
  "edgeflow_now_ms w =
     (case env_clock w (env_n w) of
        None \<Rightarrow> 0
      | Some (s, ns) \<Rightarrow> ms_of_timespec s ns,
      snd (syscall C_clock_gettime w))"

partial_function (option) nanosleep_loop :: "nat \<Rightarrow> nat \<Rightarrow> 'd env \<Rightarrow> 'd env option" where
  "nanosleep_loop s ns w =
     (case syscall (C_nanosleep s ns) w of
        (r, w') \<Rightarrow>
          if r \<noteq> 0 then nanosleep_loop (data_at (env_data w (env_n w)) 0) (data_at (env_data w (env_n w)) 1) w'
          else Some w')"

definition edgeflow_sleep_ms :: "u32 \<Rightarrow> 'd env \<Rightarrow> 'd env option" where
  "edgeflow_sleep_ms ms w = nanosleep_loop (unat (ms div 1000)) (unat (ms mod 1000) * 1000000) w"

subsection \<open>Logger\<close>

fun show_level :: "log_level \<Rightarrow> string" where
  "show_level LOG_INFO = ''INFO''"
| "show_level LOG_WARN = ''WARN''"
| "show_level LOG_ERROR = ''ERROR''"

definition log_vprint :: "log_level \<Rightarrow> string \<Rightarrow> 'd env \<Rightarrow> 'd env" where
  "log_vprint level msg w =
     (let text = ''['' @ show_level level @ ''] '' @ msg @ [CHR 0x0A]
      in case env_log_fp w of
           Some path \<Rightarrow> append_file path text w
         | None \<Rightarrow> w\<lparr>env_stderr := env_stderr w @ text\<rparr>)"

definition log_info :: "string \<Rightarrow> 'd env \<Rightarrow> 'd env" where
  "log_info msg w = log_vprint LOG_INFO msg w"

definition log_warn :: "string \<Rightarrow> 'd env \<Rightarrow> 'd env" where
  "log_warn msg w = log_vprint LOG_WARN msg w"

definition log_error :: "string \<Rightarrow> 'd env \<Rightarrow> 'd env" where
  "log_error msg w = log_vprint LOG_ERROR msg w"

text \<open>A handle is non-NULL when the call returned a non-zero value.\<close>

definition logger_init :: "string option \<Rightarrow> 'd env \<Rightarrow> int \<times> 'd env" where
  "logger_init log_dir w =
     (case log_dir of
        None \<Rightarrow> (- 1, w)
      | Some dir \<Rightarrow>
          if dir = [] then (- 1, w)
          else
            (let w1 = snd (syscall (C_mkdir dir) w);
                 path = snprintf 256 (dir @ ''/edgeflow.log'')
             in case syscall (C_fopen path ''a'') w1 of
                  (r, w2) \<Rightarrow>
                    if r = 0 then (- 1, w2\<lparr>env_log_fp := None\<rparr>)
                    else (0, w2\<lparr>env_log_fp := Some path\<rparr>)))"

definition logger_shutdown :: "'d env \<Rightarrow> 'd env" where
  "logger_shutdown w = (if env_log_fp w \<noteq> None then w\<lparr>env_log_fp := None\<rparr> else w)"

lemma log_frame [frame_simps]:
  "env_n (log_vprint l m w) = env_n w"
  "env_calls (log_vprint l m w) = env_calls w"
  "env_ret (log_vprint l m w) = env_ret w"
  "env_errno (log_vprint l m w) = env_errno w"
  "env_data (log_vprint l m w) = env_data w"
  "env_strerror (log_vprint l m w) = env_strerror w"
  "env_clock (log_vprint l m w) = env_clock w"
  "env_getenv (log_vprint l m w) = env_getenv w"
  "env_log_fp (log_vprint l m w) = env_log_fp w"
  "env_sqlite (log_vprint l m w) = env_sqlite w"
  "env_db (log_vprint l m w) = env_db w"
  by (simp_all add: log_vprint_def Let_def frame_simps split: option.splits)

lemma log_level_frame [frame_simps]:
  "env_n (log_info m w) = env_n w" "env_n (log_warn m w) = env_n w" "env_n (log_error m w) = env_n w"
  "env_calls (log_info m w) = env_calls w" "env_calls (log_warn m w) = env_calls w"
  "env_calls (log_error m w) = env_calls w"
  "env_ret (log_info m w) = env_ret w" "env_ret (log_warn m w) = env_ret w"
  "env_ret (log_error m w) = env_ret w"
  "env_data (log_info m w) = env_data w" "env_data (log_warn m w) = env_data w"
  "env_data (log_error m w) = env_data w"
  "env_strerror (log_info m w) = env_strerror w" "env_strerror (log_warn m w) = env_strerror w"
  "env_strerror (log_error m w) = env_strerror w"
  "env_errno (log_info m w) = env_errno w" "env_errno (log_warn m w) = env_errno w"
  "env_errno (log_error m w) = env_errno w"
  "env_clock (log_info m w) = env_clock w" "env_clock (log_warn m w) = env_clock w"
  "env_clock (log_error m w) = env_clock w"
  "env_getenv (log_info m w) = env_getenv w" "env_getenv (log_warn m w) = env_getenv w"
  "env_getenv (log_error m w) = env_getenv w"
  "env_log_fp (log_info m w) = env_log_fp w" "env_log_fp (log_warn m w) = env_log_fp w"
  "env_log_fp (log_error m w) = env_log_fp w"
  "env_sqlite (log_info m w) = env_sqlite w" "env_sqlite (log_warn m w) = env_sqlite w"
  "env_sqlite (log_error m w) = env_sqlite w"
  "env_db (log_info m w) = env_db w" "env_db (log_warn m w) = env_db w"
  "env_db (log_error m w) = env_db w"
  by (simp_all add: log_info_def log_warn_def log_error_def frame_simps)

lemma same_world_log [simp, intro]:
  "same_world w (log_info m w)" "same_world w (log_warn m w)" "same_world w (log_error m w)"
  by (simp_all add: same_world_def frame_simps)

lemma now_ms_frame [frame_simps]:
  "env_n (snd (edgeflow_now_ms w)) = Suc (env_n w)"
  "env_calls (snd (edgeflow_now_ms w)) = env_calls w @ [(C_clock_gettime, env_ret w (env_n w))]"
  "env_ret (snd (edgeflow_now_ms w)) = env_ret w"
  "env_errno (snd (edgeflow_now_ms w)) = env_errno w"
  "env_data (snd (edgeflow_now_ms w)) = env_data w"
  "env_strerror (snd (edgeflow_now_ms w)) = env_strerror w"
  "env_clock (snd (edgeflow_now_ms w)) = env_clock w"
  "env_getenv (snd (edgeflow_now_ms w)) = env_getenv w"
  "env_files (snd (edgeflow_now_ms w)) = env_files w"
  "env_log_fp (snd (edgeflow_now_ms w)) = env_log_fp w"
  "env_stderr (snd (edgeflow_now_ms w)) = env_stderr w"
  "env_sqlite (snd (edgeflow_now_ms w)) = env_sqlite w"
  "env_db (snd (edgeflow_now_ms w)) = env_db w"
  by (simp_all add: edgeflow_now_ms_def frame_simps)

lemma same_world_now [simp, intro]: "same_world w (snd (edgeflow_now_ms w))"
  by (simp add: same_world_def frame_simps)

subsection \<open>Heartbeats\<close>

datatype heartbeat_thread_t =
    HEARTBEAT_THREAD_INGRESS | HEARTBEAT_THREAD_WORKER | HEARTBEAT_THREAD_MONITOR
  | HEARTBEAT_THREAD_COUNT

fun hb_index :: "heartbeat_thread_t \<Rightarrow> nat" where
  "hb_index HEARTBEAT_THREAD_INGRESS = 0"
| "hb_index HEARTBEAT_THREAD_WORKER = 1"
| "hb_index HEARTBEAT_THREAD_MONITOR = 2"
| "hb_index HEARTBEAT_THREAD_COUNT = 3"

record heartbeat_registry_t =
  hb_last_ms :: "u64 list"

definition heartbeat_registry_init ::
    "heartbeat_registry_t option \<Rightarrow> 'd env \<Rightarrow> heartbeat_registry_t option \<times> 'd env" where
  "heartbeat_registry_init hb w =
     (case hb of
        None \<Rightarrow> (None, w)
      | Some _ \<Rightarrow>
          (case edgeflow_now_ms w of
             (now, w') \<Rightarrow> (Some \<lparr>hb_last_ms = replicate (hb_index HEARTBEAT_THREAD_COUNT) now\<rparr>, w')))"

definition heartbeat_touch ::
    "heartbeat_registry_t option \<Rightarrow> heartbeat_thread_t \<Rightarrow> 'd env \<Rightarrow> heartbeat_registry_t option \<times> 'd env" where
  "heartbeat_touch hb t w =
     (case hb of
        None \<Rightarrow> (None, w)
      | Some h \<Rightarrow>
          if hb_index HEARTBEAT_THREAD_COUNT \<le> hb_index t then (hb, w)
          else (case edgeflow_now_ms w of
                  (now, w') \<Rightarrow> (Some (h\<lparr>hb_last_ms := (hb_last_ms h)[hb_index t := now]\<rparr>), w')))"

definition heartbeat_age_ms ::
    "heartbeat_registry_t option \<Rightarrow> heartbeat_thread_t \<Rightarrow> 'd env \<Rightarrow> u64 \<times> 'd env" where
  "heartbeat_age_ms hb t w =
     (case hb of
        None \<Rightarrow> (- 1, w)
      | Some h \<Rightarrow>
          if hb_index HEARTBEAT_THREAD_COUNT \<le> hb_index t then (- 1, w)
          else (case edgeflow_now_ms w of
                  (now, w') \<Rightarrow>
                    (if hb_last_ms h ! hb_index t \<le> now then now - hb_last_ms h ! hb_index t else 0, w')))"

definition heartbeat_wf :: "heartbeat_registry_t \<Rightarrow> bool" where
  "heartbeat_wf h \<longleftrightarrow> length (hb_last_ms h) = hb_index HEARTBEAT_THREAD_COUNT"

subsection \<open>Metrics\<close>

record gateway_metrics_t =
  gm_ingress_points :: u64
  gm_processed_points :: u64
  gm_mqtt_publish_ok :: u64
  gm_mqtt_publish_fail :: u64
  gm_mqtt_replay_total :: u64
  gm_queue_depth :: u32
  gm_queue_dropped :: u32
  gm_storage_pending_count :: u32
  gm_heartbeat_ingress_age_ms :: u32
  gm_heartbeat_worker_age_ms :: u32
  gm_heartbeat_monitor_age_ms :: u32

definition metrics_zero :: gateway_metrics_t where
  "metrics_zero = \<lparr>gm_ingress_points = 0, gm_processed_points = 0, gm_mqtt_publish_ok = 0,
     gm_mqtt_publish_fail = 0, gm_mqtt_replay_total = 0, gm_queue_depth = 0, gm_queue_dropped = 0,
     gm_storage_pending_count = 0, gm_heartbeat_ingress_age_ms = 0, gm_heartbeat_worker_age_ms = 0,
     gm_heartbeat_monitor_age_ms = 0\<rparr>"

definition metrics_init :: "gateway_metrics_t option \<Rightarrow> gateway_metrics_t option" where
  "metrics_init m = map_option (\<lambda>_. metrics_zero) m"

definition metric_samples :: "gateway_metrics_t \<Rightarrow> (string \<times> nat) list" where
  "metric_samples m =
     [(''edgeflow_ingress_points_total'', unat (gm_ingress_points m)),
      (''edgeflow_processed_points_total'', unat (gm_processed_points m)),
      (''edgeflow_mqtt_publish_ok_total'', unat (gm_mqtt_publish_ok m)),
      (''edgeflow_mqtt_publish_fail_total'', unat (gm_mqtt_publish_fail m)),
      (''edgeflow_mqtt_replay_total'', unat (gm_mqtt_replay_total m)),
      (''edgeflow_queue_depth'', unat (gm_queue_depth m)),
      (''edgeflow_queue_dropped_total'', unat (gm_queue_dropped m)),
      (''edgeflow_storage_pending_count'', unat (gm_storage_pending_count m)),
      (''edgeflow_heartbeat_ingress_age_ms'', unat (gm_heartbeat_ingress_age_ms m)),
      (''edgeflow_heartbeat_worker_age_ms'', unat (gm_heartbeat_worker_age_ms m)),
      (''edgeflow_heartbeat_monitor_age_ms'', unat (gm_heartbeat_monitor_age_ms m))]"

definition metric_line :: "string \<times> nat \<Rightarrow> string" where
  "metric_line s = fst s @ '' '' @ show_nat (snd s) @ [CHR 0x0A]"

definition metrics_help :: string where
  "metrics_help = ''# HELP edgeflow_ingress_points_total Total ingress telemetry points'' @ [CHR 0x0A]"

definition metrics_text :: "gateway_metrics_t \<Rightarrow> string" where
  "metrics_text m = metrics_help @ concat (map metric_line (metric_samples m))"

definition metrics_write_file ::
    "string option \<Rightarrow> gateway_metrics_t option \<Rightarrow> 'd env \<Rightarrow> int \<times> 'd env" where
  "metrics_write_file path metrics w =
     (case (path, metrics) of
        (Some p, Some m) \<Rightarrow>
          (case syscall (C_fopen p ''w'') w of
             (r, w1) \<Rightarrow>
               if r = 0 then (- 1, w1)
               else (0, append_file p (metrics_text m) (truncate_file p w1)))
      | _ \<Rightarrow> (- 1, w))"

subsection \<open>Watchdog\<close>

record watchdog_t =
  wd_notify_fd :: int
  wd_enabled :: bool

definition watchdog_initial :: watchdog_t where
  "watchdog_initial = \<lparr>wd_notify_fd = - 1, wd_enabled = False\<rparr>"

text \<open>\<^verbatim>\<open>sun_path\<close> has 108 bytes.\<close>

definition open_notify_socket :: "watchdog_t \<Rightarrow> 'd env \<Rightarrow> int \<times> watchdog_t \<times> 'd env" where
  "open_notify_socket g w =
     (case env_getenv w ''NOTIFY_SOCKET'' of
        None \<Rightarrow> (- 1, g, w)
      | Some path \<Rightarrow>
          if path = [] then (- 1, g, w)
          else
            (case syscall (C_socket ''AF_UNIX'') w of
               (fd, w1) \<Rightarrow>
                 let g1 = g\<lparr>wd_notify_fd := fd\<rparr>
                 in if fd < 0 then (- 1, g1, w1)
                    else
                      (case syscall (C_connect fd (snprintf 108 path)) w1 of
                         (r, w2) \<Rightarrow>
                           if r \<noteq> 0 then
                             (- 1, g1\<lparr>wd_notify_fd := - 1\<rparr>, snd (syscall (C_close fd) w2))
                           else (0, g1, w2))))"

definition send_notify :: "watchdog_t \<Rightarrow> string option \<Rightarrow> 'd env \<Rightarrow> 'd env" where
  "send_notify g msg w =
     (case msg of
        None \<Rightarrow> w
      | Some m \<Rightarrow>
          if wd_notify_fd g < 0 then w
          else snd (syscall (C_write (wd_notify_fd g) (bytes_of m)) w))"

definition watchdog_init :: "u32 \<Rightarrow> watchdog_t \<Rightarrow> 'd env \<Rightarrow> watchdog_t \<times> 'd env" where
  "watchdog_init interval_ms g w =
     (case open_notify_socket g w of (r, g1, w1) \<Rightarrow> (g1\<lparr>wd_enabled := (r = 0)\<rparr>, w1))"

definition watchdog_notify_ready :: "watchdog_t \<Rightarrow> 'd env \<Rightarrow> 'd env" where
  "watchdog_notify_ready g w =
     (if \<not> wd_enabled g then w else send_notify g (Some (''READY=1'' @ [CHR 0x0A])) w)"

definition watchdog_notify_alive :: "watchdog_t \<Rightarrow> 'd env \<Rightarrow> 'd env" where
  "watchdog_notify_alive g w =
     (if \<not> wd_enabled g then w else send_notify g (Some (''WATCHDOG=1'' @ [CHR 0x0A])) w)"

definition watchdog_shutdown :: "watchdog_t \<Rightarrow> 'd env \<Rightarrow> watchdog_t \<times> 'd env" where
  "watchdog_shutdown g w =
     (let (g1, w1) = (if 0 \<le> wd_notify_fd g
            then (g\<lparr>wd_notify_fd := - 1\<rparr>, snd (syscall (C_close (wd_notify_fd g)) w)) else (g, w))
      in (g1\<lparr>wd_enabled := False\<rparr>, w1))"

definition watchdog_enabled :: "watchdog_t \<Rightarrow> bool" where
  "watchdog_enabled g = wd_enabled g"

subsection \<open>Heartbeat ages\<close>

definition ms_value :: "int \<times> int \<Rightarrow> int" where
  "ms_value ts = fst ts * 1000 + snd ts div 1000000"

definition timespec_ok :: "int \<times> int \<Rightarrow> bool" where
  "timespec_ok ts \<longleftrightarrow> 0 \<le> fst ts \<and> 0 \<le> snd ts \<and> snd ts < 1000000000 \<and> ms_value ts < 2 ^ 64"

lemma uint_ms_of_timespec:
  assumes "timespec_ok (s, ns)"
  shows "uint (ms_of_timespec s ns) = ms_value (s, ns)"
proof -
  have ns: "uint (word_of_int ns div 1000000 :: u64) = ns div 1000000"
    using assms by (simp add: timespec_ok_def uint_div uint_word_of_int_eq take_bit_int_eq_self)
  have ms: "ms_of_timespec s ns = word_of_int (s * 1000 + ns div 1000000)"
    using arg_cong [OF ns, of "word_of_int :: int \<Rightarrow> u64"] by (simp add: ms_of_timespec_def)
  have "0 \<le> s * 1000 + ns div 1000000"
    using assms by (simp add: timespec_ok_def pos_imp_zdiv_nonneg_iff)
  then show ?thesis
    unfolding ms uint_word_of_int_eq using assms
    by (simp add: timespec_ok_def ms_value_def take_bit_int_eq_self del: of_int_add of_int_mult)
qed

lemma now_ms_value:
  assumes "env_clock w (env_n w) = Some ts" and "timespec_ok ts"
  shows "uint (fst (edgeflow_now_ms w)) = ms_value ts"
  using assms by (cases ts) (simp add: edgeflow_now_ms_def uint_ms_of_timespec)

lemma heartbeat_wf_ops [simp]:
  "heartbeat_wf h \<Longrightarrow> fst (heartbeat_touch (Some h) t w) = Some h' \<Longrightarrow> heartbeat_wf h'"
  "fst (heartbeat_registry_init (Some h) w) = Some h' \<Longrightarrow> heartbeat_wf h'"
  by (auto simp: heartbeat_wf_def heartbeat_touch_def heartbeat_registry_init_def split: if_splits prod.splits)

lemma heartbeat_touch_fst:
  "hb_index t < 3 \<Longrightarrow> fst (heartbeat_touch (Some h) t w) =
     Some (h\<lparr>hb_last_ms := (hb_last_ms h)[hb_index t := fst (edgeflow_now_ms w)]\<rparr>)"
  by (simp add: heartbeat_touch_def split: prod.split)

lemma heartbeat_age_fst:
  "hb_index t < 3 \<Longrightarrow> fst (heartbeat_age_ms (Some h) t w) =
     (if hb_last_ms h ! hb_index t \<le> fst (edgeflow_now_ms w)
      then fst (edgeflow_now_ms w) - hb_last_ms h ! hb_index t else 0)"
  by (simp add: heartbeat_age_ms_def split: prod.split)

lemma uint_monus:
  fixes a b :: u64
  shows "int (unat (if b \<le> a then a - b else 0)) = max 0 (uint a - uint b)"
proof (cases "b \<le> a")
  case True
  then have "unat b \<le> unat a" by (simp add: word_le_nat_alt)
  then have "int (unat (a - b)) = int (unat a) - int (unat b)"
    using unat_sub [OF True] by (simp add: of_nat_diff)
  with True \<open>unat b \<le> unat a\<close> show ?thesis by (simp add: word_le_def)
next
  case False
  then show ?thesis by (simp add: word_le_def)
qed

lemma hb_index_inject: "hb_index t = hb_index t' \<longleftrightarrow> t = t'"
  by (cases t; cases t') auto

text \<open>
  The age of a heartbeat is the time since the thread last touched it: after a touch at
  one reading of the monotonic clock, the age read at a later reading is the difference of the
  two in milliseconds, and 0 should the later reading be smaller; the ages of the other
  threads are those of the registry before the touch.
\<close>

theorem heartbeat_age_elapsed:
  assumes "heartbeat_wf h" and "t \<noteq> HEARTBEAT_THREAD_COUNT"
    and "env_clock w (env_n w) = Some ts" "timespec_ok ts"
    and "env_clock w' (env_n w') = Some ts'" "timespec_ok ts'"
  shows "int (unat (fst (heartbeat_age_ms (fst (heartbeat_touch (Some h) t w)) t w'))) =
      max 0 (ms_value ts' - ms_value ts) \<and>
    (\<forall>u. u \<noteq> t \<longrightarrow> heartbeat_age_ms (fst (heartbeat_touch (Some h) t w)) u w' = heartbeat_age_ms (Some h) u w')"
proof -
  have t3: "hb_index t < 3" using assms(2) by (cases t) auto
  have "heartbeat_age_ms (fst (heartbeat_touch (Some h) t w)) u w' = heartbeat_age_ms (Some h) u w'"
    if "u \<noteq> t" for u
    using that t3 by (simp add: heartbeat_touch_fst heartbeat_age_ms_def hb_index_inject nth_list_update_neq cong: if_cong)
  moreover have "int (unat (fst (heartbeat_age_ms (fst (heartbeat_touch (Some h) t w)) t w'))) =
      max 0 (ms_value ts' - ms_value ts)"
    using t3 assms(1) now_ms_value [OF assms(3,4)] now_ms_value [OF assms(5,6)]
      uint_monus [of "fst (edgeflow_now_ms w)" "fst (edgeflow_now_ms w')"]
    by (simp add: heartbeat_touch_fst heartbeat_age_fst heartbeat_wf_def split: if_splits)
  ultimately show ?thesis by blast
qed

definition demo_env :: "(nat \<Rightarrow> int) \<Rightarrow> unit env" where
  "demo_env ret = \<lparr>env_n = 0, env_ret = ret, env_errno = (\<lambda>_. ERRNO_NONE), env_data = (\<lambda>_. []),
     env_strerror = (\<lambda>_. ''error''),
     env_clock = (\<lambda>n. Some (int n, 0)), env_getenv = (\<lambda>_. Some ''/run/notify''), env_calls = [],
     env_files = (\<lambda>_. []), env_log_fp = None, env_stderr = [],
     env_sqlite = \<lparr>sq_open = (\<lambda>d _. (False, d)), sq_exec = (\<lambda>d _. (False, d)),
       sq_prepare = (\<lambda>d _. (False, d)), sq_step = (\<lambda>d _ _. (False, d)), sq_rows = (\<lambda>d _ _. ([], d)),
       sq_column_int64 = (\<lambda>_. 0), sq_column_text = (\<lambda>_. None), sq_column_double = (\<lambda>_. Fin 0),
       sq_last_insert_rowid = (\<lambda>_. 0), sq_close = (\<lambda>d. d)\<rparr>, env_db = ()\<rparr>"

subsection \<open>Sleeping\<close>

lemma nanosleep_loop_step:
  "nanosleep_loop s ns w =
     (if env_ret w (env_n w) = 0 then Some (snd (syscall (C_nanosleep s ns) w))
      else nanosleep_loop (data_at (env_data w (env_n w)) 0) (data_at (env_data w (env_n w)) 1)
        (snd (syscall (C_nanosleep s ns) w)))"
  by (subst nanosleep_loop.simps) (simp split: prod.split add: syscall_def)

lemma nanosleep_loop_returns:
  "env_ret w (env_n w + k) = 0 \<Longrightarrow> \<exists>w'. nanosleep_loop s ns w = Some w'"
proof (induction k arbitrary: s ns w)
  case 0
  then show ?case by (subst nanosleep_loop_step) simp
next
  case (Suc k)
  have "\<exists>w'. nanosleep_loop a b (snd (syscall (C_nanosleep s ns) w)) = Some w'" for a b
    using Suc.IH [of "snd (syscall (C_nanosleep s ns) w)"] Suc.prems by (simp add: frame_simps)
  then show ?case by (subst nanosleep_loop_step) auto
qed

lemma ms_split:
  fixes ms :: u32
  shows "unat (ms mod 1000) < 1000" and "1000 * unat (ms div 1000) + unat (ms mod 1000) = unat ms"
  by (simp_all add: unat_mod unat_div)

definition slept :: "nat \<Rightarrow> nat \<Rightarrow> 'd env \<Rightarrow> 'd env \<Rightarrow> bool" where
  "slept s ns w w' \<longleftrightarrow> same_world w w' \<and>
     (\<exists>k. env_ret w (env_n w + k) = 0) \<and>
     (\<exists>rest. env_calls w' = env_calls w @ (C_nanosleep s ns, env_ret w (env_n w)) # rest)"

lemma slept_step:
  assumes "slept s' ns' (snd (syscall (C_nanosleep s ns) w)) w'"
  shows "slept s ns w w'"
proof -
  have "same_world w w'"
    using assms same_world_trans same_world_syscall unfolding slept_def by blast
  moreover from assms obtain k where "env_ret w (env_n w + Suc k) = 0"
    by (auto simp: slept_def frame_simps)
  then have "\<exists>k. env_ret w (env_n w + k) = 0" by blast
  ultimately show ?thesis using assms by (auto simp: slept_def frame_simps)
qed

lemma nanosleep_loop_Some:
  assumes "nanosleep_loop s ns w = Some w'"
  shows "slept s ns w w'"
proof (rule nanosleep_loop.raw_induct [OF _ assms])
  fix f s ns and w w' :: "'a env"
  assume IH: "\<And>s ns (w :: 'a env) w'. f s ns w = Some w' \<Longrightarrow> slept s ns w w'"
    and body: "(case syscall (C_nanosleep s ns) w of (r, w') \<Rightarrow>
        if r \<noteq> 0 then f (data_at (env_data w (env_n w)) 0) (data_at (env_data w (env_n w)) 1) w'
        else Some w') = Some w'"
  show "slept s ns w w'"
  proof (cases "env_ret w (env_n w) = 0")
    case True
    with body have "w' = snd (syscall (C_nanosleep s ns) w)" by (auto split: prod.splits simp: syscall_def)
    moreover have "\<exists>k. env_ret w (env_n w + k) = 0" using True by (metis add_0_right)
    ultimately show ?thesis by (simp add: slept_def frame_simps)
  next
    case False
    with body show ?thesis
      by (intro slept_step [OF IH]) (auto simp: syscall_def)
  qed
qed

text \<open>
  C35. Sleeping: the call returns exactly when the system at some point lets a
  \<^verbatim>\<open>nanosleep\<close> finish, and its first request is a valid time specification (fewer than
  10^9 nanoseconds) that amounts to the milliseconds asked for, for every 32-bit argument.
\<close>

theorem sleep_returns_iff:
  "((\<exists>w'. edgeflow_sleep_ms ms w = Some w') \<longleftrightarrow> (\<exists>k. env_ret w (env_n w + k) = 0)) \<and>
   (\<forall>w'. edgeflow_sleep_ms ms w = Some w' \<longrightarrow>
      (\<exists>s ns rest. env_calls w' = env_calls w @ (C_nanosleep s ns, env_ret w (env_n w)) # rest \<and>
         ns < 1000000000 \<and> 1000000 * (1000 * s) + ns = 1000000 * unat ms))"
proof -
  have split: "unat (ms mod 1000) * 1000000 < 1000000000"
    "1000000 * (1000 * unat (ms div 1000)) + unat (ms mod 1000) * 1000000 = 1000000 * unat ms"
    using ms_split [of ms] by linarith+
  show ?thesis
    unfolding edgeflow_sleep_ms_def
    using nanosleep_loop_returns split by (auto dest!: nanosleep_loop_Some simp: slept_def)
qed

theorem sleep_returns_iff_witness:
  "\<exists>w'. edgeflow_sleep_ms 1500 (demo_env (\<lambda>n. if n < 2 then - 1 else 0)) = Some w'"
proof -
  have "env_ret (demo_env (\<lambda>n. if n < 2 then - 1 else 0)) (env_n (demo_env (\<lambda>n. if n < 2 then - 1 else 0)) + 2) = 0"
    by (simp add: demo_env_def)
  then show ?thesis
    using sleep_returns_iff [of 1500 "demo_env (\<lambda>n. if n < 2 then - 1 else 0)"] by blast
qed

subsection \<open>Watchdog descriptor\<close>

definition watchdog_wf :: "watchdog_t \<Rightarrow> bool" where
  "watchdog_wf g \<longleftrightarrow> (wd_enabled g \<longrightarrow> 0 \<le> wd_notify_fd g)"

text \<open>One descriptor is held when the handle is not negative.\<close>

definition held :: "int \<Rightarrow> int \<Rightarrow> int" where
  "held handle fd = (if 0 \<le> handle \<and> handle = fd then 1 else 0)"

lemma watchdog_init_balance:
  assumes "watchdog_init i watchdog_initial w = (g, w')"
  shows "fd_balance fd (env_calls w') = fd_balance fd (env_calls w) + held (wd_notify_fd g) fd"
    and "watchdog_wf g"
  using assms
  by (auto simp: watchdog_init_def open_notify_socket_def watchdog_initial_def syscall_def held_def
      watchdog_wf_def Let_def split: option.splits if_splits)

lemma send_notify_balance [simp]:
  "fd_balance fd (env_calls (send_notify g m w)) = fd_balance fd (env_calls w)"
  by (simp add: send_notify_def frame_simps split: option.split)

lemma notify_balance [simp]:
  "fd_balance fd (env_calls (watchdog_notify_ready g w)) = fd_balance fd (env_calls w)"
  "fd_balance fd (env_calls (watchdog_notify_alive g w)) = fd_balance fd (env_calls w)"
  by (simp_all add: watchdog_notify_ready_def watchdog_notify_alive_def)

lemma alive_balance [simp]:
  "fd_balance fd (env_calls ((watchdog_notify_alive g ^^ k) w)) = fd_balance fd (env_calls w)"
  by (induction k) simp_all

lemma watchdog_shutdown_balance:
  "fd_balance fd (env_calls (snd (watchdog_shutdown g w))) =
     fd_balance fd (env_calls w) - held (wd_notify_fd g) fd"
  by (simp add: watchdog_shutdown_def held_def syscall_def)

text \<open>
  The notification socket is not leaked and not closed twice: after opening the watchdog,
  announcing readiness, any number of keep-alives and closing it, every descriptor has the
  balance of opens and closes it had before, whatever the system calls returned, and the
  watchdog is off with no descriptor.
\<close>

theorem watchdog_no_leak:
  "case watchdog_init interval watchdog_initial w of (g, w1) \<Rightarrow>
     case watchdog_shutdown g ((watchdog_notify_alive g ^^ k) (watchdog_notify_ready g w1)) of (g', w2) \<Rightarrow>
       fd_balance fd (env_calls w2) = fd_balance fd (env_calls w) \<and>
       \<not> watchdog_enabled g' \<and> wd_notify_fd g' < 0"
proof -
  obtain g w1 where i: "watchdog_init interval watchdog_initial w = (g, w1)" by (metis prod.exhaust)
  let ?w2 = "(watchdog_notify_alive g ^^ k) (watchdog_notify_ready g w1)"
  obtain g' w2 where s: "watchdog_shutdown g ?w2 = (g', w2)" by (metis prod.exhaust)
  have "fd_balance fd (env_calls w2) = fd_balance fd (env_calls w)"
    using watchdog_shutdown_balance [of fd g ?w2] watchdog_init_balance(1) [OF i, of fd] s by simp
  moreover have "\<not> wd_enabled g' \<and> wd_notify_fd g' < 0"
    using s by (auto simp: watchdog_shutdown_def split: if_splits)
  ultimately show ?thesis using i s by (simp add: watchdog_enabled_def)
qed

end
