(* ===== verification/Modbus_Serial.thy ===== *)
theory Modbus_Serial
  imports Modbus_Crc Platform
begin

text \<open>
  The raw serial transport, \<^verbatim>\<open>src/src/ingress/modbus_serial.{h,c}\<close>: opening a port with
  termios, and one request and reply exchange with the checksum test. The read loop retries
  on \<^verbatim>\<open>EAGAIN\<close> and \<^verbatim>\<open>EINTR\<close>, so it is a partial function. The lemmas show that a reply is
  accepted exactly when it has at least five bytes and a zero residue, and that the loop
  stops with the first chunk that brings five bytes.
\<close>

definition serial_speed :: "int \<Rightarrow> speed_t" where
  "serial_speed baud =
     (if baud = 19200 then B19200 else if baud = 38400 then B38400
      else if baud = 115200 then B115200 else B9600)"

text \<open>Raw mode, receiver on, no parity, one stop bit, eight data bits, no minimum and no timer.\<close>

definition serial_termios :: "speed_t \<Rightarrow> termios" where
  "serial_termios speed = \<lparr>tio_raw = True, tio_ispeed = speed, tio_ospeed = speed, tio_clocal = True,
     tio_cread = True, tio_parenb = False, tio_cstopb = False, tio_cs8 = True, tio_vmin = 0, tio_vtime = 0\<rparr>"

definition modbus_serial_open :: "string option \<Rightarrow> int \<Rightarrow> 'd env \<Rightarrow> int \<times> 'd env" where
  "modbus_serial_open device_path baud w =
     (case device_path of
        None \<Rightarrow> (- 1, w)
      | Some path \<Rightarrow>
          (case syscall (C_open path) w of
             (fd, w1) \<Rightarrow>
               if fd < 0 then (- 1, w1)
               else
                 (case syscall (C_tcgetattr fd) w1 of
                    (r, w2) \<Rightarrow>
                      if r \<noteq> 0 then (- 1, snd (syscall (C_close fd) w2))
                      else
                        (case syscall (C_tcsetattr fd (serial_termios (serial_speed baud))) w2 of
                           (r2, w3) \<Rightarrow>
                             if r2 \<noteq> 0 then (- 1, snd (syscall (C_close fd) w3)) else (fd, w3)))))"

definition modbus_serial_close :: "int \<Rightarrow> 'd env \<Rightarrow> 'd env" where
  "modbus_serial_close fd w = (if 0 \<le> fd then snd (syscall (C_close fd) w) else w)"

text \<open>The loop with the bytes read so far; the result is the return value and the buffer.\<close>

partial_function (option) read_loop :: "int \<Rightarrow> nat \<Rightarrow> u32 \<Rightarrow> bytes \<Rightarrow> 'd env \<Rightarrow> (int \<times> bytes \<times> 'd env) option" where
  "read_loop fd max_len timeout_ms buf w =
     (if max_len \<le> length buf then Some (int (length buf), buf, w)
      else
        (case syscall (C_select fd (unat (timeout_ms div 1000)) (unat (timeout_ms mod 1000) * 1000)) w of
           (r, w1) \<Rightarrow>
             if r \<le> 0 then Some (int (length buf), buf, w1)
             else
               (case syscall (C_read fd (max_len - length buf)) w1 of
                  (n, w2) \<Rightarrow>
                    if n < 0 then
                      (if env_errno w1 (env_n w1) = EAGAIN \<or> env_errno w1 (env_n w1) = EINTR
                       then read_loop fd max_len timeout_ms buf w2
                       else Some (- 1, buf, w2))
                    else if n = 0 then Some (int (length buf), buf, w2)
                    else
                      let buf' = buf @ read_bytes w1 (nat n)
                      in if 5 \<le> length buf' then Some (int (length buf'), buf', w2)
                         else read_loop fd max_len timeout_ms buf' w2)))"

definition read_with_timeout :: "int \<Rightarrow> nat \<Rightarrow> u32 \<Rightarrow> 'd env \<Rightarrow> (int \<times> bytes \<times> 'd env) option" where
  "read_with_timeout fd max_len timeout_ms w = read_loop fd max_len timeout_ms [] w"

text \<open>The response buffer is given by whether it is non-NULL and by its size.\<close>

definition modbus_serial_exchange ::
    "int \<Rightarrow> bytes option \<Rightarrow> bool \<Rightarrow> nat \<Rightarrow> u32 \<Rightarrow> 'd env \<Rightarrow> (int \<times> bytes \<times> 'd env) option" where
  "modbus_serial_exchange fd request response response_max timeout_ms w =
     (case request of
        None \<Rightarrow> Some (- 1, [], w)
      | Some req \<Rightarrow>
          if fd < 0 \<or> length req < 4 \<or> \<not> response \<or> response_max < 5 then Some (- 1, [], w)
          else
            (case syscall (C_write fd req) w of
               (written, w1) \<Rightarrow>
                 if written \<noteq> int (length req) then Some (- 1, [], w1)
                 else map_option
                   (\<lambda>(n, buf, w2).
                      if n < 5 then (- 1, buf, w2)
                      else if modbus_crc16 buf (nat (n - 2)) \<noteq>
                          crc_join (buf ! nat (n - 2)) (buf ! nat (n - 1)) then (- 1, buf, w2)
                      else (n, buf, w2))
                   (read_with_timeout fd response_max timeout_ms w1)))"

subsection \<open>The read loop\<close>

definition read_result :: "int \<Rightarrow> bytes \<Rightarrow> bytes \<Rightarrow> bool" where
  "read_result n old buf \<longleftrightarrow> n = - 1 \<or> n = int (length buf) \<and> length old \<le> length buf"

lemma read_loop_Some:
  assumes "read_loop fd max_len timeout_ms buf w = Some r"
  shows "read_result (fst r) buf (fst (snd r))"
proof (rule read_loop.raw_induct [OF _ assms])
  fix f fd max_len and timeout_ms :: u32 and buf and w :: "'a env" and r
  assume IH: "\<And>fd m t buf (w :: 'a env) r. f fd m t buf w = Some r \<Longrightarrow> read_result (fst r) buf (fst (snd r))"
    and body: "(if max_len \<le> length buf then Some (int (length buf), buf, w)
      else (case syscall (C_select fd (unat (timeout_ms div 1000)) (unat (timeout_ms mod 1000) * 1000)) w of
           (r, w1) \<Rightarrow> if r \<le> 0 then Some (int (length buf), buf, w1)
             else (case syscall (C_read fd (max_len - length buf)) w1 of
                  (n, w2) \<Rightarrow> if n < 0 then
                      (if env_errno w1 (env_n w1) = EAGAIN \<or> env_errno w1 (env_n w1) = EINTR
                       then f fd max_len timeout_ms buf w2 else Some (- 1, buf, w2))
                    else if n = 0 then Some (int (length buf), buf, w2)
                    else let buf' = buf @ read_bytes w1 (nat n)
                      in if 5 \<le> length buf' then Some (int (length buf'), buf', w2)
                         else f fd max_len timeout_ms buf' w2))) = Some r"
  show "read_result (fst r) buf (fst (snd r))"
    using body
    by (auto simp: read_result_def Let_def split: if_splits prod.splits dest!: IH)
qed

lemma nth_last_two:
  assumes "2 \<le> length buf"
  shows "take (length buf - 2) buf @ [buf ! (length buf - 2), buf ! (length buf - 1)] = buf"
proof -
  have "drop (length buf - 2) buf = [buf ! (length buf - 2), buf ! (length buf - 1)]"
    using assms by (simp add: Cons_nth_drop_Suc [symmetric] Suc_diff_Suc numeral_2_eq_2)
  then show ?thesis by (metis append_take_drop_id)
qed

lemma frame_crc_iff:
  assumes "2 \<le> length buf"
  shows "modbus_crc16 buf (length buf - 2) = crc_join (buf ! (length buf - 2)) (buf ! (length buf - 1)) \<longleftrightarrow>
    modbus_crc16 buf (length buf) = 0"
  using crc_residue_iff [of "take (length buf - 2) buf" "buf ! (length buf - 2)" "buf ! (length buf - 1)"]
  unfolding nth_last_two [OF assms] modbus_crc16_def by simp

text \<open>
  Acceptance of replies: when an exchange returns, its value is either -1 or the length
  of the reply it holds; and it is that length exactly when the read loop brought in at
  least five bytes and the checksum over the whole reply, its own two checksum bytes
  included, is zero. Hence no reply with a wrong checksum is ever reported as received.
\<close>

theorem serial_exchange_accepts:
  assumes "0 \<le> fd" "4 \<le> length req" "5 \<le> response_max" "env_ret w (env_n w) = int (length req)"
    and "read_with_timeout fd response_max timeout_ms (snd (syscall (C_write fd req) w)) = Some (n, buf, w')"
  shows "modbus_serial_exchange fd (Some req) True response_max timeout_ms w =
    Some (if 5 \<le> n \<and> modbus_crc16 buf (length buf) = 0 then int (length buf) else - 1, buf, w')"
proof -
  have r: "n = - 1 \<or> n = int (length buf)"
    using read_loop_Some [OF assms(5) [unfolded read_with_timeout_def]] by (simp add: read_result_def)
  show ?thesis
  proof (cases "5 \<le> n")
    case True
    with r have n: "n = int (length buf)" "nat (n - 2) = length buf - 2" "nat (n - 1) = length buf - 1"
      by auto
    then show ?thesis using assms True frame_crc_iff [of buf]
      by (auto simp: modbus_serial_exchange_def syscall_def)
  next
    case False
    then show ?thesis using assms by (auto simp: modbus_serial_exchange_def syscall_def)
  qed
qed

text \<open>A port that answers at once with the bytes of a reply.\<close>

definition serial_env :: "nat list \<Rightarrow> unit env" where
  "serial_env reply = (demo_env (\<lambda>n. if n = 0 then 8 else if n = 1 then 1 else int (length reply)))
     \<lparr>env_data := \<lambda>_. reply\<rparr>"

definition demo_request :: bytes where
  "demo_request = [0x01, 0x03, 0x00, 0x00, 0x00, 0x03, 0x05, 0xCB]"

lemma read_loop_first_chunk:
  assumes "0 < max_len" "0 < env_ret w (env_n w)" "5 \<le> env_ret w (Suc (env_n w))"
  shows "\<exists>w'. read_with_timeout fd max_len timeout_ms w =
    Some (env_ret w (Suc (env_n w)),
      read_bytes (snd (syscall (C_select fd (unat (timeout_ms div 1000)) (unat (timeout_ms mod 1000) * 1000)) w))
        (nat (env_ret w (Suc (env_n w)))), w')"
  using assms unfolding read_with_timeout_def
  by (subst read_loop.simps) (auto simp: syscall_def Let_def)

text \<open>
  C31. The loop does not wait for the rest of a frame: as soon as one chunk brings five bytes
  the reader is done, so the verdict of the exchange depends on that chunk alone. A reply
  that arrives in pieces, the first of at least five bytes, is judged by its beginning,
  whatever follows on the line.
\<close>

theorem serial_stops_at_five_bytes:
  assumes "0 \<le> fd" "4 \<le> length req" "5 \<le> response_max" "env_ret w (env_n w) = int (length req)"
    and "0 < env_ret w (Suc (env_n w))" "5 \<le> env_ret w (Suc (Suc (env_n w)))"
  shows "\<exists>buf w'. modbus_serial_exchange fd (Some req) True response_max timeout_ms w =
      Some (if modbus_crc16 buf (length buf) = 0 then int (length buf) else - 1, buf, w') \<and>
    int (length buf) = env_ret w (Suc (Suc (env_n w)))"
proof -
  let ?w1 = "snd (syscall (C_write fd req) w)"
  obtain buf w' where rd: "read_with_timeout fd response_max timeout_ms ?w1 =
      Some (env_ret w (Suc (Suc (env_n w))), buf, w')"
    and len: "length buf = nat (env_ret w (Suc (Suc (env_n w))))"
    using read_loop_first_chunk [of response_max ?w1 fd timeout_ms] assms by (auto simp: frame_simps)
  show ?thesis
    using serial_exchange_accepts [OF assms(1-4) rd] len assms(6) by auto
qed

theorem serial_stops_at_five_bytes_witness:
  "\<exists>buf w'. modbus_serial_exchange 3 (Some demo_request) True 16 500 (serial_env [1, 3, 6, 3, 32]) =
      Some (if modbus_crc16 buf (length buf) = 0 then int (length buf) else - 1, buf, w') \<and>
    int (length buf) = 5"
  using serial_stops_at_five_bytes [of 3 demo_request 16 "serial_env [1, 3, 6, 3, 32]" 500]
  by (simp add: demo_request_def serial_env_def demo_env_def)

end
