(* ===== verification/Mqtt_Codec.thy ===== *)
theory Mqtt_Codec
  imports Environment
begin

text \<open>
  The MQTT 3.1.1 packets of \<^verbatim>\<open>src/src/egress/mqtt_session.c\<close> as byte lists: the variable-length
  Remaining Length, CONNECT, PUBLISH (QoS 0) and PINGREQ, each with the test against the stack
  buffer it is built in. The decoders are written from the protocol's own description and serve
  as the reference.

  The locale \<open>prefix_codec\<close> is the contract of a self-delimiting code: what was encoded can be
  read off the front of any continuation. Its instances are the Remaining Length and whole
  packets, and its lemma is that a stream of encoded items has only one reading.
\<close>

subsection \<open>Remaining Length\<close>

text \<open>The loop of the source: at most four bytes, low seven bits first, the top bit for more.\<close>

function enc_loop :: "nat \<Rightarrow> nat \<Rightarrow> bytes" where
  "enc_loop i remaining =
     (let byte = of_nat (remaining mod 128) :: u8;
          rest = remaining div 128
      in if 0 < rest
         then (byte OR 0x80) # (if Suc i < 4 then enc_loop (Suc i) rest else [])
         else [byte])"
  by pat_completeness auto
termination by (relation "measure (\<lambda>(i, r). 4 - i)") auto

declare enc_loop.simps [simp del]

definition mqtt_encode_remaining_length :: "nat \<Rightarrow> bytes" where
  "mqtt_encode_remaining_length remaining = enc_loop 0 remaining"

text \<open>Reference decoder: it stops at a byte without the top bit and refuses a fifth byte.\<close>

fun dec_loop :: "nat \<Rightarrow> bytes \<Rightarrow> (nat \<times> bytes) option" where
  "dec_loop i [] = None"
| "dec_loop i (b # bs) =
     (if unat b < 128 then Some (unat b, bs)
      else if Suc i < 4 then
        (case dec_loop (Suc i) bs of None \<Rightarrow> None | Some (v, r) \<Rightarrow> Some (unat b - 128 + 128 * v, r))
      else None)"

definition decode_remaining_length :: "bytes \<Rightarrow> (nat \<times> bytes) option" where
  "decode_remaining_length bs = dec_loop 0 bs"

subsection \<open>Packets\<close>

abbreviation CONNECT_BUF :: nat where "CONNECT_BUF \<equiv> 160"
abbreviation PUBLISH_BUF :: nat where "PUBLISH_BUF \<equiv> 1024"

definition len16 :: "nat \<Rightarrow> bytes" where
  "len16 n = [of_nat (n div 256), of_nat (n mod 256)]"

text \<open>The bytes of a packet, or \<open>None\<close> when it does not fit the buffer.\<close>

definition connect_packet :: "string \<Rightarrow> u16 \<Rightarrow> bytes option" where
  "connect_packet client_id keepalive_sec =
     (let id_len = length client_id;
          remaining = 10 + 2 + id_len;
          len_buf = mqtt_encode_remaining_length remaining
      in if CONNECT_BUF < 1 + length len_buf + remaining then None
         else Some ([0x10] @ len_buf @ [0x00, 0x04] @ bytes_of ''MQTT'' @ [0x04, 0x02] @
                [ucast (drop_bit 8 keepalive_sec), ucast (keepalive_sec AND 0xFF)] @ len16 id_len @
                bytes_of client_id))"

definition publish_packet :: "string \<Rightarrow> string \<Rightarrow> bytes option" where
  "publish_packet topic payload =
     (let topic_len = length topic;
          remaining = 2 + topic_len + length payload;
          len_buf = mqtt_encode_remaining_length remaining
      in if PUBLISH_BUF < 1 + length len_buf + remaining then None
         else Some ([0x30] @ len_buf @ len16 topic_len @ bytes_of topic @ bytes_of payload))"

definition ping_packet :: bytes where
  "ping_packet = [0xC0, 0x00]"

subsection \<open>Reading a packet\<close>

datatype mqtt_packet =
    CONNECT string u16
  | PUBLISH string string
  | PINGREQ

definition string_of :: "bytes \<Rightarrow> string" where
  "string_of bs = map (\<lambda>b. char_of (unat b)) bs"

fun parse_body :: "u8 \<Rightarrow> bytes \<Rightarrow> mqtt_packet option" where
  "parse_body t body =
     (if t = 0xC0 \<and> body = [] then Some PINGREQ
      else if t = 0x30 then
        (case body of
           hi # lo # rest \<Rightarrow>
             let n = 256 * unat hi + unat lo
             in if n \<le> length rest then Some (PUBLISH (string_of (take n rest)) (string_of (drop n rest))) else None
         | _ \<Rightarrow> None)
      else if t = 0x10 \<and> take 8 body = [0x00, 0x04] @ bytes_of ''MQTT'' @ [0x04, 0x02] then
        (case drop 8 body of
           kh # kl # ih # il # rest \<Rightarrow>
             if 256 * unat ih + unat il = length rest
             then Some (CONNECT (string_of rest) (of_nat (256 * unat kh + unat kl))) else None
         | _ \<Rightarrow> None)
      else None)"

definition parse_packet :: "bytes \<Rightarrow> (mqtt_packet \<times> bytes) option" where
  "parse_packet bs =
     (case bs of
        [] \<Rightarrow> None
      | t # rest \<Rightarrow>
          (case decode_remaining_length rest of
             None \<Rightarrow> None
           | Some (n, r) \<Rightarrow>
               if length r < n then None
               else map_option (\<lambda>p. (p, drop n r)) (parse_body t (take n r))))"

fun encode_packet :: "mqtt_packet \<Rightarrow> bytes option" where
  "encode_packet (CONNECT i k) = connect_packet i k"
| "encode_packet (PUBLISH t p) = publish_packet t p"
| "encode_packet PINGREQ = Some ping_packet"

subsection \<open>Self-delimiting codes\<close>

locale prefix_codec =
  fixes enc :: "'a \<Rightarrow> 'b list" and dec :: "'b list \<Rightarrow> ('a \<times> 'b list) option" and ok :: "'a \<Rightarrow> bool"
  assumes dec_enc: "ok x \<Longrightarrow> dec (enc x @ r) = Some (x, r)"
    and enc_not_Nil: "ok x \<Longrightarrow> enc x \<noteq> []"
begin

lemma enc_prefix_free: "ok x \<Longrightarrow> ok y \<Longrightarrow> enc x @ r = enc y @ s \<Longrightarrow> x = y \<and> r = s"
  by (metis dec_enc option.inject prod.inject)

lemma stream_unique:
  "list_all ok xs \<Longrightarrow> list_all ok ys \<Longrightarrow> concat (map enc xs) = concat (map enc ys) \<Longrightarrow> xs = ys"
proof (induction xs arbitrary: ys)
  case Nil
  then show ?case by (cases ys) (auto dest: enc_not_Nil)
next
  case (Cons x xs)
  have x: "ok x" "list_all ok xs" using Cons.prems(1) by simp_all
  obtain y ys' where y: "ys = y # ys'"
    using Cons.prems(3) enc_not_Nil [OF x(1)] by (cases ys) simp_all
  have "ok y" "enc x @ concat (map enc xs) = enc y @ concat (map enc ys')" using Cons.prems(2,3) y by simp_all
  then have "x = y \<and> concat (map enc xs) = concat (map enc ys')" by (rule enc_prefix_free [OF x(1)])
  then show ?case using Cons.IH [OF x(2)] Cons.prems(2) y by simp
qed

end

lemma unat_or_80: "r < 128 \<Longrightarrow> unat ((of_nat r :: u8) OR 0x80) = r + 128"
proof -
  assume r: "r < 128"
  have "(of_nat r :: u8) AND 0x80 = 0"
  proof (rule bit_eqI)
    fix n assume n: "possible_bit TYPE(u8) n"
    have e: "(0x80 :: u8) = 2 ^ 7" by simp
    have "\<not> bit r 7" using r by (simp add: bit_iff_odd)
    then show "bit ((of_nat r :: u8) AND 0x80) n = bit (0 :: u8) n"
      unfolding e bit_and_iff bit_exp_iff by (auto simp: bit_of_nat_iff)
  qed
  then have "(of_nat r :: u8) OR 0x80 = of_nat r + 0x80" by (rule disjunctive_add_eq_or [symmetric])
  also have "\<dots> = of_nat (r + 128)" by simp
  finally show ?thesis using r by (simp add: unat_of_nat del: of_nat_add)
qed

lemma dec_enc_loop:
  "i < 4 \<Longrightarrow> n < 128 ^ (4 - i) \<Longrightarrow> dec_loop i (enc_loop i n @ r) = Some (n, r)"
proof (induction i n rule: enc_loop.induct)
  case (1 i n)
  have u: "unat (of_nat (n mod 128) :: u8) = n mod 128" by (simp add: unat_of_nat)
  show ?case
  proof (cases "0 < n div 128")
    case True
    then have i: "Suc i < 4"
      using "1.prems" by (cases "i = 3") auto
    have "n div 128 < 128 ^ (4 - Suc i)"
    proof -
      have "128 ^ (4 - i) = 128 * (128 :: nat) ^ (4 - Suc i)" using i by (simp flip: power_Suc add: Suc_diff_Suc)
      then show ?thesis using "1.prems"(2) by (simp add: div_less_iff_less_mult mult.commute)
    qed
    then have IH: "dec_loop (Suc i) (enc_loop (Suc i) (n div 128) @ r) = Some (n div 128, r)"
      using "1.IH" [OF refl refl True i] i by simp
    show ?thesis
      using True i IH unat_or_80 [of "n mod 128"]
      by (subst enc_loop.simps) (simp add: Let_def)
  next
    case False
    then have "n < 128" by (simp add: div_eq_0_iff)
    then show ?thesis using u False by (subst enc_loop.simps) (simp add: Let_def)
  qed
qed

lemma length_enc_loop: "i < 4 \<Longrightarrow> 0 < length (enc_loop i n) \<and> i + length (enc_loop i n) \<le> 4"
proof (induction i n rule: enc_loop.induct)
  case (1 i n)
  show ?case
  proof (cases "0 < n div 128 \<and> Suc i < 4")
    case True
    then show ?thesis using "1.IH" [OF refl refl] unfolding enc_loop.simps [of i n] by (auto simp: Let_def)
  next
    case False
    then show ?thesis using "1.prems" unfolding enc_loop.simps [of i n] by (auto simp: Let_def)
  qed
qed

interpretation remaining: prefix_codec mqtt_encode_remaining_length decode_remaining_length "\<lambda>n. n < 128 ^ 4"
proof unfold_locales
  show "decode_remaining_length (mqtt_encode_remaining_length n @ r) = Some (n, r)" if "n < 128 ^ 4" for n r
    using dec_enc_loop [of 0 n r] that by (simp add: decode_remaining_length_def mqtt_encode_remaining_length_def)
  show "mqtt_encode_remaining_length n \<noteq> []" if "n < 128 ^ 4" for n
    using length_enc_loop [of 0 n] by (auto simp: mqtt_encode_remaining_length_def)
qed

text \<open>
  Remaining Length: for every length below 128 ^ 4 = 268435456 the code writes one to four bytes,
  and the reference decoder reads the length back from the front of any byte stream and
  leaves exactly the bytes that follow.
\<close>

lemma remaining_length_roundtrip:
  assumes "n < 268435456"
  shows "decode_remaining_length (mqtt_encode_remaining_length n @ rest) = Some (n, rest) \<and>
    0 < length (mqtt_encode_remaining_length n) \<and> length (mqtt_encode_remaining_length n) \<le> 4"
  using remaining.dec_enc [of n rest] length_enc_loop [of 0 n] assms
  by (simp add: mqtt_encode_remaining_length_def)

subsection \<open>Sizes\<close>

lemma publish_fits: "length topic + length payload \<le> 1017 \<Longrightarrow> \<exists>bs. publish_packet topic payload = Some bs"
  using length_enc_loop [of 0 "2 + length topic + length payload"]
  by (simp add: publish_packet_def Let_def mqtt_encode_remaining_length_def)

lemma connect_fits: "length client_id \<le> 143 \<Longrightarrow> \<exists>bs. connect_packet client_id k = Some bs"
  using length_enc_loop [of 0 "10 + 2 + length client_id"]
  by (simp add: connect_packet_def Let_def mqtt_encode_remaining_length_def)

subsection \<open>Packets read back\<close>

lemma length_bytes_of [simp]: "length (bytes_of s) = length s"
  by (simp add: bytes_of_def)

lemma string_of_bytes_of [simp]: "string_of (bytes_of s) = s"
proof -
  have "char_of (unat (of_nat (of_char c) :: u8)) = c" for c :: char
  proof -
    have "(of_char c :: nat) < 256" by (rule nat_of_char_less_256)
    then show ?thesis by (simp add: unat_of_nat)
  qed
  then show ?thesis by (simp add: string_of_def bytes_of_def o_def del: unat_of_nat)
qed

lemma len16_value: "n < 65536 \<Longrightarrow> 256 * unat (of_nat (n div 256) :: u8) + unat (of_nat (n mod 256) :: u8) = n"
  by (simp add: unat_of_nat)

lemma keepalive_bytes:
  "(of_nat (256 * unat (ucast (drop_bit 8 k) :: u8) + unat (ucast (k AND 0xFF) :: u8)) :: u16) = k"
proof -
  have k: "unat k < 65536" using unsigned_less [of k, where ?'a = nat] by simp
  have "unat (k AND 0xFF) = unat k mod 256"
  proof -
    have "k AND 0xFF = take_bit 8 k" by (simp add: take_bit_eq_mask mask_eq_exp_minus_1)
    then show ?thesis by (simp add: unsigned_take_bit_eq take_bit_eq_mod unat_mod)
  qed
  moreover have "unat (drop_bit 8 k) = unat k div 256" by (simp add: unsigned_drop_bit_eq drop_bit_eq_div take_bit_eq_mod unat_div)
  moreover have "unat (ucast x :: u8) = unat x mod 256" for x :: u16
    by (simp add: unsigned_ucast_eq take_bit_eq_mod)
  ultimately have "256 * unat (ucast (drop_bit 8 k) :: u8) + unat (ucast (k AND 0xFF) :: u8) = unat k"
    using k by simp
  then show ?thesis by simp
qed

definition packet_ok :: "mqtt_packet \<Rightarrow> bool" where
  "packet_ok p \<longleftrightarrow> encode_packet p \<noteq> None"

definition packet_bytes :: "mqtt_packet \<Rightarrow> bytes" where
  "packet_bytes p = the (encode_packet p)"

lemma decode_encode_length:
  "n < 268435456 \<Longrightarrow> decode_remaining_length (mqtt_encode_remaining_length n @ rest) = Some (n, rest)"
  using remaining.dec_enc [of n rest] by simp

lemma parse_frame:
  assumes "length body < 268435456" "parse_body t body = Some p"
  shows "parse_packet (t # mqtt_encode_remaining_length (length body) @ body @ r) = Some (p, r)"
  using decode_encode_length [OF assms(1), of "body @ r"] assms(2)
  by (simp add: parse_packet_def del: parse_body.simps)

lemma parse_publish:
  assumes "publish_packet topic payload = Some bs"
  shows "parse_packet (bs @ r) = Some (PUBLISH topic payload, r)"
proof -
  have n: "2 + length topic + length payload < 268435456" "length topic < 65536"
    and bs: "bs = [0x30] @ mqtt_encode_remaining_length (2 + length topic + length payload) @ len16 (length topic) @
      bytes_of topic @ bytes_of payload"
    using assms by (auto simp: publish_packet_def Let_def split: if_splits)
  have b: "parse_body 0x30 (len16 (length topic) @ bytes_of topic @ bytes_of payload) = Some (PUBLISH topic payload)"
    using len16_value [OF n(2)] by (simp add: len16_def Let_def)
  show ?thesis
    using parse_frame [OF _ b, of r] n(1) by (simp add: bs len16_def)
qed

lemma parse_connect:
  assumes "connect_packet client_id k = Some bs"
  shows "parse_packet (bs @ r) = Some (CONNECT client_id k, r)"
proof -
  let ?body = "[0x00, 0x04] @ bytes_of ''MQTT'' @ [0x04, 0x02] @
      [ucast (drop_bit 8 k), ucast (k AND 0xFF)] @ len16 (length client_id) @ bytes_of client_id"
  have n: "10 + 2 + length client_id < 268435456" "length client_id < 65536"
    and bs: "bs = [0x10] @ mqtt_encode_remaining_length (10 + 2 + length client_id) @ ?body"
    using assms by (auto simp: connect_packet_def Let_def split: if_splits)
  have b: "parse_body 0x10 ?body = Some (CONNECT client_id k)"
    using len16_value [OF n(2)] keepalive_bytes [of k] string_of_bytes_of [of client_id]
    by (simp add: len16_def bytes_of_def)
  have len: "length ?body = 10 + 2 + length client_id" by (simp add: len16_def)
  show ?thesis
    using parse_frame [OF _ b, of r] n(1) unfolding len bs by simp
qed

lemma parse_ping: "parse_packet (ping_packet @ r) = Some (PINGREQ, r)"
  by (simp add: ping_packet_def parse_packet_def decode_remaining_length_def)

interpretation packets: prefix_codec packet_bytes parse_packet packet_ok
proof unfold_locales
  show "parse_packet (packet_bytes p @ r) = Some (p, r)" if "packet_ok p" for p r
    using that by (cases p) (auto simp: packet_ok_def packet_bytes_def parse_publish parse_connect parse_ping)
  show "packet_bytes p \<noteq> []" if "packet_ok p" for p
    using that by (cases p) (auto simp: packet_ok_def packet_bytes_def publish_packet_def connect_packet_def
        ping_packet_def Let_def split: if_splits)
qed

text \<open>
  C26. Packets on the wire: every CONNECT, PUBLISH or PINGREQ the session builds is read back by the
  reference parser from the front of any byte stream, topic, payload, client identifier and
  keep-alive included; and a stream of such packets has no other reading as packets.
\<close>

theorem packet_stream_unique:
  assumes "packet_ok p" and "list_all packet_ok ps" and "list_all packet_ok qs"
    and "concat (map packet_bytes ps) = concat (map packet_bytes qs)"
  shows "parse_packet (packet_bytes p @ rest) = Some (p, rest) \<and> ps = qs"
  using packets.dec_enc [OF assms(1)] packets.stream_unique [OF assms(2-4)] by blast

theorem packet_stream_unique_witness:
  "packet_ok (PUBLISH ''t'' ''hi'') \<and> parse_packet (packet_bytes (PUBLISH ''t'' ''hi'') @ [1]) = Some (PUBLISH ''t'' ''hi'', [1])"
proof -
  have ok: "packet_ok (PUBLISH ''t'' ''hi'')" using publish_fits [of "''t''" "''hi''"] by (simp add: packet_ok_def)
  then show ?thesis using packet_stream_unique [OF ok, of "[]" "[]" "[1]"] by simp
qed

end
