(* ===== verification/Cjson.thy ===== *)
theory Cjson
  imports IEEE_Double
begin

unbundle bit_operations_syntax

text \<open>
  The JSON reader the configuration manager links against, the vendored
  \<^verbatim>\<open>src/third_party/cJSON/cJSON.c\<close>: the tree, the accessors the loader uses, and the whole
  path from \<^verbatim>\<open>cJSON_Parse\<close> down to \<^verbatim>\<open>parse_hex4\<close>, with \<^verbatim>\<open>cJSON_Delete\<close>. The build
  leaves \<^verbatim>\<open>ENABLE_LOCALES\<close> undefined, so the decimal point is the full stop.

  The parser works on raw pointers, so every read of the text and every write into a string
  block is checked here: an access outside the block is a \<open>mem_fault\<close>. The recursion of
  \<^verbatim>\<open>parse_value\<close>, \<^verbatim>\<open>parse_array\<close> and \<^verbatim>\<open>parse_object\<close> runs on fuel, and running out of it is
  a fault too. The heap is the list of answers of \<^verbatim>\<open>malloc\<close> and the number of live blocks.
  The theory \<open>Cjson_Safety\<close> shows that no text and no allocator produces a fault, that a
  failed parse leaves no block behind and that trees stay within the nesting limit;
  \<open>Cjson_Grammar\<close> that a rendered document is read back.
\<close>

subsection \<open>The tree and its accessors\<close>

text \<open>
  A node of the linked tree, \<^verbatim>\<open>type\<close> being the constructor: a number carries
  \<^verbatim>\<open>valueint\<close> and \<^verbatim>\<open>valuedouble\<close>, an array or object the list that starts at \<^verbatim>\<open>child\<close>
  (with each member's \<^verbatim>\<open>string\<close>). Strings are the C strings the pointers stand for.
\<close>

datatype cJSON =
    cJSON_Invalid
  | cJSON_False
  | cJSON_True
  | cJSON_NULL
  | cJSON_Number int double
  | cJSON_String "string option"
  | cJSON_Array "cJSON list"
  | cJSON_Object "(string \<times> cJSON) list"
  | cJSON_Raw string

fun get_object_item :: "cJSON \<Rightarrow> string \<Rightarrow> cJSON option" where
  "get_object_item (cJSON_Object kvs) name = map_of kvs name"
| "get_object_item _ name = None"

definition cJSON_GetObjectItemCaseSensitive :: "cJSON \<Rightarrow> string \<Rightarrow> cJSON option" where
  "cJSON_GetObjectItemCaseSensitive object string = get_object_item object string"

fun cJSON_IsObject :: "cJSON option \<Rightarrow> bool" where
  "cJSON_IsObject (Some (cJSON_Object kvs)) = True"
| "cJSON_IsObject _ = False"

fun cJSON_IsBool :: "cJSON option \<Rightarrow> bool" where
  "cJSON_IsBool (Some cJSON_True) = True"
| "cJSON_IsBool (Some cJSON_False) = True"
| "cJSON_IsBool _ = False"

fun cJSON_IsTrue :: "cJSON option \<Rightarrow> bool" where
  "cJSON_IsTrue (Some cJSON_True) = True"
| "cJSON_IsTrue _ = False"

subsection \<open>Memory accesses\<close>

datatype mem_fault = Read_outside | Write_outside | Out_of_fuel

type_synonym 'a access = "mem_fault + 'a"

definition acc_bind :: "'a access \<Rightarrow> ('a \<Rightarrow> 'b access) \<Rightarrow> 'b access" where
  "acc_bind m f = (case m of Inl e \<Rightarrow> Inl e | Inr x \<Rightarrow> f x)"

lemma acc_bind_simps [simp]:
  "acc_bind (Inl e) f = Inl e" "acc_bind (Inr x) f = f x"
  by (simp_all add: acc_bind_def)

lemma acc_bind_cong [fundef_cong]:
  assumes "m = m'" and "\<And>x. m' = Inr x \<Longrightarrow> f x = f' x"
  shows "acc_bind m f = acc_bind m' f'"
  using assms by (cases m') simp_all

definition char_at :: "string \<Rightarrow> nat \<Rightarrow> char access" where
  "char_at content p = (if p < length content then Inr (content ! p) else Inl Read_outside)"

definition put_bytes :: "nat \<Rightarrow> string \<Rightarrow> string \<Rightarrow> string access" where
  "put_bytes cap out bs = (if length out + length bs \<le> cap then Inr (out @ bs) else Inl Write_outside)"

lemma char_at_Inr [simp]: "p < length content \<Longrightarrow> char_at content p = Inr (content ! p)"
  by (simp add: char_at_def)

subsection \<open>The heap\<close>

text \<open>
  \<open>hp_answers n\<close> says whether the \<open>n\<close>-th call of \<^verbatim>\<open>hooks.allocate\<close> returns a block;
  \<open>hp_live\<close> counts the blocks allocated and not yet freed.
\<close>

record c_heap =
  hp_answers :: "nat \<Rightarrow> bool"
  hp_calls :: nat
  hp_live :: int

definition allocate :: "c_heap \<Rightarrow> bool \<times> c_heap" where
  "allocate h =
     (let ok = hp_answers h (hp_calls h)
      in (ok, h\<lparr>hp_calls := Suc (hp_calls h), hp_live := hp_live h + (if ok then 1 else 0)\<rparr>))"

definition deallocate :: "c_heap \<Rightarrow> c_heap" where
  "deallocate h = h\<lparr>hp_live := hp_live h - 1\<rparr>"

definition cJSON_New_Item :: "c_heap \<Rightarrow> bool \<times> c_heap" where
  "cJSON_New_Item h = allocate h"

text \<open>
  \<^verbatim>\<open>cJSON_Delete\<close> walks a sibling list: for each node the children, \<^verbatim>\<open>valuestring\<close>,
  \<^verbatim>\<open>string\<close> (members of an object only) and the node itself.
\<close>

fun delete_value :: "cJSON \<Rightarrow> c_heap \<Rightarrow> c_heap" where
  "delete_value (cJSON_Array xs) h = fold (\<lambda>x h. deallocate (delete_value x h)) xs h"
| "delete_value (cJSON_Object kvs) h =
     fold (\<lambda>kv h. deallocate (deallocate (delete_value (snd kv) h))) kvs h"
| "delete_value (cJSON_String (Some s)) h = deallocate h"
| "delete_value (cJSON_Raw s) h = deallocate h"
| "delete_value _ h = h"

definition cJSON_Delete :: "cJSON \<Rightarrow> c_heap \<Rightarrow> c_heap" where
  "cJSON_Delete item h = deallocate (delete_value item h)"

definition delete_items :: "cJSON list \<Rightarrow> c_heap \<Rightarrow> c_heap" where
  "delete_items items h = delete_value (cJSON_Array items) h"

definition delete_members :: "(string \<times> cJSON) list \<Rightarrow> c_heap \<Rightarrow> c_heap" where
  "delete_members members h = delete_value (cJSON_Object members) h"

subsection \<open>The parse buffer\<close>

record parse_buffer =
  pb_content :: string
  pb_length :: nat
  pb_offset :: nat
  pb_depth :: nat
  pb_heap :: c_heap

definition can_read :: "parse_buffer \<Rightarrow> nat \<Rightarrow> bool" where
  "can_read b n \<longleftrightarrow> pb_offset b + n \<le> pb_length b"

definition can_access_at_index :: "parse_buffer \<Rightarrow> nat \<Rightarrow> bool" where
  "can_access_at_index b index \<longleftrightarrow> pb_offset b + index < pb_length b"

definition advance :: "nat \<Rightarrow> parse_buffer \<Rightarrow> parse_buffer" where
  "advance n b = b\<lparr>pb_offset := pb_offset b + n\<rparr>"

text \<open>\<^verbatim>\<open>can_access_at_index(b, 0)\<close> and then \<^verbatim>\<open>buffer_at_offset(b)[0]\<close>: \<open>None\<close> at the end.\<close>

definition peek :: "parse_buffer \<Rightarrow> char option access" where
  "peek b =
     (if can_access_at_index b 0 then acc_bind (char_at (pb_content b) (pb_offset b)) (\<lambda>c. Inr (Some c))
      else Inr None)"

fun strncmp_eq :: "string \<Rightarrow> nat \<Rightarrow> string \<Rightarrow> bool access" where
  "strncmp_eq content p [] = Inr True"
| "strncmp_eq content p (x # xs) =
     acc_bind (char_at content p) (\<lambda>c. if c = x then strncmp_eq content (Suc p) xs else Inr False)"

type_synonym 'a parsed = "('a option \<times> parse_buffer) access"

subsection \<open>White space and the byte order mark\<close>

function skip_spaces :: "string \<Rightarrow> nat \<Rightarrow> nat \<Rightarrow> nat access" where
  "skip_spaces content len offset =
     (if offset < len then
        acc_bind (char_at content offset) (\<lambda>c.
          if (of_char c :: nat) \<le> 32 then skip_spaces content len (Suc offset) else Inr offset)
      else Inr offset)"
  by pat_completeness auto
termination
  by (relation "measure (\<lambda>(content, len, offset). len - offset)") auto

declare skip_spaces.simps [simp del]

definition buffer_skip_whitespace :: "parse_buffer \<Rightarrow> parse_buffer access" where
  "buffer_skip_whitespace b =
     (if \<not> can_access_at_index b 0 then Inr b
      else acc_bind (skip_spaces (pb_content b) (pb_length b) (pb_offset b)) (\<lambda>offset.
        Inr (b\<lparr>pb_offset := (if offset = pb_length b then offset - 1 else offset)\<rparr>)))"

text \<open>A non-zero offset makes the function return \<^verbatim>\<open>NULL\<close>, on which the parse fails.\<close>

definition skip_utf8_bom :: "parse_buffer \<Rightarrow> parse_buffer option access" where
  "skip_utf8_bom b =
     (if pb_offset b \<noteq> 0 then Inr None
      else acc_bind (if can_access_at_index b 4
                     then strncmp_eq (pb_content b) (pb_offset b) [CHR 0xEF, CHR 0xBB, CHR 0xBF]
                     else Inr False) (\<lambda>bom.
        Inr (Some (if bom then advance 3 b else b))))"

subsection \<open>Numbers\<close>

text \<open>
  \<^verbatim>\<open>strtod\<close> of the C library on the characters \<^verbatim>\<open>parse_number\<close> passes it (digits, signs,
  \<^verbatim>\<open>e\<close>, \<^verbatim>\<open>E\<close> and the full stop): the value and the number of characters it converts, 0
  when there is no digit. The result is correctly rounded, an overflow gives an infinity and
  an underflow a zero or a subnormal.
\<close>

definition pow10 :: "int \<Rightarrow> rat" where
  "pow10 e = (if 0 \<le> e then 10 ^ nat e else 1 / 10 ^ nat (- e))"

fun strtod_sign :: "string \<Rightarrow> bool \<times> string" where
  "strtod_sign (c # cs) =
     (if c = CHR ''-'' then (True, cs) else if c = CHR ''+'' then (False, cs) else (False, c # cs))"
| "strtod_sign [] = (False, [])"

fun strtod_fraction :: "string \<Rightarrow> string \<times> string" where
  "strtod_fraction (c # cs) =
     (if c = CHR ''.'' then (takeWhile is_digit_char cs, dropWhile is_digit_char cs) else ([], c # cs))"
| "strtod_fraction [] = ([], [])"

fun strtod_exponent :: "string \<Rightarrow> int \<times> string" where
  "strtod_exponent (c # cs) =
     (if c = CHR ''e'' \<or> c = CHR ''E'' then
        (let (neg, ds) = strtod_sign cs; digits = takeWhile is_digit_char ds
         in if digits = [] then (0, c # cs)
            else ((if neg then - int (read_nat_acc 0 digits) else int (read_nat_acc 0 digits)),
                  dropWhile is_digit_char ds))
      else (0, c # cs))"
| "strtod_exponent [] = (0, [])"

definition strtod :: "string \<Rightarrow> double \<times> nat" where
  "strtod s =
     (let (neg, s1) = strtod_sign s;
          whole = takeWhile is_digit_char s1;
          (frac, s2) = strtod_fraction (dropWhile is_digit_char s1);
          (e, s3) = strtod_exponent s2;
          v = round64 (of_nat (read_nat_acc 0 (whole @ frac)) * pow10 (e - int (length frac)))
      in if whole @ frac = [] then (Fin 0, 0)
         else (if neg then dneg v else v, length s - length s3))"

definition number_char :: "char \<Rightarrow> bool" where
  "number_char c \<longleftrightarrow> c \<in> set ''0123456789+-eE.''"

text \<open>The copy loop: at most 63 characters, up to the first one no number contains.\<close>

fun copy_number :: "nat \<Rightarrow> parse_buffer \<Rightarrow> nat \<Rightarrow> string access" where
  "copy_number 0 b i = Inr []"
| "copy_number (Suc room) b i =
     (if can_access_at_index b i then
        acc_bind (char_at (pb_content b) (pb_offset b + i)) (\<lambda>c.
          if number_char c then acc_bind (copy_number room b (Suc i)) (\<lambda>cs. Inr (c # cs))
          else Inr [])
      else Inr [])"

text \<open>\<^verbatim>\<open>valueint\<close>, with saturation; the cast is in range in the last branch.\<close>

definition saturated_int :: "double \<Rightarrow> int" where
  "saturated_int number =
     (if dle (Fin 2147483647) number then 2147483647
      else if dle number (Fin (- 2147483648)) then - 2147483648
      else trunc_rat (dval number))"

definition parse_number :: "parse_buffer \<Rightarrow> cJSON parsed" where
  "parse_number b =
     acc_bind (copy_number 63 b 0) (\<lambda>number_c_string.
       let (number, after_end) = strtod number_c_string
       in if after_end = 0 then Inr (None, b)
          else Inr (Some (cJSON_Number (saturated_int number) number), advance after_end b))"

subsection \<open>Strings\<close>

definition hex_digit :: "char \<Rightarrow> u32 option" where
  "hex_digit c =
     (let x = (of_char c :: nat)
      in if 48 \<le> x \<and> x \<le> 57 then Some (of_nat (x - 48))
         else if 65 \<le> x \<and> x \<le> 70 then Some (of_nat (10 + x - 65))
         else if 97 \<le> x \<and> x \<le> 102 then Some (of_nat (10 + x - 97))
         else None)"

text \<open>The loop of \<^verbatim>\<open>parse_hex4\<close> with \<open>k\<close> digits to go; an invalid digit makes it return 0.\<close>

fun parse_hex4_loop :: "string \<Rightarrow> nat \<Rightarrow> nat \<Rightarrow> u32 \<Rightarrow> u32 access" where
  "parse_hex4_loop content p 0 h = Inr h"
| "parse_hex4_loop content p (Suc k) h =
     acc_bind (char_at content p) (\<lambda>c.
       case hex_digit c of
         None \<Rightarrow> Inr 0
       | Some d \<Rightarrow> parse_hex4_loop content (Suc p) k (if 0 < k then push_bit 4 (h + d) else h + d))"

definition parse_hex4 :: "string \<Rightarrow> nat \<Rightarrow> u32 access" where
  "parse_hex4 content p = parse_hex4_loop content p 4 0"

text \<open>The bytes of a code point, the continuation bytes written from the last one backwards.\<close>

fun utf8_tail :: "nat \<Rightarrow> u64 \<Rightarrow> string \<Rightarrow> u64 \<times> string" where
  "utf8_tail 0 codepoint bytes = (codepoint, bytes)"
| "utf8_tail (Suc k) codepoint bytes =
     utf8_tail k (drop_bit 6 codepoint) (char_of (unat ((codepoint OR 0x80) AND 0xBF)) # bytes)"

definition utf8_bytes :: "u64 \<Rightarrow> string option" where
  "utf8_bytes codepoint =
     (if codepoint < 0x80 then Some [char_of (unat (codepoint AND 0x7F))]
      else if 0x10FFFF < codepoint then None
      else let (utf8_length, first_byte_mark) =
             (if codepoint < 0x800 then (2, 0xC0) else if codepoint < 0x10000 then (3, 0xE0) else (4, 0xF0));
               (lead, bytes) = utf8_tail (utf8_length - 1) codepoint []
           in Some (char_of (unat ((lead OR first_byte_mark) AND 0xFF)) # bytes))"

text \<open>
  \<^verbatim>\<open>utf16_literal_to_utf8\<close>: the number of characters the literal takes (0 on failure) and
  the bytes it stands for.
\<close>

definition utf16_encode :: "nat \<Rightarrow> u64 \<Rightarrow> nat \<times> string" where
  "utf16_encode sequence_length codepoint =
     (case utf8_bytes codepoint of None \<Rightarrow> (0, []) | Some bytes \<Rightarrow> (sequence_length, bytes))"

definition utf16_literal_to_utf8 :: "string \<Rightarrow> nat \<Rightarrow> nat \<Rightarrow> (nat \<times> string) access" where
  "utf16_literal_to_utf8 content first_sequence input_end =
     (if input_end < first_sequence + 6 then Inr (0, [])
      else acc_bind (parse_hex4 content (first_sequence + 2)) (\<lambda>first_code.
        if 0xDC00 \<le> first_code \<and> first_code \<le> 0xDFFF then Inr (0, [])
        else if 0xD800 \<le> first_code \<and> first_code \<le> 0xDBFF then
          (let second_sequence = first_sequence + 6
           in if input_end < second_sequence + 6 then Inr (0, [])
              else acc_bind (char_at content second_sequence) (\<lambda>c0.
                if c0 \<noteq> CHR 0x5C then Inr (0, [])
                else acc_bind (char_at content (second_sequence + 1)) (\<lambda>c1.
                  if c1 \<noteq> CHR ''u'' then Inr (0, [])
                  else acc_bind (parse_hex4 content (second_sequence + 2)) (\<lambda>second_code.
                    if second_code < 0xDC00 \<or> 0xDFFF < second_code then Inr (0, [])
                    else Inr (utf16_encode 12
                      (0x10000 + ucast ((push_bit 10 (first_code AND 0x3FF)) OR (second_code AND 0x3FF))))))))
        else Inr (utf16_encode 6 (ucast first_code))))"

text \<open>
  The first pass of \<^verbatim>\<open>parse_string\<close>: the position of the closing quote (or the end of the
  text) and the number of escapes; \<open>None\<close> when the text ends in a backslash.
\<close>

function scan_string :: "string \<Rightarrow> nat \<Rightarrow> nat \<Rightarrow> nat \<Rightarrow> (nat \<times> nat) option access" where
  "scan_string content len input_end skipped_bytes =
     (if input_end < len then
        acc_bind (char_at content input_end) (\<lambda>c.
          if c = CHR 0x22 then Inr (Some (input_end, skipped_bytes))
          else if c = CHR 0x5C then
            (if len \<le> input_end + 1 then Inr None
             else scan_string content len (input_end + 2) (skipped_bytes + 1))
          else scan_string content len (input_end + 1) skipped_bytes)
      else Inr (Some (input_end, skipped_bytes)))"
  by pat_completeness auto
termination
  by (relation "measure (\<lambda>(content, len, input_end, skipped). len - input_end)") auto

declare scan_string.simps [simp del]

fun simple_escape :: "char \<Rightarrow> char option" where
  "simple_escape c =
     (if c = CHR ''b'' then Some (CHR 0x08)
      else if c = CHR ''f'' then Some (CHR 0x0C)
      else if c = CHR ''n'' then Some (CHR 0x0A)
      else if c = CHR ''r'' then Some (CHR 0x0D)
      else if c = CHR ''t'' then Some (CHR 0x09)
      else if c = CHR 0x22 \<or> c = CHR 0x5C \<or> c = CHR ''/'' then Some c
      else None)"

declare simple_escape.simps [simp del]

text \<open>
  The second pass, into a block of \<open>cap\<close> bytes: \<open>Inl\<close> the input pointer at which it gives up,
  \<open>Inr\<close> the bytes written.
\<close>

function unescape :: "string \<Rightarrow> nat \<Rightarrow> nat \<Rightarrow> nat \<Rightarrow> string \<Rightarrow> (nat + string) access" where
  "unescape content input_end cap input_pointer out =
     (if input_pointer < input_end then
        acc_bind (char_at content input_pointer) (\<lambda>c.
          if c \<noteq> CHR 0x5C then
            acc_bind (put_bytes cap out [c]) (unescape content input_end cap (input_pointer + 1))
          else if input_end - input_pointer < 1 then Inr (Inl input_pointer)
          else acc_bind (char_at content (input_pointer + 1)) (\<lambda>e.
            case simple_escape e of
              Some x \<Rightarrow> acc_bind (put_bytes cap out [x]) (unescape content input_end cap (input_pointer + 2))
            | None \<Rightarrow>
                if e = CHR ''u'' then
                  acc_bind (utf16_literal_to_utf8 content input_pointer input_end) (\<lambda>(sequence_length, bytes).
                    if sequence_length = 0 then Inr (Inl input_pointer)
                    else acc_bind (put_bytes cap out bytes)
                      (unescape content input_end cap (input_pointer + sequence_length)))
                else Inr (Inl input_pointer)))
      else Inr (Inr out))"
  by pat_completeness auto
termination
  by (relation "measure (\<lambda>(content, input_end, cap, input_pointer, out). input_end - input_pointer)") auto

declare unescape.simps [simp del]

definition parse_string :: "parse_buffer \<Rightarrow> string parsed" where
  "parse_string b =
     (let content = pb_content b; start = pb_offset b;
          stop = (\<lambda>h input_pointer. Inr (None, b\<lparr>pb_offset := input_pointer, pb_heap := h\<rparr>))
      in acc_bind (char_at content start) (\<lambda>c.
         if c \<noteq> CHR 0x22 then stop (pb_heap b) (start + 1)
         else acc_bind (scan_string content (pb_length b) (start + 1) 0) (\<lambda>scanned.
           case scanned of
             None \<Rightarrow> stop (pb_heap b) (start + 1)
           | Some (input_end, skipped_bytes) \<Rightarrow>
               if pb_length b \<le> input_end then stop (pb_heap b) (start + 1)
               else acc_bind (char_at content input_end) (\<lambda>q.
                 if q \<noteq> CHR 0x22 then stop (pb_heap b) (start + 1)
                 else let allocation_length = (input_end - start) - skipped_bytes;
                          cap = allocation_length + 1;
                          (ok, h) = allocate (pb_heap b)
                   in if \<not> ok then stop h (start + 1)
                      else acc_bind (unescape content input_end cap (start + 1) []) (\<lambda>done.
                        case done of
                          Inl input_pointer \<Rightarrow> stop (deallocate h) input_pointer
                        | Inr out \<Rightarrow>
                            acc_bind (put_bytes cap out [nul]) (\<lambda>output.
                              Inr (Some (c_str output),
                                   b\<lparr>pb_offset := input_end + 1, pb_heap := h\<rparr>)))))))"

subsection \<open>Values, arrays and objects\<close>

definition CJSON_NESTING_LIMIT :: nat where
  "CJSON_NESTING_LIMIT = 1000"

definition literal_at :: "parse_buffer \<Rightarrow> string \<Rightarrow> bool access" where
  "literal_at b s =
     (if can_read b (length s) then strncmp_eq (pb_content b) (pb_offset b) s else Inr False)"

definition parse_fail :: "parse_buffer \<Rightarrow> 'a parsed" where
  "parse_fail b = Inr (None, b)"

definition close_nested :: "parse_buffer \<Rightarrow> parse_buffer" where
  "close_nested b = b\<lparr>pb_depth := pb_depth b - 1, pb_offset := pb_offset b + 1\<rparr>"

text \<open>
  \<open>parse_elements\<close> and \<open>parse_members\<close> are the \<^verbatim>\<open>do ... while\<close> loops of
  \<^verbatim>\<open>parse_array\<close> and \<^verbatim>\<open>parse_object\<close>; their second argument is the part of the linked list
  that is complete. On failure they free it together with the node being filled, as the
  \<^verbatim>\<open>fail\<close> label does with \<^verbatim>\<open>cJSON_Delete(head)\<close>.
\<close>

fun parse_value :: "nat \<Rightarrow> parse_buffer \<Rightarrow> cJSON parsed"
  and parse_array :: "nat \<Rightarrow> parse_buffer \<Rightarrow> cJSON parsed"
  and parse_elements :: "nat \<Rightarrow> cJSON list \<Rightarrow> parse_buffer \<Rightarrow> cJSON list parsed"
  and parse_object :: "nat \<Rightarrow> parse_buffer \<Rightarrow> cJSON parsed"
  and parse_members :: "nat \<Rightarrow> (string \<times> cJSON) list \<Rightarrow> parse_buffer \<Rightarrow> (string \<times> cJSON) list parsed"
where
  "parse_value 0 b = Inl Out_of_fuel"
| "parse_value (Suc n) b =
     acc_bind (literal_at b ''null'') (\<lambda>is_null.
     if is_null then Inr (Some cJSON_NULL, advance 4 b)
     else acc_bind (literal_at b ''false'') (\<lambda>is_false.
     if is_false then Inr (Some cJSON_False, advance 5 b)
     else acc_bind (literal_at b ''true'') (\<lambda>is_true.
     if is_true then Inr (Some cJSON_True, advance 4 b)
     else acc_bind (peek b) (\<lambda>c.
     case c of
       None \<Rightarrow> parse_fail b
     | Some x \<Rightarrow>
         if x = CHR 0x22 then
           acc_bind (parse_string b) (\<lambda>(s, b'). Inr (map_option (\<lambda>s. cJSON_String (Some s)) s, b'))
         else if x = CHR ''-'' \<or> is_digit_char x then parse_number b
         else if x = CHR ''['' then parse_array n b
         else if x = CHR ''{'' then parse_object n b
         else parse_fail b))))"
| "parse_array 0 b = Inl Out_of_fuel"
| "parse_array (Suc n) b =
     (if CJSON_NESTING_LIMIT \<le> pb_depth b then parse_fail b
      else let b1 = b\<lparr>pb_depth := pb_depth b + 1\<rparr>
        in acc_bind (char_at (pb_content b1) (pb_offset b1)) (\<lambda>c.
           if c \<noteq> CHR ''['' then parse_fail b1
           else acc_bind (buffer_skip_whitespace (advance 1 b1)) (\<lambda>b2.
           acc_bind (peek b2) (\<lambda>c.
           if c = Some (CHR '']'') then Inr (Some (cJSON_Array []), close_nested b2)
           else if c = None then parse_fail (b2\<lparr>pb_offset := pb_offset b2 - 1\<rparr>)
           else acc_bind (parse_elements n [] (b2\<lparr>pb_offset := pb_offset b2 - 1\<rparr>)) (\<lambda>(r, b3).
           case r of
             None \<Rightarrow> parse_fail b3
           | Some items \<Rightarrow>
               acc_bind (peek b3) (\<lambda>c.
               if c \<noteq> Some (CHR '']'') then parse_fail (b3\<lparr>pb_heap := delete_items items (pb_heap b3)\<rparr>)
               else Inr (Some (cJSON_Array items), close_nested b3)))))))"
| "parse_elements 0 items b = Inl Out_of_fuel"
| "parse_elements (Suc n) items b =
     (let (ok, h) = cJSON_New_Item (pb_heap b)
      in if \<not> ok then parse_fail (b\<lparr>pb_heap := delete_items items h\<rparr>)
         else acc_bind (buffer_skip_whitespace (advance 1 (b\<lparr>pb_heap := h\<rparr>))) (\<lambda>b1.
           acc_bind (parse_value n b1) (\<lambda>(v, b2).
           case v of
             None \<Rightarrow> parse_fail (b2\<lparr>pb_heap := delete_items (items @ [cJSON_Invalid]) (pb_heap b2)\<rparr>)
           | Some x \<Rightarrow>
               acc_bind (buffer_skip_whitespace b2) (\<lambda>b3.
               acc_bind (peek b3) (\<lambda>c.
               if c = Some (CHR '','') then parse_elements n (items @ [x]) b3
               else Inr (Some (items @ [x]), b3))))))"
| "parse_object 0 b = Inl Out_of_fuel"
| "parse_object (Suc n) b =
     (if CJSON_NESTING_LIMIT \<le> pb_depth b then parse_fail b
      else let b1 = b\<lparr>pb_depth := pb_depth b + 1\<rparr>
        in acc_bind (peek b1) (\<lambda>c.
           if c \<noteq> Some (CHR ''{'') then parse_fail b1
           else acc_bind (buffer_skip_whitespace (advance 1 b1)) (\<lambda>b2.
           acc_bind (peek b2) (\<lambda>c.
           if c = Some (CHR ''}'') then Inr (Some (cJSON_Object []), close_nested b2)
           else if c = None then parse_fail (b2\<lparr>pb_offset := pb_offset b2 - 1\<rparr>)
           else acc_bind (parse_members n [] (b2\<lparr>pb_offset := pb_offset b2 - 1\<rparr>)) (\<lambda>(r, b3).
           case r of
             None \<Rightarrow> parse_fail b3
           | Some members \<Rightarrow>
               acc_bind (peek b3) (\<lambda>c.
               if c \<noteq> Some (CHR ''}'') then parse_fail (b3\<lparr>pb_heap := delete_members members (pb_heap b3)\<rparr>)
               else Inr (Some (cJSON_Object members), close_nested b3)))))))"
| "parse_members 0 members b = Inl Out_of_fuel"
| "parse_members (Suc n) members b =
     (let (ok, h) = cJSON_New_Item (pb_heap b);
          b0 = b\<lparr>pb_heap := h\<rparr>;
          unnamed = (\<lambda>b. parse_fail (b\<lparr>pb_heap := deallocate (delete_members members (pb_heap b))\<rparr>));
          named = (\<lambda>name b. parse_fail
            (b\<lparr>pb_heap := delete_members (members @ [(name, cJSON_Invalid)]) (pb_heap b)\<rparr>))
      in if \<not> ok then parse_fail (b0\<lparr>pb_heap := delete_members members h\<rparr>)
         else if \<not> can_access_at_index b0 1 then unnamed b0
         else acc_bind (buffer_skip_whitespace (advance 1 b0)) (\<lambda>b1.
           acc_bind (parse_string b1) (\<lambda>(s, b2).
           case s of
             None \<Rightarrow> unnamed b2
           | Some name \<Rightarrow>
               acc_bind (buffer_skip_whitespace b2) (\<lambda>b3.
               acc_bind (peek b3) (\<lambda>c.
               if c \<noteq> Some (CHR '':'') then named name b3
               else acc_bind (buffer_skip_whitespace (advance 1 b3)) (\<lambda>b4.
               acc_bind (parse_value n b4) (\<lambda>(v, b5).
               case v of
                 None \<Rightarrow> named name b5
               | Some x \<Rightarrow>
                   acc_bind (buffer_skip_whitespace b5) (\<lambda>b6.
                   acc_bind (peek b6) (\<lambda>c.
                   if c = Some (CHR '','') then parse_members n (members @ [(name, x)]) b6
                   else Inr (Some (members @ [(name, x)]), b6)))))))))) "

declare parse_value.simps [simp del] parse_array.simps [simp del] parse_elements.simps [simp del]
  parse_object.simps [simp del] parse_members.simps [simp del]

subsection \<open>Entry points\<close>

text \<open>
  \<open>global_error\<close>: whether its \<^verbatim>\<open>json\<close> pointer is set to the text, and the position.
\<close>

record cjson_error =
  err_set :: bool
  err_position :: nat

definition parse_fuel :: "nat \<Rightarrow> nat" where
  "parse_fuel n = 3 * n + 1"

definition error_position :: "parse_buffer \<Rightarrow> nat" where
  "error_position b =
     (if pb_offset b < pb_length b then pb_offset b
      else if 0 < pb_length b then pb_length b - 1
      else 0)"

text \<open>
  The result is the tree, the position \<^verbatim>\<open>return_parse_end\<close> would point to, the new
  \<^verbatim>\<open>global_error\<close> and the heap. \<open>content\<close> is the block \<^verbatim>\<open>value\<close> points to.
\<close>

definition cJSON_ParseWithLengthOpts ::
  "c_heap \<Rightarrow> string option \<Rightarrow> nat \<Rightarrow> bool \<Rightarrow> (cJSON option \<times> nat \<times> cjson_error \<times> c_heap) access" where
  "cJSON_ParseWithLengthOpts h value buffer_length require_null_terminated =
     (case value of
        None \<Rightarrow> Inr (None, 0, \<lparr>err_set = False, err_position = 0\<rparr>, h)
      | Some content \<Rightarrow>
          let failed = (\<lambda>b h. Inr (None, error_position b,
                \<lparr>err_set = True, err_position = error_position b\<rparr>, h));
              zero = \<lparr>pb_content = content, pb_length = 0, pb_offset = 0, pb_depth = 0, pb_heap = h\<rparr>
          in if buffer_length = 0 then failed zero h
             else let b = zero\<lparr>pb_length := buffer_length\<rparr>; (ok, h1) = cJSON_New_Item h;
                      b1 = b\<lparr>pb_heap := h1\<rparr>
               in if \<not> ok then failed b1 h1
                  else acc_bind (skip_utf8_bom b1) (\<lambda>skipped.
                    case skipped of
                      None \<Rightarrow> failed b1 (cJSON_Delete cJSON_Invalid h1)
                    | Some b2 \<Rightarrow>
                    acc_bind (buffer_skip_whitespace b2) (\<lambda>b3.
                    acc_bind (parse_value (parse_fuel buffer_length) b3) (\<lambda>(v, b4).
                    case v of
                      None \<Rightarrow> failed b4 (cJSON_Delete cJSON_Invalid (pb_heap b4))
                    | Some item \<Rightarrow>
                        if require_null_terminated then
                          acc_bind (buffer_skip_whitespace b4) (\<lambda>b5.
                          acc_bind (peek b5) (\<lambda>c.
                          if c \<noteq> Some nul then failed b5 (cJSON_Delete item (pb_heap b5))
                          else Inr (Some item, pb_offset b5, \<lparr>err_set = False, err_position = 0\<rparr>, pb_heap b5)))
                        else Inr (Some item, pb_offset b4, \<lparr>err_set = False, err_position = 0\<rparr>, pb_heap b4)))))"

definition cJSON_ParseWithOpts ::
  "cjson_error \<Rightarrow> c_heap \<Rightarrow> string option \<Rightarrow> bool \<Rightarrow> (cJSON option \<times> nat \<times> cjson_error \<times> c_heap) access" where
  "cJSON_ParseWithOpts err h value require_null_terminated =
     (case value of
        None \<Rightarrow> Inr (None, 0, err, h)
      | Some s \<Rightarrow> cJSON_ParseWithLengthOpts h (Some (c_str s @ [nul])) (length (c_str s) + 1)
                   require_null_terminated)"

definition cJSON_Parse ::
  "cjson_error \<Rightarrow> c_heap \<Rightarrow> string option \<Rightarrow> (cJSON option \<times> cjson_error \<times> c_heap) access" where
  "cJSON_Parse err h value =
     acc_bind (cJSON_ParseWithOpts err h value False) (\<lambda>(item, parse_end, err', h'). Inr (item, err', h'))"

end
