(* ===== verification/Cjson_Safety.thy ===== *)
theory Cjson_Safety
  imports Cjson
begin

text \<open>
  Memory safety of the JSON reader: whatever the text and whatever \<^verbatim>\<open>malloc\<close> answers, the
  parser reads inside the text and its terminating NUL, writes inside the block it allocated
  for each string, returns, keeps the tree within \<^verbatim>\<open>CJSON_NESTING_LIMIT\<close> levels, and owns
  exactly the blocks of the tree it returns (none when it fails).

  The string block is the delicate part: \<^verbatim>\<open>parse_string\<close> sizes it by one pass over the
  literal and fills it by another, and the two passes can disagree about where an escape
  starts (\<^verbatim>\<open>parse_hex4\<close> accepts anything and the second pass then skips six characters).
  The bound survives because in either reading no two neighbouring characters both start an
  escape.
\<close>

subsection \<open>What a tree owns\<close>

fun owned :: "cJSON \<Rightarrow> int" where
  "owned (cJSON_Array xs) = (\<Sum>x\<leftarrow>xs. 1 + owned x)"
| "owned (cJSON_Object kvs) = (\<Sum>kv\<leftarrow>kvs. 2 + owned (snd kv))"
| "owned (cJSON_String (Some s)) = 1"
| "owned (cJSON_Raw s) = 1"
| "owned _ = 0"

fun height :: "cJSON \<Rightarrow> nat" where
  "height (cJSON_Array xs) = Suc (fold (\<lambda>x m. max (height x) m) xs 0)"
| "height (cJSON_Object kvs) = Suc (fold (\<lambda>kv m. max (height (snd kv)) m) kvs 0)"
| "height _ = 0"

definition heights :: "cJSON list \<Rightarrow> nat" where
  "heights xs = fold (\<lambda>x m. max (height x) m) xs 0"

lemma heights_append [simp]: "heights (xs @ [x]) = max (height x) (heights xs)"
  by (simp add: heights_def)

lemma heights_Nil [simp]: "heights [] = 0"
  by (simp add: heights_def)

lemma height_Array [simp]: "height (cJSON_Array xs) = Suc (heights xs)"
  by (simp add: heights_def)

lemma fold_max_snd:
  "fold (\<lambda>kv m. max (height (snd kv)) m) kvs k = fold (\<lambda>x m. max (height x) m) (map snd kvs) k"
  by (induction kvs arbitrary: k) simp_all

lemma height_Object [simp]: "height (cJSON_Object kvs) = Suc (heights (map snd kvs))"
  by (simp add: heights_def fold_max_snd)

declare height.simps(1,2) [simp del]

lemma deallocate_live [simp]: "hp_live (deallocate h) = hp_live h - 1"
  by (simp add: deallocate_def)

lemma delete_value_live [simp]: "hp_live (delete_value t h) = hp_live h - owned t"
proof (induction t arbitrary: h)
  case (cJSON_String s)
  then show ?case by (cases s) simp_all
next
  case (cJSON_Array xs)
  have "hp_live (fold (\<lambda>x h. deallocate (delete_value x h)) ys h) = hp_live h - (\<Sum>x\<leftarrow>ys. 1 + owned x)"
    if "set ys \<subseteq> set xs" for ys
    using that cJSON_Array.IH by (induction ys arbitrary: h) auto
  from this [OF subset_refl] show ?case by (simp only: delete_value.simps owned.simps)
next
  case (cJSON_Object kvs)
  have "hp_live (fold (\<lambda>kv h. deallocate (deallocate (delete_value (snd kv) h))) ys h) =
      hp_live h - (\<Sum>kv\<leftarrow>ys. 2 + owned (snd kv))" if "set ys \<subseteq> set kvs" for ys
    using that cJSON_Object.IH by (induction ys arbitrary: h) (auto simp: snds.simps)
  from this [OF subset_refl] show ?case by (simp only: delete_value.simps owned.simps)
qed simp_all

lemma delete_items_live [simp]: "hp_live (delete_items xs h) = hp_live h - owned (cJSON_Array xs)"
  by (simp only: delete_items_def delete_value_live)

lemma delete_members_live [simp]: "hp_live (delete_members kvs h) = hp_live h - owned (cJSON_Object kvs)"
  by (simp only: delete_members_def delete_value_live)

lemma cJSON_Delete_live [simp]: "hp_live (cJSON_Delete t h) = hp_live h - (1 + owned t)"
  by (simp add: cJSON_Delete_def)

lemma allocate_live:
  "allocate h = (ok, h') \<Longrightarrow> hp_live h' = hp_live h + (if ok then 1 else 0)"
  by (auto simp: allocate_def Let_def)

subsection \<open>Text kept, bounds kept\<close>

definition wf_buffer :: "parse_buffer \<Rightarrow> bool" where
  "wf_buffer b \<longleftrightarrow> length (pb_content b) = pb_length b \<and> pb_offset b \<le> pb_length b \<and>
     pb_depth b \<le> CJSON_NESTING_LIMIT"

definition inside :: "parse_buffer \<Rightarrow> bool" where
  "inside b \<longleftrightarrow> wf_buffer b \<and> pb_offset b < pb_length b"

definition text_kept :: "parse_buffer \<Rightarrow> parse_buffer \<Rightarrow> bool" where
  "text_kept b b' \<longleftrightarrow> pb_content b' = pb_content b \<and> pb_length b' = pb_length b"

text \<open>
  The contract of every parsing function. It returns; the text is untouched; a success
  consumes at least one character, restores the nesting depth, adds to the heap what the
  result owns beyond the \<open>base\<close> blocks handed in, and stays within the nesting limit; a
  failure has freed the blocks handed in as well.
\<close>

definition parsed_ok :: "('a \<Rightarrow> int) \<Rightarrow> ('a \<Rightarrow> nat) \<Rightarrow> int \<Rightarrow> parse_buffer \<Rightarrow> 'a parsed \<Rightarrow> bool" where
  "parsed_ok own high base b r \<longleftrightarrow>
     (\<exists>v b'. r = Inr (v, b') \<and> text_kept b b' \<and> pb_offset b' \<le> pb_length b \<and>
        (case v of
           None \<Rightarrow> hp_live (pb_heap b') = hp_live (pb_heap b) - base
         | Some x \<Rightarrow> pb_offset b < pb_offset b' \<and> pb_depth b' = pb_depth b \<and>
             high x + pb_depth b \<le> CJSON_NESTING_LIMIT \<and>
             hp_live (pb_heap b') = hp_live (pb_heap b) + own x - base))"

lemma skip_spaces_ok:
  "len \<le> length content \<Longrightarrow> p \<le> len \<Longrightarrow>
    \<exists>q. skip_spaces content len p = Inr q \<and> p \<le> q \<and> q \<le> len"
proof (induction content len p rule: skip_spaces.induct)
  case (1 content len p)
  show ?case
  proof (cases "p < len \<and> (of_char (content ! p) :: nat) \<le> 32")
    case True
    with "1.IH" [of "content ! p"] "1.prems" show ?thesis
      by (subst skip_spaces.simps) (auto dest: Suc_leD)
  next
    case False
    with "1.prems" show ?thesis by (subst skip_spaces.simps) auto
  qed
qed

lemma buffer_skip_whitespace_ok:
  assumes "wf_buffer b"
  obtains b' where "buffer_skip_whitespace b = Inr b'" "wf_buffer b'" "text_kept b b'"
    "pb_depth b' = pb_depth b" "pb_heap b' = pb_heap b" "pb_offset b \<le> pb_offset b'"
    "pb_offset b < pb_length b \<Longrightarrow> pb_offset b' < pb_length b"
proof (cases "pb_offset b < pb_length b")
  case True
  with assms skip_spaces_ok [of "pb_length b" "pb_content b" "pb_offset b"] obtain q where
    "skip_spaces (pb_content b) (pb_length b) (pb_offset b) = Inr q" "pb_offset b \<le> q" "q \<le> pb_length b"
    by (auto simp: wf_buffer_def)
  with True assms that [of "b\<lparr>pb_offset := if q = pb_length b then q - 1 else q\<rparr>"] show ?thesis
    by (cases "q = pb_length b") (auto simp: buffer_skip_whitespace_def can_access_at_index_def wf_buffer_def text_kept_def)
next
  case False
  with assms that [of b] show ?thesis
    by (auto simp: buffer_skip_whitespace_def can_access_at_index_def text_kept_def)
qed

lemma peek_ok:
  "wf_buffer b \<Longrightarrow> peek b =
    Inr (if pb_offset b < pb_length b then Some (pb_content b ! pb_offset b) else None)"
  by (simp add: peek_def can_access_at_index_def wf_buffer_def)

lemma strncmp_eq_ok: "p + length s \<le> length content \<Longrightarrow> \<exists>r. strncmp_eq content p s = Inr r"
  by (induction s arbitrary: p) auto

lemma literal_at_ok: "wf_buffer b \<Longrightarrow> \<exists>r. literal_at b s = Inr r"
  using strncmp_eq_ok by (auto simp: literal_at_def can_read_def wf_buffer_def)

lemma literal_at_True: "literal_at b s = Inr True \<Longrightarrow> pb_offset b + length s \<le> pb_length b"
  by (simp add: literal_at_def can_read_def split: if_splits)

lemma skip_utf8_bom_ok:
  assumes "wf_buffer b" and "pb_offset b = 0"
  obtains b' where "skip_utf8_bom b = Inr (Some b')" "wf_buffer b'" "text_kept b b'"
    "pb_depth b' = pb_depth b" "pb_heap b' = pb_heap b"
proof (cases "can_access_at_index b 4")
  case True
  with assms have "pb_offset b + length [CHR 0xEF, CHR 0xBB, CHR 0xBF] \<le> length (pb_content b)"
    by (simp add: can_access_at_index_def wf_buffer_def)
  from strncmp_eq_ok [OF this] obtain r where
    "strncmp_eq (pb_content b) (pb_offset b) [CHR 0xEF, CHR 0xBB, CHR 0xBF] = Inr r" ..
  with True assms that [of "if r then advance 3 b else b"] show ?thesis
    by (auto simp: skip_utf8_bom_def can_access_at_index_def wf_buffer_def text_kept_def advance_def)
next
  case False
  with assms that [of b] show ?thesis by (simp add: skip_utf8_bom_def text_kept_def)
qed

subsection \<open>Numbers\<close>

lemma copy_number_ok:
  "length (pb_content b) = pb_length b \<Longrightarrow>
    \<exists>s. copy_number room b i = Inr s \<and> length s \<le> room \<and> (s \<noteq> [] \<longrightarrow> pb_offset b + i + length s \<le> pb_length b)"
proof (induction room arbitrary: i)
  case (Suc room)
  from Suc.IH [OF Suc.prems, of "Suc i"] obtain s where "copy_number room b (Suc i) = Inr s" "length s \<le> room"
    "s \<noteq> [] \<longrightarrow> pb_offset b + Suc i + length s \<le> pb_length b" by blast
  with Suc.prems show ?case by (cases s) (auto simp: can_access_at_index_def)
qed simp

lemma strtod_consumed: "strtod s = (d, k) \<Longrightarrow> k \<le> length s"
  by (auto simp: strtod_def Let_def split: prod.splits if_splits)

lemma parse_number_ok:
  assumes "wf_buffer b"
  shows "parsed_ok (\<lambda>t. owned t) height 0 b (parse_number b)"
proof -
  from assms copy_number_ok [of b 63 0] obtain s where
    s: "copy_number 63 b 0 = Inr s" "s \<noteq> [] \<Longrightarrow> pb_offset b + length s \<le> pb_length b"
    by (auto simp: wf_buffer_def)
  obtain d k where k: "strtod s = (d, k)" by (cases "strtod s")
  with strtod_consumed [OF k] s(2) have "0 < k \<Longrightarrow> pb_offset b + k \<le> pb_length b"
    by (cases s) auto
  with assms s(1) k show ?thesis
    by (auto simp: parse_number_def parsed_ok_def text_kept_def advance_def wf_buffer_def)
qed

subsection \<open>Strings\<close>

lemma hex_digit_less: "hex_digit c = Some d \<Longrightarrow> unat d < 16"
  by (auto simp: hex_digit_def Let_def unat_of_nat simp del: of_nat_diff split: if_splits)

lemma parse_hex4_loop_ok:
  "p + k \<le> length content \<Longrightarrow> i + k = 4 \<Longrightarrow> unat h \<le> (if k = 0 then 65535 else 16 * (16 ^ i - 1)) \<Longrightarrow>
    \<exists>r. parse_hex4_loop content p k h = Inr r \<and> unat r \<le> 65535"
proof (induction k arbitrary: p i h)
  case (Suc k)
  show ?case
  proof (cases "hex_digit (content ! p)")
    case None
    with Suc.prems show ?thesis by simp
  next
    case (Some d)
    have i: "i \<in> {0, 1, 2, 3}" using Suc.prems(2) by auto
    from hex_digit_less [OF Some] Suc.prems i have "unat h + unat d \<le> 16 * (16 ^ i - 1) + 15"
      by simp
    moreover from i have "16 * (16 ^ i - 1) + 15 \<le> (65535 :: nat)" by auto
    ultimately have hd: "unat (h + d) = unat h + unat d" "unat h + unat d \<le> 16 * (16 ^ i - 1) + 15"
      by (simp_all add: unat_word_ariths)
    have "unat (push_bit 4 (h + d)) \<le> 16 * (16 ^ Suc i - 1)" if "0 < k"
    proof -
      from that Suc.prems(2) have "i \<in> {0, 1, 2}" by auto
      with hd show ?thesis
        by (auto simp: push_bit_eq_mult unat_word_ariths intro!: order.trans [OF mod_less_eq_dividend])
    qed
    with hd i Suc.prems have "\<exists>r. parse_hex4_loop content (Suc p) k
        (if 0 < k then push_bit 4 (h + d) else h + d) = Inr r \<and> unat r \<le> 65535"
      by (intro Suc.IH [of _ "Suc i"]) auto
    with Some Suc.prems show ?thesis by simp
  qed
qed simp

lemma parse_hex4_ok:
  "p + 4 \<le> length content \<Longrightarrow> \<exists>r. parse_hex4 content p = Inr r \<and> unat r \<le> 65535"
  unfolding parse_hex4_def by (rule parse_hex4_loop_ok [where i = 0]) simp_all

lemma length_utf8_tail: "length (snd (utf8_tail k codepoint bytes)) = k + length bytes"
  by (induction k arbitrary: codepoint bytes) simp_all

lemma length_utf8_bytes:
  assumes "utf8_bytes codepoint = Some bytes"
  shows "length bytes \<le> 4" and "codepoint < 0x10000 \<Longrightarrow> length bytes \<le> 3"
  using assms length_utf8_tail [of 1 codepoint "[]"] length_utf8_tail [of 2 codepoint "[]"]
    length_utf8_tail [of 3 codepoint "[]"]
  by (auto simp: utf8_bytes_def Let_def split: if_splits prod.splits)

text \<open>A literal of six characters becomes at most three bytes, one of twelve at most four.\<close>

lemma utf16_encode_fits:
  "p + 12 \<le> input_end \<Longrightarrow> \<exists>n bytes. utf16_encode 12 codepoint = (n, bytes) \<and>
     (0 < n \<longrightarrow> p + n \<le> input_end \<and> even n \<and> 2 * length bytes \<le> n)"
  "p + 6 \<le> input_end \<Longrightarrow> codepoint < 0x10000 \<Longrightarrow> \<exists>n bytes. utf16_encode 6 codepoint = (n, bytes) \<and>
     (0 < n \<longrightarrow> p + n \<le> input_end \<and> even n \<and> 2 * length bytes \<le> n)"
  using length_utf8_bytes [of codepoint] by (auto simp: utf16_encode_def split: option.splits)

lemma utf16_literal_ok:
  assumes "input_end \<le> length content"
  shows "\<exists>n bytes. utf16_literal_to_utf8 content p input_end = Inr (n, bytes) \<and>
    (n \<noteq> 0 \<longrightarrow> p + n \<le> input_end \<and> even n \<and> 2 * length bytes \<le> n)"
proof (cases "input_end < p + 6")
  case False
  with assms parse_hex4_ok [of "p + 2" content] obtain x where
    x: "parse_hex4 content (p + 2) = Inr x" "unat x \<le> 65535" by auto
  then have small: "(ucast x :: u64) < 0x10000"
    by (simp add: word_less_nat_alt unsigned_ucast_eq take_bit_nat_eq_self)
  show ?thesis
  proof (cases "0xD800 \<le> x \<and> x \<le> 0xDBFF \<and> \<not> input_end < p + 12")
    case True
    with assms parse_hex4_ok [of "8 + p" content] obtain y where
      "parse_hex4 content (8 + p) = Inr y" by auto
    with False True x(1) assms utf16_encode_fits(1) [of p input_end] show ?thesis
      by (auto simp: utf16_literal_to_utf8_def Let_def)
  next
    case no_pair: False
    with False x(1) utf16_encode_fits(2) [of p input_end, OF _ small] show ?thesis
      by (auto simp: utf16_literal_to_utf8_def Let_def)
  qed
qed (simp add: utf16_literal_to_utf8_def)

text \<open>
  The escapes the first pass counts: a set of positions no two of which are neighbours, each
  followed by another character of the literal.
\<close>

definition escapes :: "string \<Rightarrow> nat set \<Rightarrow> nat \<Rightarrow> nat \<Rightarrow> bool" where
  "escapes content S p e \<longleftrightarrow> S \<subseteq> {p..<e} \<and> (\<forall>j\<in>S. content ! j = CHR 0x5C \<and> Suc j \<notin> S \<and> Suc j < e)"

lemma escapes_finite: "escapes content S p e \<Longrightarrow> finite S"
  by (auto simp: escapes_def intro: finite_subset)

definition scanned :: "string \<Rightarrow> nat \<Rightarrow> nat \<Rightarrow> nat \<Rightarrow> nat \<Rightarrow> bool" where
  "scanned content p k e k' \<longleftrightarrow> p \<le> e \<and> (\<exists>S. escapes content S p e \<and> k' = k + card S)"

lemma scanned_escape:
  assumes "scanned content (p + 2) (k + 1) e k'" and "content ! p = CHR 0x5C"
  shows "scanned content p k e k'"
proof -
  from assms obtain S where S: "escapes content S (p + 2) e" "k' = k + 1 + card S" and e: "p + 2 \<le> e"
    by (auto simp: scanned_def)
  then have "p \<notin> S" "Suc p \<notin> S" by (auto simp: escapes_def)
  with S e assms(2) escapes_finite [OF S(1)] have "escapes content (insert p S) p e" "k' = k + card (insert p S)"
    by (auto simp: escapes_def)
  with e show ?thesis unfolding scanned_def by (auto intro: exI [of _ "insert p S"])
qed

lemma scanned_char:
  assumes "scanned content (p + 1) k e k'"
  shows "scanned content p k e k'"
proof -
  have "escapes content S (p + 1) e \<Longrightarrow> escapes content S p e" for S by (auto simp: escapes_def)
  with assms show ?thesis unfolding scanned_def by (metis add_leD1)
qed

lemma scanned_refl: "scanned content p k p k"
  by (auto simp: scanned_def escapes_def intro: exI [of _ "{}"])

lemma scan_string_ok:
  "len \<le> length content \<Longrightarrow> p \<le> len \<Longrightarrow>
    \<exists>r. scan_string content len p k = Inr r \<and> (\<forall>e k'. r = Some (e, k') \<longrightarrow> scanned content p k e k' \<and> e \<le> len)"
proof (induction content len p k rule: scan_string.induct)
  case (1 content len p k)
  consider "\<not> (p < len \<and> content ! p \<noteq> CHR 0x22)"
    | "p < len" "content ! p = CHR 0x5C" "len \<le> p + 1"
    | "p < len" "content ! p = CHR 0x5C" "p + 2 \<le> len"
    | "p < len" "content ! p \<noteq> CHR 0x22" "content ! p \<noteq> CHR 0x5C" by linarith
  then show ?case
  proof cases
    case 1
    with "1.prems" scanned_refl show ?thesis by (subst scan_string.simps) auto
  next
    case 2
    with "1.prems" show ?thesis by (subst scan_string.simps) simp
  next
    case 3
    with "1.IH"(1) [of "content ! p"] "1.prems" obtain r where
      "scan_string content len (p + 2) (k + 1) = Inr r"
      "\<forall>e k'. r = Some (e, k') \<longrightarrow> scanned content (p + 2) (k + 1) e k' \<and> e \<le> len" by auto
    with 3 "1.prems" scanned_escape show ?thesis by (subst scan_string.simps) auto
  next
    case 4
    with "1.IH"(2) [of "content ! p"] "1.prems" obtain r where
      "scan_string content len (p + 1) k = Inr r"
      "\<forall>e k'. r = Some (e, k') \<longrightarrow> scanned content (p + 1) k e k' \<and> e \<le> len" by auto
    with 4 "1.prems" scanned_char show ?thesis by (subst scan_string.simps) auto
  qed
qed

text \<open>Bytes the block has left for the rest of the literal, and what each token uses of them.\<close>

definition room :: "nat set \<Rightarrow> nat \<Rightarrow> nat \<Rightarrow> nat" where
  "room S e i = (e - i) - card (S \<inter> {i..<e})"

lemma no_neighbours_card:
  assumes "\<forall>j\<in>S. Suc j \<notin> S"
  shows "card (S \<inter> {i..<i + 2 * k}) \<le> k"
proof (induction k)
  case (Suc k)
  have split: "S \<inter> {i..<i + 2 * Suc k} =
      S \<inter> {i..<i + 2 * k} \<union> S \<inter> {i + 2 * k, Suc (i + 2 * k)}" by auto
  have "card (S \<inter> {i + 2 * k, Suc (i + 2 * k)}) \<le> 1"
    using assms by (cases "i + 2 * k \<in> S"; cases "Suc (i + 2 * k) \<in> S") auto
  with Suc card_Un_le [of "S \<inter> {i..<i + 2 * k}" "S \<inter> {i + 2 * k, Suc (i + 2 * k)}"] show ?case
    unfolding split by linarith
qed simp

lemma room_step:
  assumes "escapes content S p e" and "i + 2 * k \<le> e"
  shows "k + room S e (i + 2 * k) \<le> room S e i"
proof -
  have "S \<inter> {i..<e} = S \<inter> {i..<i + 2 * k} \<union> S \<inter> {i + 2 * k..<e}" using assms(2) by auto
  then have "card (S \<inter> {i..<e}) \<le> card (S \<inter> {i..<i + 2 * k}) + card (S \<inter> {i + 2 * k..<e})"
    by (metis card_Un_le)
  moreover have "card (S \<inter> {i..<i + 2 * k}) \<le> k"
    using no_neighbours_card assms(1) by (auto simp: escapes_def)
  moreover have "card (S \<inter> {i + 2 * k..<e}) \<le> e - (i + 2 * k)"
    using card_mono [of "{i + 2 * k..<e}" "S \<inter> {i + 2 * k..<e}"] by simp
  ultimately show ?thesis using assms(2) unfolding room_def by linarith
qed

lemma room_last: "escapes content S p e \<Longrightarrow> Suc i = e \<Longrightarrow> room S e i = 1"
  by (auto simp: room_def escapes_def) 

lemma room_char:
  assumes "i \<notin> S" and "i < e"
  shows "Suc (room S e (Suc i)) \<le> room S e i"
proof -
  have "S \<inter> {i..<e} = S \<inter> {Suc i..<e}" using assms by (auto simp: Suc_le_eq le_less)
  moreover have "card (S \<inter> {Suc i..<e}) \<le> e - Suc i"
    using card_mono [of "{Suc i..<e}" "S \<inter> {Suc i..<e}"] by simp
  ultimately show ?thesis using assms(2) unfolding room_def by simp
qed

lemma room_escape:
  assumes "escapes content S p e" and "i < e"
  shows "Suc (room S e (i + 2)) \<le> room S e i"
proof (cases "i + 2 \<le> e")
  case True
  with room_step [OF assms(1), of i 1] show ?thesis by simp
next
  case False
  with assms have "Suc i = e" by simp
  with room_last [OF assms(1)] show ?thesis by (simp add: room_def)
qed

definition unescape_ok :: "nat \<Rightarrow> nat \<Rightarrow> (nat + string) access \<Rightarrow> bool" where
  "unescape_ok e n r \<longleftrightarrow> (\<exists>v. r = Inr v \<and> (\<forall>q. v = Inl q \<longrightarrow> q < e) \<and> (\<forall>out. v = Inr out \<longrightarrow> length out \<le> n))"

lemma unescape_ok_mono: "unescape_ok e m r \<Longrightarrow> m \<le> n \<Longrightarrow> unescape_ok e n r"
  by (auto simp: unescape_ok_def)

lemma unescape_more:
  assumes step: "length bytes + room S e j \<le> room S e i" and cap: "length out + room S e i \<le> cap"
    and ih: "\<And>out'. length out' + room S e j \<le> cap \<Longrightarrow> put_bytes cap out bytes = Inr out' \<Longrightarrow>
      unescape_ok e (length out' + room S e j) (unescape content e cap j out')"
  shows "unescape_ok e (length out + room S e i) (acc_bind (put_bytes cap out bytes) (unescape content e cap j))"
proof -
  from step cap have put: "put_bytes cap out bytes = Inr (out @ bytes)" by (simp add: put_bytes_def)
  with step cap ih [of "out @ bytes"] show ?thesis by (auto intro: unescape_ok_mono)
qed

lemma unescape_is_ok:
  "escapes content S p e \<Longrightarrow> e < length content \<Longrightarrow> length out + room S e i \<le> cap \<Longrightarrow>
    unescape_ok e (length out + room S e i) (unescape content e cap i out)"
proof (induction content e cap i out rule: unescape.induct)
  case (1 content e cap i out)
  note next_token = "1.IH" and S = "1.prems"(1) and e = "1.prems"(2) and cap = "1.prems"(3)
  note more = unescape_more [OF _ cap]
  show ?case
  proof (cases "i < e")
    case False
    then show ?thesis by (subst unescape.simps) (simp add: unescape_ok_def)
  next
    case i: True
    with e have at: "char_at content i = Inr (content ! i)" "char_at content (i + 1) = Inr (content ! (i + 1))"
      by simp_all
    from utf16_literal_ok [of e content i] e obtain n bytes where
      u: "utf16_literal_to_utf8 content i e = Inr (n, bytes)"
        "n \<noteq> 0 \<longrightarrow> i + n \<le> e \<and> even n \<and> 2 * length bytes \<le> n" by auto
    consider "content ! i \<noteq> CHR 0x5C"
      | x where "content ! i = CHR 0x5C" "simple_escape (content ! (i + 1)) = Some x"
      | "content ! i = CHR 0x5C" "simple_escape (content ! (i + 1)) = None" "content ! (i + 1) = CHR ''u''" "n \<noteq> 0"
      | "content ! i = CHR 0x5C" "simple_escape (content ! (i + 1)) = None" "content ! (i + 1) \<noteq> CHR ''u'' \<or> n = 0"
      by (metis not_None_eq)
    then show ?thesis
    proof cases
      case 1
      with S have "i \<notin> S" by (auto simp: escapes_def)
      then have "unescape_ok e (length out + room S e i)
          (acc_bind (put_bytes cap out [content ! i]) (unescape content e cap (i + 1)))"
        using next_token(1) [OF i at(1) 1] S e i room_char [of i S e] by (intro more) auto
      with 1 i at show ?thesis by (subst unescape.simps) simp
    next
      case 2
      then have "unescape_ok e (length out + room S e i)
          (acc_bind (put_bytes cap out [x]) (unescape content e cap (i + 2)))"
        using next_token(3) [OF i at(1) _ _ at(2) 2(2)] S e i room_escape [OF S i] by (intro more) auto
      with 2 i at show ?thesis by (subst unescape.simps) simp
    next
      case 3
      with u(2) obtain k where k: "n = 2 * k" "i + 2 * k \<le> e" "length bytes \<le> k" by auto
      with room_step [OF S k(2)] have "length bytes + room S e (i + n) \<le> room S e i" by simp
      then have "unescape_ok e (length out + room S e i)
          (acc_bind (put_bytes cap out bytes) (unescape content e cap (i + n)))"
        using next_token(2) [OF i at(1) _ _ at(2) 3(2,3) u(1) refl 3(4)] 3(1) S e i by (intro more) auto
      with 3 i at u(1) show ?thesis by (subst unescape.simps) simp
    next
      case 4
      with i at u(1) show ?thesis
        by (subst unescape.simps) (auto simp: unescape_ok_def)
    qed
  qed
qed

lemma parse_string_ok:
  assumes b: "inside b"
  shows "parsed_ok (\<lambda>s. 1) (\<lambda>s. 0) 0 b (parse_string b)"
proof -
  let ?c = "pb_content b" and ?n = "pb_length b" and ?p = "pb_offset b + 1"
  from b have len: "?n \<le> length ?c" "?p \<le> ?n" "pb_offset b < length ?c" "pb_depth b \<le> CJSON_NESTING_LIMIT"
    by (auto simp: inside_def wf_buffer_def)
  from scan_string_ok [OF len(1,2), of 0] obtain r where r: "scan_string ?c ?n ?p 0 = Inr r"
    "\<And>e k. r = Some (e, k) \<Longrightarrow> scanned ?c ?p 0 e k \<and> e \<le> ?n" by auto
  show ?thesis
  proof (cases "\<exists>e k. r = Some (e, k) \<and> e < ?n \<and> ?c ! e = CHR 0x22 \<and> ?c ! pb_offset b = CHR 0x22")
    case False
    with r len b show ?thesis
      by (auto simp: parse_string_def Let_def parsed_ok_def text_kept_def split: option.splits)
  next
    case True
    then obtain e k where e: "r = Some (e, k)" "e < ?n" "?c ! e = CHR 0x22" "?c ! pb_offset b = CHR 0x22" by auto
    from r(2) [OF e(1)] obtain S where S: "escapes ?c S ?p e" "k = card S" "?p \<le> e"
      by (auto simp: scanned_def)
    let ?cap = "Suc (e - pb_offset b - k)"
    have "card S \<le> e - ?p" "room S e ?p = e - ?p - card S"
      using S(1) card_mono [of "{?p..<e}" S] by (auto simp: escapes_def room_def inf_absorb1)
    with S have room: "Suc (room S e ?p) < ?cap" by linarith
    obtain ok h where h: "allocate (pb_heap b) = (ok, h)" by fastforce
    from unescape_is_ok [OF S(1), of "[]" ?p ?cap] room e(2) len obtain v where
      v: "unescape ?c e ?cap ?p [] = Inr v" "\<And>q. v = Inl q \<Longrightarrow> q < e" "\<And>out. v = Inr out \<Longrightarrow> length out \<le> room S e ?p"
      by (auto simp: unescape_ok_def)
    show ?thesis
    proof (cases v)
      case (Inl q)
      with v e r(1) h len allocate_live [OF h] S(3) show ?thesis
        by (auto simp: parse_string_def Let_def parsed_ok_def text_kept_def)
    next
      case (Inr out)
      with v(3) room have "put_bytes ?cap out [nul] = Inr (out @ [nul])"
        by (simp add: put_bytes_def)
      with Inr v(1) e r(1) h len allocate_live [OF h] S(3) show ?thesis
        by (auto simp: parse_string_def Let_def parsed_ok_def text_kept_def)
    qed
  qed
qed

subsection \<open>Values, arrays and objects\<close>

lemma parsed_okE [consumes 1, case_names failed parsed]:
  assumes "parsed_ok own high base b r"
  obtains (failed) b' where "r = Inr (None, b')" "text_kept b b'" "pb_offset b' \<le> pb_length b"
      "hp_live (pb_heap b') = hp_live (pb_heap b) - base"
    | (parsed) x b' where "r = Inr (Some x, b')" "text_kept b b'" "pb_offset b' \<le> pb_length b"
      "pb_offset b < pb_offset b'" "pb_depth b' = pb_depth b" "high x + pb_depth b \<le> CJSON_NESTING_LIMIT"
      "hp_live (pb_heap b') = hp_live (pb_heap b) + own x - base"
proof -
  from assms obtain v b' where "r = Inr (v, b')" "text_kept b b'" "pb_offset b' \<le> pb_length b"
    "case v of None \<Rightarrow> hp_live (pb_heap b') = hp_live (pb_heap b) - base
     | Some x \<Rightarrow> pb_offset b < pb_offset b' \<and> pb_depth b' = pb_depth b \<and>
         high x + pb_depth b \<le> CJSON_NESTING_LIMIT \<and>
         hp_live (pb_heap b') = hp_live (pb_heap b) + own x - base"
    unfolding parsed_ok_def by blast
  with failed parsed show ?thesis by (cases v) simp_all
qed

lemma parsed_ok_wf: "wf_buffer b \<Longrightarrow> text_kept b b' \<Longrightarrow> pb_offset b' \<le> pb_length b \<Longrightarrow>
    pb_depth b' = pb_depth b \<Longrightarrow> wf_buffer b'"
  by (simp add: wf_buffer_def text_kept_def)

lemma parse_fail_ok:
  "text_kept b b' \<Longrightarrow> pb_offset b' \<le> pb_length b \<Longrightarrow>
    hp_live (pb_heap b') = hp_live (pb_heap b) - base \<Longrightarrow> parsed_ok own high base b (parse_fail b')"
  by (simp add: parsed_ok_def parse_fail_def)

lemma text_kept_trans: "text_kept a b \<Longrightarrow> text_kept b c \<Longrightarrow> text_kept a c"
  by (simp add: text_kept_def)

definition ample :: "nat \<Rightarrow> parse_buffer \<Rightarrow> bool" where
  "ample n b \<longleftrightarrow> 3 * (pb_length b - pb_offset b) \<le> n"

definition values_ok :: "nat \<Rightarrow> bool" where
  "values_ok n \<longleftrightarrow> (\<forall>b. wf_buffer b \<and> ample (n - 1) b \<and> 0 < n \<longrightarrow>
     parsed_ok owned height 0 b (parse_value n b))"

definition nested_ok :: "(nat \<Rightarrow> parse_buffer \<Rightarrow> cJSON parsed) \<Rightarrow> nat \<Rightarrow> bool" where
  "nested_ok p n \<longleftrightarrow> (\<forall>b. inside b \<and> ample n b \<longrightarrow> parsed_ok owned height 0 b (p n b))"

definition elements_ok :: "nat \<Rightarrow> bool" where
  "elements_ok n \<longleftrightarrow> (\<forall>b items. inside b \<and> ample (Suc n) b \<and> heights items + pb_depth b \<le> CJSON_NESTING_LIMIT \<longrightarrow>
     parsed_ok (\<lambda>xs. owned (cJSON_Array xs)) heights (owned (cJSON_Array items)) b (parse_elements n items b))"

definition members_ok :: "nat \<Rightarrow> bool" where
  "members_ok n \<longleftrightarrow> (\<forall>b items. inside b \<and> ample (Suc n) b \<and>
       heights (map snd items) + pb_depth b \<le> CJSON_NESTING_LIMIT \<longrightarrow>
     parsed_ok (\<lambda>kvs. owned (cJSON_Object kvs)) (\<lambda>kvs. heights (map snd kvs))
       (owned (cJSON_Object items)) b (parse_members n items b))"

lemma parse_value_step:
  assumes "nested_ok parse_array n" and "nested_ok parse_object n"
  shows "values_ok (Suc n)"
  unfolding values_ok_def
proof (intro allI impI)
  fix b
  assume "wf_buffer b \<and> ample (Suc n - 1) b \<and> 0 < Suc n"
  then have b: "wf_buffer b" and f: "ample n b" by simp_all
  from literal_at_ok [OF b] obtain l1 l2 l3 where
    l: "literal_at b ''null'' = Inr l1" "literal_at b ''false'' = Inr l2" "literal_at b ''true'' = Inr l3"
    by metis
  note lit = literal_at_True [of b "''null''"] literal_at_True [of b "''false''"] literal_at_True [of b "''true''"]
  consider "l1 \<or> l2 \<or> l3" | "\<not> l1" "\<not> l2" "\<not> l3" "pb_offset b = pb_length b"
    | "\<not> l1" "\<not> l2" "\<not> l3" "inside b"
    using b by (fastforce simp: inside_def wf_buffer_def)
  then show "parsed_ok owned height 0 b (parse_value (Suc n) b)"
  proof cases
    case 1
    with l lit b show ?thesis
      by (auto simp: parse_value.simps parsed_ok_def advance_def text_kept_def wf_buffer_def)
  next
    case 2
    with l peek_ok [OF b] show ?thesis
      by (auto simp: parse_value.simps intro!: parse_fail_ok simp: text_kept_def)
  next
    case 3
    let ?x = "pb_content b ! pb_offset b"
    from 3(4) peek_ok [OF b] have p: "peek b = Inr (Some ?x)" by (simp add: inside_def)
    from 3(4) f assms have nested: "parsed_ok owned height 0 b (parse_array n b)"
      "parsed_ok owned height 0 b (parse_object n b)" by (simp_all add: nested_ok_def)
    from parse_string_ok [OF 3(4)] have str: "parsed_ok owned height 0 b (acc_bind (parse_string b)
        (\<lambda>(s, b'). Inr (map_option (\<lambda>s. cJSON_String (Some s)) s, b')))"
      by (cases rule: parsed_okE) (auto simp: parsed_ok_def)
    from b have "parsed_ok owned height 0 b (parse_fail b)"
      by (intro parse_fail_ok) (simp_all add: text_kept_def wf_buffer_def)
    with 3 l p nested str parse_number_ok [OF b] show ?thesis by (simp add: parse_value.simps)
  qed
qed

text \<open>A parse that continues from \<open>b'\<close> is one from \<open>b\<close>, when \<open>b'\<close> holds what \<open>base'\<close> says.\<close>

lemma parsed_ok_from:
  assumes "parsed_ok own high base' b' r" and "text_kept b b'" and "pb_offset b \<le> pb_offset b'"
    and "pb_depth b' = pb_depth b" and "hp_live (pb_heap b') - base' = hp_live (pb_heap b) - base"
  shows "parsed_ok own high base b r"
  using assms(1)
proof (cases rule: parsed_okE)
  case (failed c)
  with assms show ?thesis by (auto simp: parsed_ok_def text_kept_def)
next
  case (parsed x c)
  with assms show ?thesis by (auto simp: parsed_ok_def text_kept_def)
qed

text \<open>The end of a loop body, shared by arrays and objects: white space, then a comma or not.\<close>

lemma loop_tail_ok:
  assumes b': "wf_buffer b'" "text_kept b b'" "pb_offset b + 2 \<le> pb_offset b'" "pb_depth b' = pb_depth b"
    and live: "hp_live (pb_heap b') - own xs = hp_live (pb_heap b) - base"
    and high: "high xs + pb_depth b \<le> CJSON_NESTING_LIMIT"
    and f: "ample (Suc (Suc n)) b"
    and again: "\<And>c. inside c \<Longrightarrow> ample (Suc n) c \<Longrightarrow> pb_depth c = pb_depth b \<Longrightarrow>
      parsed_ok own high (own xs) c (next_item c)"
  shows "parsed_ok own high base b
    (acc_bind (buffer_skip_whitespace b') (\<lambda>c. acc_bind (peek c) (\<lambda>x.
       if x = Some (CHR '','') then next_item c else Inr (Some xs, c))))"
proof -
  from b'(1) obtain c where c: "buffer_skip_whitespace b' = Inr c" "wf_buffer c" "text_kept b' c"
    "pb_depth c = pb_depth b'" "pb_heap c = pb_heap b'" "pb_offset b' \<le> pb_offset c"
    by (rule buffer_skip_whitespace_ok)
  then have kept: "text_kept b c" "pb_offset b + 2 \<le> pb_offset c" "pb_depth c = pb_depth b"
    "hp_live (pb_heap c) - own xs = hp_live (pb_heap b) - base"
    using b' live by (auto simp: text_kept_def)
  show ?thesis
  proof (cases "peek c = Inr (Some (CHR '',''))")
    case True
    with peek_ok [OF c(2)] have "pb_offset c < pb_length c" by (simp split: if_splits)
    with c(2) f kept have "inside c" "ample (Suc n) c" by (auto simp: inside_def ample_def text_kept_def)
    from parsed_ok_from [OF again [OF this kept(3)] kept(1) _ kept(3,4)] kept(2) True c(1)
    show ?thesis by simp
  next
    case False
    with c(1,2) peek_ok [OF c(2)] kept high show ?thesis
      by (auto simp: parsed_ok_def wf_buffer_def text_kept_def)
  qed
qed

text \<open>The head of a loop body: one more node, past the bracket or comma, white space.\<close>

lemma loop_head_ok:
  assumes "inside b"
  obtains b' where "buffer_skip_whitespace (advance 1 (b\<lparr>pb_heap := h\<rparr>)) = Inr b'" "wf_buffer b'" "text_kept b b'"
    "pb_depth b' = pb_depth b" "pb_heap b' = h" "pb_offset b < pb_offset b'"
    "pb_offset b + 1 < pb_length b \<Longrightarrow> pb_offset b' < pb_length b"
proof -
  from assms have "wf_buffer (advance 1 (b\<lparr>pb_heap := h\<rparr>))" by (simp add: inside_def wf_buffer_def advance_def)
  then show thesis by (rule buffer_skip_whitespace_ok) (rule that, auto simp: text_kept_def advance_def)
qed

lemma value_at_ok:
  assumes "values_ok n" and "wf_buffer b'" and "text_kept b b'" and "pb_offset b < pb_offset b'"
    and "inside b" and "ample (Suc (Suc n)) b"
  shows "parsed_ok owned height 0 b' (parse_value n b')"
proof -
  from assms have "ample (n - 1) b'" "0 < n" by (auto simp: ample_def text_kept_def inside_def)
  with assms show ?thesis by (simp add: values_ok_def)
qed

lemma new_item_live:
  "cJSON_New_Item h = (ok, h') \<Longrightarrow> hp_live h' = hp_live h + (if ok then 1 else 0)"
  by (simp add: cJSON_New_Item_def allocate_live)

lemma elements_okD:
  "elements_ok n \<Longrightarrow> inside b \<Longrightarrow> ample (Suc n) b \<Longrightarrow> heights items + pb_depth b \<le> CJSON_NESTING_LIMIT \<Longrightarrow>
    parsed_ok (\<lambda>xs. owned (cJSON_Array xs)) heights (owned (cJSON_Array items)) b (parse_elements n items b)"
  by (simp only: elements_ok_def)

lemma members_okD:
  "members_ok n \<Longrightarrow> inside b \<Longrightarrow> ample (Suc n) b \<Longrightarrow> heights (map snd items) + pb_depth b \<le> CJSON_NESTING_LIMIT \<Longrightarrow>
    parsed_ok (\<lambda>kvs. owned (cJSON_Object kvs)) (\<lambda>kvs. heights (map snd kvs))
      (owned (cJSON_Object items)) b (parse_members n items b)"
  by (simp only: members_ok_def)

lemma parse_elements_step:
  assumes "values_ok n" and "elements_ok n"
  shows "elements_ok (Suc n)"
  unfolding elements_ok_def
proof (intro allI impI)
  fix b items
  assume "inside b \<and> ample (Suc (Suc n)) b \<and> heights items + pb_depth b \<le> CJSON_NESTING_LIMIT"
  then have b: "inside b" and f: "ample (Suc (Suc n)) b" and hi: "heights items + pb_depth b \<le> CJSON_NESTING_LIMIT"
    by simp_all
  then have off: "pb_offset b < pb_length b" by (simp add: inside_def)
  obtain ok h where h: "cJSON_New_Item (pb_heap b) = (ok, h)" by fastforce
  note live = new_item_live [OF h]
  let ?own = "\<lambda>xs. owned (cJSON_Array xs)"
  from b obtain b1 where b1: "buffer_skip_whitespace (advance 1 (b\<lparr>pb_heap := h\<rparr>)) = Inr b1" "wf_buffer b1"
    "text_kept b b1" "pb_depth b1 = pb_depth b" "pb_heap b1 = h" "pb_offset b < pb_offset b1"
    by (rule loop_head_ok)
  from value_at_ok [OF assms(1) b1(2,3,6) b f]
  show "parsed_ok ?own heights (?own items) b (parse_elements (Suc n) items b)"
  proof (cases rule: parsed_okE)
    case (failed b2)
    with b1 h live off show ?thesis
      by (auto simp: parse_elements.simps text_kept_def intro!: parse_fail_ok)
  next
    case (parsed x b2)
    have "parsed_ok ?own heights (?own items) b (acc_bind (buffer_skip_whitespace b2) (\<lambda>c. acc_bind (peek c) (\<lambda>y.
        if y = Some (CHR '','') then parse_elements n (items @ [x]) c else Inr (Some (items @ [x]), c))))" if ok
    proof (rule loop_tail_ok [OF _ _ _ _ _ _ f])
      show "wf_buffer b2" using parsed b1(2) parsed_ok_wf by blast
      show "parsed_ok ?own heights (?own (items @ [x])) c (parse_elements n (items @ [x]) c)"
        if "inside c" "ample (Suc n) c" "pb_depth c = pb_depth b" for c
        by (rule elements_okD [OF assms(2) that(1,2)]) (use that parsed hi b1 in auto)
    qed (use that parsed b1 live hi in \<open>auto simp: text_kept_def\<close>)
    with b1 h live off parsed(1) show ?thesis
      by (auto simp: parse_elements.simps text_kept_def intro!: parse_fail_ok)
  qed
qed

text \<open>The name of a member, up to its colon: the node and the name are the two new blocks.\<close>

lemma member_name_ok:
  assumes b: "inside b" "pb_offset b + 1 < pb_length b"
  obtains (fail) b2 b1 where "buffer_skip_whitespace (advance 1 (b\<lparr>pb_heap := h\<rparr>)) = Inr b1"
      "parse_string b1 = Inr (None, b2)" "text_kept b b2" "pb_offset b2 \<le> pb_length b"
      "hp_live (pb_heap b2) = hp_live h"
    | (name) s b2 b1 b3 where "buffer_skip_whitespace (advance 1 (b\<lparr>pb_heap := h\<rparr>)) = Inr b1"
      "parse_string b1 = Inr (Some s, b2)" "buffer_skip_whitespace b2 = Inr b3" "wf_buffer b3" "text_kept b b3"
      "pb_depth b3 = pb_depth b" "hp_live (pb_heap b3) = hp_live h + 1" "pb_offset b < pb_offset b3"
proof -
  from b(1) obtain b1 where b1: "buffer_skip_whitespace (advance 1 (b\<lparr>pb_heap := h\<rparr>)) = Inr b1" "wf_buffer b1"
    "text_kept b b1" "pb_depth b1 = pb_depth b" "pb_heap b1 = h" "pb_offset b < pb_offset b1" "pb_offset b1 < pb_length b"
    by (rule loop_head_ok) (use b(2) in auto)
  then have "inside b1" by (simp add: inside_def text_kept_def)
  from parse_string_ok [OF this] show thesis
  proof (cases rule: parsed_okE)
    case (failed b2)
    with b1 fail [of b1 b2] show thesis by (auto simp: text_kept_def)
  next
    case (parsed s b2)
    then have "wf_buffer b2" using b1(2) parsed_ok_wf by blast
    then obtain b3 where "buffer_skip_whitespace b2 = Inr b3" "wf_buffer b3" "text_kept b2 b3"
      "pb_depth b3 = pb_depth b2" "pb_heap b3 = pb_heap b2" "pb_offset b2 \<le> pb_offset b3"
      by (rule buffer_skip_whitespace_ok)
    with parsed b1 name [of b1 s b2 b3] show thesis by (auto simp: text_kept_def)
  qed
qed

text \<open>The value of a member, after the colon.\<close>

lemma member_value_ok:
  assumes "values_ok n" and "members_ok n" and b: "inside b" and f: "ample (Suc (Suc n)) b"
    and hi: "heights (map snd items) + pb_depth b \<le> CJSON_NESTING_LIMIT"
    and b3: "inside b3" "text_kept b b3" "pb_depth b3 = pb_depth b" "pb_offset b < pb_offset b3"
    and live: "hp_live (pb_heap b3) = hp_live (pb_heap b) + 2"
  shows "parsed_ok (\<lambda>kvs. owned (cJSON_Object kvs)) (\<lambda>kvs. heights (map snd kvs)) (owned (cJSON_Object items)) b
    (acc_bind (buffer_skip_whitespace (advance 1 b3)) (\<lambda>b4. acc_bind (parse_value n b4) (\<lambda>(v, b5).
       case v of
         None \<Rightarrow> parse_fail (b5\<lparr>pb_heap := delete_members (items @ [(name, cJSON_Invalid)]) (pb_heap b5)\<rparr>)
       | Some x \<Rightarrow>
           acc_bind (buffer_skip_whitespace b5) (\<lambda>b6. acc_bind (peek b6) (\<lambda>c.
             if c = Some (CHR '','') then parse_members n (items @ [(name, x)]) b6
             else Inr (Some (items @ [(name, x)]), b6))))))"
    (is "parsed_ok ?own ?high (?own items) b ?r")
proof -
  from b3(1) obtain b4 where b4: "buffer_skip_whitespace (advance 1 (b3\<lparr>pb_heap := pb_heap b3\<rparr>)) = Inr b4"
    "wf_buffer b4" "text_kept b3 b4" "pb_depth b4 = pb_depth b3" "pb_heap b4 = pb_heap b3" "pb_offset b3 < pb_offset b4"
    by (rule loop_head_ok)
  have kept: "text_kept b b4" "pb_offset b < pb_offset b4" "pb_depth b4 = pb_depth b"
    "buffer_skip_whitespace (advance 1 b3) = Inr b4" "hp_live (pb_heap b4) = hp_live (pb_heap b) + 2"
    using b3 b4 live by (auto simp: text_kept_def)
  from value_at_ok [OF assms(1) b4(2) kept(1,2) b f] show ?thesis
  proof (cases rule: parsed_okE)
    case (failed b5)
    with kept show ?thesis by (auto simp: text_kept_def intro!: parse_fail_ok)
  next
    case (parsed x b5)
    have "parsed_ok ?own ?high (?own items) b (acc_bind (buffer_skip_whitespace b5) (\<lambda>c. acc_bind (peek c) (\<lambda>y.
        if y = Some (CHR '','') then parse_members n (items @ [(name, x)]) c else Inr (Some (items @ [(name, x)]), c))))"
    proof (rule loop_tail_ok [OF _ _ _ _ _ _ f])
      show "wf_buffer b5" using parsed b4(2) parsed_ok_wf by blast
      show "parsed_ok ?own ?high (?own (items @ [(name, x)])) c (parse_members n (items @ [(name, x)]) c)"
        if "inside c" "ample (Suc n) c" "pb_depth c = pb_depth b" for c
        by (rule members_okD [OF assms(2) that(1,2)]) (use that parsed hi kept in auto)
    qed (use parsed kept hi in \<open>auto simp: text_kept_def\<close>)
    with kept parsed(1) show ?thesis by simp
  qed
qed

lemma parse_members_step:
  assumes "values_ok n" and "members_ok n"
  shows "members_ok (Suc n)"
  unfolding members_ok_def
proof (intro allI impI)
  fix b and items :: "(string \<times> cJSON) list"
  assume "inside b \<and> ample (Suc (Suc n)) b \<and> heights (map snd items) + pb_depth b \<le> CJSON_NESTING_LIMIT"
  then have b: "inside b" and f: "ample (Suc (Suc n)) b"
    and hi: "heights (map snd items) + pb_depth b \<le> CJSON_NESTING_LIMIT" by simp_all
  then have off: "pb_offset b < pb_length b" by (simp add: inside_def)
  obtain ok h where h: "cJSON_New_Item (pb_heap b) = (ok, h)" by fastforce
  note live = new_item_live [OF h]
  let ?ok = "parsed_ok (\<lambda>kvs. owned (cJSON_Object kvs)) (\<lambda>kvs. heights (map snd kvs)) (owned (cJSON_Object items)) b"
  show "?ok (parse_members (Suc n) items b)"
  proof (cases "ok \<and> pb_offset b + 1 < pb_length b")
    case False
    with h live off show ?thesis
      by (auto simp: parse_members.simps can_access_at_index_def text_kept_def Let_def intro!: parse_fail_ok)
  next
    case True
    with h have can: "can_access_at_index (b\<lparr>pb_heap := h\<rparr>) 1" by (simp add: can_access_at_index_def)
    from True have "pb_offset b + 1 < pb_length b" by simp
    with b show ?thesis
    proof (cases rule: member_name_ok [where h = h])
      case (fail b2 b1)
      with h live True can show ?thesis
        by (auto simp: parse_members.simps text_kept_def intro!: parse_fail_ok)
    next
      case (name s b2 b1 b3)
      show ?thesis
      proof (cases "peek b3 = Inr (Some (CHR '':''))")
        case colon: True
        with peek_ok [OF name(4)] name(4) have "inside b3" by (simp add: inside_def split: if_splits)
        from member_value_ok [OF assms b f hi this name(5,6,8), of s] colon name h live True can
        show ?thesis by (simp add: parse_members.simps)
      next
        case False
        with peek_ok [OF name(4)] name h live True can show ?thesis
          by (auto simp: parse_members.simps text_kept_def wf_buffer_def intro!: parse_fail_ok)
      qed
    qed
  qed
qed

text \<open>The opening of an array or object: one level deeper, past the bracket, white space.\<close>

lemma open_nested_ok:
  assumes "inside b" and "pb_depth b < CJSON_NESTING_LIMIT" and "ample (Suc n) b"
  obtains b2 where "buffer_skip_whitespace (advance 1 (b\<lparr>pb_depth := pb_depth b + 1\<rparr>)) = Inr b2"
    "peek b2 = Inr (if pb_offset b2 < pb_length b2 then Some (pb_content b2 ! pb_offset b2) else None)"
    "text_kept b b2" "pb_depth b2 = pb_depth b + 1" "pb_heap b2 = pb_heap b" "pb_offset b < pb_offset b2"
    "pb_offset b2 \<le> pb_length b"
    "pb_offset b2 < pb_length b2 \<longrightarrow> inside (b2\<lparr>pb_offset := pb_offset b2 - 1\<rparr>) \<and>
       ample (Suc n) (b2\<lparr>pb_offset := pb_offset b2 - 1\<rparr>)"
proof -
  from assms have "wf_buffer (advance 1 (b\<lparr>pb_depth := pb_depth b + 1\<rparr>))"
    by (simp add: inside_def wf_buffer_def advance_def)
  then obtain b2 where "buffer_skip_whitespace (advance 1 (b\<lparr>pb_depth := pb_depth b + 1\<rparr>)) = Inr b2" "wf_buffer b2"
    "text_kept b b2" "pb_depth b2 = pb_depth b + 1" "pb_heap b2 = pb_heap b" "pb_offset b < pb_offset b2"
    by (rule buffer_skip_whitespace_ok) (auto simp: text_kept_def advance_def)
  moreover from this assms(3) have "pb_offset b2 < pb_length b2 \<longrightarrow>
      inside (b2\<lparr>pb_offset := pb_offset b2 - 1\<rparr>) \<and> ample (Suc n) (b2\<lparr>pb_offset := pb_offset b2 - 1\<rparr>)"
    by (auto simp: inside_def wf_buffer_def text_kept_def ample_def)
  ultimately show thesis using that [of b2] peek_ok [of b2] by (simp add: wf_buffer_def text_kept_def)
qed

text \<open>The closing of an array or object, after the loop.\<close>

lemma close_nested_ok:
  assumes r: "parsed_ok own high 0 b2 r" and b: "text_kept b b2" "pb_depth b2 = pb_depth b + 1"
    "pb_heap b2 = pb_heap b" "pb_offset b \<le> pb_offset b2" "wf_buffer b2"
    and tree: "\<And>xs. owned (node xs) = own xs" "\<And>xs. height (node xs) = Suc (high xs)"
    and del: "\<And>xs h. hp_live (del xs h) = hp_live h - own xs"
  shows "parsed_ok owned height 0 b (acc_bind r (\<lambda>(r, b3).
     case r of
       None \<Rightarrow> parse_fail b3
     | Some items \<Rightarrow>
         acc_bind (peek b3) (\<lambda>c.
           if c \<noteq> Some bracket then parse_fail (b3\<lparr>pb_heap := del items (pb_heap b3)\<rparr>)
           else Inr (Some (node items), close_nested b3))))"
  using r
proof (cases rule: parsed_okE)
  case (failed b3)
  with b show ?thesis by (auto simp: text_kept_def intro!: parse_fail_ok)
next
  case (parsed xs b3)
  then have "wf_buffer b3" using b(5) parsed_ok_wf by blast
  from peek_ok [OF this] parsed b tree del show ?thesis
    by (auto simp: text_kept_def parsed_ok_def close_nested_def parse_fail_def)
qed

lemma nested_body_ok:
  assumes b: "inside b" "pb_depth b < CJSON_NESTING_LIMIT" "ample (Suc n) b"
    and loop: "\<And>c. inside c \<Longrightarrow> ample (Suc n) c \<Longrightarrow> pb_depth c \<le> CJSON_NESTING_LIMIT \<Longrightarrow>
      parsed_ok own high 0 c (loop c)"
    and tree: "\<And>xs. owned (node xs) = own xs" "\<And>xs. height (node xs) = Suc (high xs)" "own [] = 0" "high [] = 0"
    and del: "\<And>xs h. hp_live (del xs h) = hp_live h - own xs"
  shows "parsed_ok owned height 0 b
    (acc_bind (buffer_skip_whitespace (advance 1 (b\<lparr>pb_depth := pb_depth b + 1\<rparr>))) (\<lambda>b2.
       acc_bind (peek b2) (\<lambda>c.
         if c = Some bracket then Inr (Some (node []), close_nested b2)
         else if c = None then parse_fail (b2\<lparr>pb_offset := pb_offset b2 - 1\<rparr>)
         else acc_bind (loop (b2\<lparr>pb_offset := pb_offset b2 - 1\<rparr>)) (\<lambda>(r, b3).
           case r of
             None \<Rightarrow> parse_fail b3
           | Some items \<Rightarrow>
               acc_bind (peek b3) (\<lambda>c.
                 if c \<noteq> Some bracket then parse_fail (b3\<lparr>pb_heap := del items (pb_heap b3)\<rparr>)
                 else Inr (Some (node items), close_nested b3))))))"
proof -
  from b obtain b2 where b2: "buffer_skip_whitespace (advance 1 (b\<lparr>pb_depth := pb_depth b + 1\<rparr>)) = Inr b2"
    "peek b2 = Inr (if pb_offset b2 < pb_length b2 then Some (pb_content b2 ! pb_offset b2) else None)"
    "text_kept b b2" "pb_depth b2 = pb_depth b + 1" "pb_heap b2 = pb_heap b" "pb_offset b < pb_offset b2"
    "pb_offset b2 \<le> pb_length b"
    "pb_offset b2 < pb_length b2 \<longrightarrow> inside (b2\<lparr>pb_offset := pb_offset b2 - 1\<rparr>) \<and>
       ample (Suc n) (b2\<lparr>pb_offset := pb_offset b2 - 1\<rparr>)"
    by (rule open_nested_ok)
  show ?thesis
  proof (cases "pb_offset b2 < pb_length b2 \<and> pb_content b2 ! pb_offset b2 \<noteq> bracket")
    case True
    with b2(4,8) b have "parsed_ok own high 0 (b2\<lparr>pb_offset := pb_offset b2 - 1\<rparr>) (loop (b2\<lparr>pb_offset := pb_offset b2 - 1\<rparr>))"
      by (intro loop) auto
    from close_nested_ok [OF this, of b node del bracket] True b b2 tree del show ?thesis
      by (auto simp: text_kept_def inside_def)
  next
    case False
    with b b2 tree show ?thesis
      by (auto simp: text_kept_def parsed_ok_def close_nested_def parse_fail_def)
  qed
qed

lemma parse_array_step:
  assumes "elements_ok n"
  shows "nested_ok parse_array (Suc n)"
  unfolding nested_ok_def
proof (intro allI impI)
  fix b
  assume b: "inside b \<and> ample (Suc n) b"
  then have at: "char_at (pb_content b) (pb_offset b) = Inr (pb_content b ! pb_offset b)" "pb_offset b \<le> pb_length b"
    by (auto simp: inside_def wf_buffer_def)
  show "parsed_ok owned height 0 b (parse_array (Suc n) b)"
  proof (cases "CJSON_NESTING_LIMIT \<le> pb_depth b \<or> pb_content b ! pb_offset b \<noteq> CHR ''[''")
    case True
    with at show ?thesis by (auto simp: parse_array.simps text_kept_def intro!: parse_fail_ok)
  next
    case False
    have "parsed_ok (\<lambda>xs. owned (cJSON_Array xs)) heights 0 c (parse_elements n [] c)"
      if "inside c" "ample (Suc n) c" "pb_depth c \<le> CJSON_NESTING_LIMIT" for c
      using elements_okD [OF assms that(1,2), of "[]"] that(3) by simp
    from nested_body_ok [where n = n and b = b and node = cJSON_Array and del = delete_items and bracket = "CHR '']''",
        OF _ _ _ this] False b at show ?thesis
      by (simp add: parse_array.simps)
  qed
qed

lemma parse_object_step:
  assumes "members_ok n"
  shows "nested_ok parse_object (Suc n)"
  unfolding nested_ok_def
proof (intro allI impI)
  fix b
  assume b: "inside b \<and> ample (Suc n) b"
  then have at: "peek (b\<lparr>pb_depth := pb_depth b + 1\<rparr>) = Inr (Some (pb_content b ! pb_offset b))" "pb_offset b \<le> pb_length b"
    by (auto simp: inside_def wf_buffer_def peek_def can_access_at_index_def)
  show "parsed_ok owned height 0 b (parse_object (Suc n) b)"
  proof (cases "CJSON_NESTING_LIMIT \<le> pb_depth b \<or> pb_content b ! pb_offset b \<noteq> CHR ''{''")
    case True
    with at show ?thesis by (auto simp: parse_object.simps text_kept_def intro!: parse_fail_ok)
  next
    case False
    have "parsed_ok (\<lambda>kvs. owned (cJSON_Object kvs)) (\<lambda>kvs. heights (map snd kvs)) 0 c (parse_members n [] c)"
      if "inside c" "ample (Suc n) c" "pb_depth c \<le> CJSON_NESTING_LIMIT" for c
      using members_okD [OF assms that(1,2), of "[]"] that(3) by simp
    from nested_body_ok [where n = n and b = b and node = cJSON_Object and del = delete_members and bracket = "CHR ''}''",
        OF _ _ _ this] False b at show ?thesis
      by (simp add: parse_object.simps)
  qed
qed

text \<open>Every parsing function meets its contract once its fuel covers the rest of the text.\<close>

lemma no_fuel_ok:
  "values_ok 0" "nested_ok parse_array 0" "nested_ok parse_object 0" "elements_ok 0" "members_ok 0"
  by (auto simp: values_ok_def nested_ok_def elements_ok_def members_ok_def ample_def inside_def)

lemma parsers_ok:
  "values_ok n \<and> nested_ok parse_array n \<and> nested_ok parse_object n \<and> elements_ok n \<and> members_ok n"
proof (induction n)
  case (Suc n)
  then show ?case
    using parse_value_step parse_array_step parse_object_step parse_elements_step parse_members_step by blast
qed (simp add: no_fuel_ok)

subsection \<open>The entry points\<close>

text \<open>
  What \<^verbatim>\<open>cJSON_ParseWithLengthOpts\<close> promises of a text of \<open>n\<close> characters: the tree owns
  the blocks added to the heap and is not too deep, and the error position is in the text.
\<close>

definition entry_ok :: "nat \<Rightarrow> c_heap \<Rightarrow> (cJSON option \<times> nat \<times> cjson_error \<times> c_heap) access \<Rightarrow> bool" where
  "entry_ok n h r \<longleftrightarrow>
     (\<exists>item parse_end err h'. r = Inr (item, parse_end, err, h') \<and> parse_end \<le> n \<and> err_set err = (item = None) \<and>
        err_position err < n \<and>
        (case item of
           None \<Rightarrow> hp_live h' = hp_live h
         | Some t \<Rightarrow> hp_live h' = hp_live h + 1 + owned t \<and> height t \<le> CJSON_NESTING_LIMIT))"

lemma error_position_less: "0 < pb_length b \<Longrightarrow> error_position b < pb_length b"
  by (simp add: error_position_def)

lemma cJSON_ParseWithLengthOpts_ok:
  assumes "length content = n" and "0 < n"
  shows "entry_ok n h (cJSON_ParseWithLengthOpts h (Some content) n null)"
proof -
  obtain ok h1 where h1: "cJSON_New_Item h = (ok, h1)" by fastforce
  note live = new_item_live [OF h1]
  let ?b = "\<lparr>pb_content = content, pb_length = n, pb_offset = 0, pb_depth = 0, pb_heap = h1\<rparr>"
  have "wf_buffer ?b" using assms by (simp add: wf_buffer_def)
  then obtain b2 where b2: "skip_utf8_bom ?b = Inr (Some b2)" "wf_buffer b2" "text_kept ?b b2"
    "pb_depth b2 = 0" "pb_heap b2 = h1"
    by (rule skip_utf8_bom_ok) simp_all
  from b2(2) obtain b3 where b3: "buffer_skip_whitespace b2 = Inr b3" "wf_buffer b3" "text_kept b2 b3"
    "pb_depth b3 = pb_depth b2" "pb_heap b3 = pb_heap b2"
    by (rule buffer_skip_whitespace_ok)
  from b2 b3 assms have b3_is: "pb_length b3 = n" "pb_depth b3 = 0" "pb_heap b3 = h1" by (auto simp: text_kept_def)
  then have "ample (parse_fuel n - 1) b3" "0 < parse_fuel n" by (auto simp: ample_def parse_fuel_def)
  with b3(2) parsers_ok [of "parse_fuel n"] have "parsed_ok owned height 0 b3 (parse_value (parse_fuel n) b3)"
    by (simp add: values_ok_def)
  then show ?thesis
  proof (cases rule: parsed_okE)
    case (failed b4)
    with h1 b2(1) b3(1) live b3_is assms error_position_less [of b4] error_position_less [of ?b] show ?thesis
      by (auto simp: cJSON_ParseWithLengthOpts_def Let_def entry_ok_def text_kept_def)
  next
    case (parsed t b4)
    then have "wf_buffer b4" using b3(2) parsed_ok_wf by blast
    then obtain b5 where b5: "buffer_skip_whitespace b4 = Inr b5" "wf_buffer b5" "text_kept b4 b5"
      "pb_heap b5 = pb_heap b4"
      by (rule buffer_skip_whitespace_ok)
    with parsed h1 b2(1) b3(1) live b3_is assms error_position_less [of b5] error_position_less [of ?b]
      peek_ok [OF b5(2)] show ?thesis
      by (auto simp: cJSON_ParseWithLengthOpts_def Let_def entry_ok_def text_kept_def wf_buffer_def)
  qed
qed

lemma cJSON_ParseWithOpts_ok:
  "entry_ok (length (c_str s) + 1) h (cJSON_ParseWithOpts err h (Some s) null)"
  unfolding cJSON_ParseWithOpts_def option.case by (rule cJSON_ParseWithLengthOpts_ok) simp_all

lemma cJSON_Parse_ok:
  obtains item err' h' where "cJSON_Parse err h (Some s) = Inr (item, err', h')"
    "err_position err' \<le> length (c_str s)" "err_set err' \<longleftrightarrow> item = None"
    "item = None \<Longrightarrow> hp_live h' = hp_live h"
    "\<And>t. item = Some t \<Longrightarrow> hp_live h' = hp_live h + 1 + owned t \<and> height t \<le> CJSON_NESTING_LIMIT"
proof -
  from cJSON_ParseWithOpts_ok [of s h err False] obtain item e err' h' where
    "cJSON_ParseWithOpts err h (Some s) False = Inr (item, e, err', h')" "err_position err' < length (c_str s) + 1"
    "err_set err' = (item = None)"
    "case item of None \<Rightarrow> hp_live h' = hp_live h
     | Some t \<Rightarrow> hp_live h' = hp_live h + 1 + owned t \<and> height t \<le> CJSON_NESTING_LIMIT"
    unfolding entry_ok_def by blast
  then show thesis by (intro that [of item err' h']) (auto simp: cJSON_Parse_def)
qed

text \<open>
  C17. The JSON reader is memory safe and returns on every text: whatever the characters and
  whatever \<^verbatim>\<open>malloc\<close> answers, \<^verbatim>\<open>cJSON_Parse\<close> never reads outside the text and its
  terminator, never writes outside the block of a string literal, and finishes within the
  fuel; a tree it returns has at most \<^verbatim>\<open>CJSON_NESTING_LIMIT\<close> levels, and the error position
  it records lies within the text.
\<close>

theorem cJSON_Parse_safe:
  "\<exists>item err' h'. cJSON_Parse err h (Some s) = Inr (item, err', h') \<and>
     (item = None \<longleftrightarrow> err_set err') \<and> err_position err' \<le> length (c_str s) \<and>
     (case item of None \<Rightarrow> True | Some t \<Rightarrow> height t \<le> CJSON_NESTING_LIMIT)"
  by (rule cJSON_Parse_ok [of err h s]) (auto split: option.splits)

text \<open>
  C18. The JSON reader gives back the memory it takes: a parse that fails, at any of its
  error exits or at any failed allocation, leaves as many live heap blocks as it found; one that
  succeeds adds the blocks of its tree, and \<^verbatim>\<open>cJSON_Delete\<close> of the tree gives all of them back.
\<close>

theorem cJSON_Parse_balanced:
  "\<exists>item err' h'. cJSON_Parse err h (Some s) = Inr (item, err', h') \<and>
     hp_live (case item of None \<Rightarrow> h' | Some t \<Rightarrow> cJSON_Delete t h') = hp_live h"
  by (rule cJSON_Parse_ok [of err h s]) (auto split: option.splits)

end
