(* ===== verification/Cjson_Grammar.thy ===== *)
theory Cjson_Grammar
  imports Cjson_Safety
begin

text \<open>
  The JSON reader accepts JSON: a grammar of documents with their values, after RFC 8259, and
  the proof that \<^verbatim>\<open>cJSON_Parse\<close> returns the value of every text of the grammar, whatever
  white space separates its tokens, as long as memory lasts, the nesting stays within
  \<^verbatim>\<open>CJSON_NESTING_LIMIT\<close> and no number is longer than the 63 characters of the parser's
  buffer. The grammar has no \<^verbatim>\<open>\u\<close> escapes; it reads the others.
\<close>

subsection \<open>The grammar\<close>

definition json_space :: "string \<Rightarrow> bool" where
  "json_space w \<longleftrightarrow> set w \<subseteq> {CHR '' '', CHR 0x09, CHR 0x0A, CHR 0x0D}"

text \<open>
  A number: sign, whole digits, optional fraction, optional exponent (letter, sign, digits);
  its value is the exact decimal, rounded once.
\<close>

type_synonym exponent = "char \<times> string \<times> string"

definition exponent_text :: "exponent option \<Rightarrow> string" where
  "exponent_text x = (case x of None \<Rightarrow> [] | Some (c, sg, ds) \<Rightarrow> c # sg @ ds)"

definition exponent_value :: "exponent option \<Rightarrow> int" where
  "exponent_value x = (case x of None \<Rightarrow> 0 | Some (c, sg, ds) \<Rightarrow>
     (if sg = ''-'' then - int (read_nat_acc 0 ds) else int (read_nat_acc 0 ds)))"

definition exponent_wf :: "exponent option \<Rightarrow> bool" where
  "exponent_wf x = (case x of None \<Rightarrow> True | Some (c, sg, ds) \<Rightarrow>
     c \<in> {CHR ''e'', CHR ''E''} \<and> sg \<in> {'''', ''+'', ''-''} \<and> ds \<noteq> [] \<and> list_all is_digit_char ds)"

definition fraction_text :: "string \<Rightarrow> string" where
  "fraction_text f = (if f = [] then [] else CHR ''.'' # f)"

definition number_text :: "bool \<Rightarrow> string \<Rightarrow> string \<Rightarrow> exponent option \<Rightarrow> string" where
  "number_text neg whole f x = (if neg then ''-'' else []) @ whole @ fraction_text f @ exponent_text x"

definition number_value :: "bool \<Rightarrow> string \<Rightarrow> string \<Rightarrow> exponent option \<Rightarrow> double" where
  "number_value neg whole f x =
     (let v = round64 (of_nat (read_nat_acc 0 (whole @ f)) * pow10 (exponent_value x - int (length f)))
      in if neg then dneg v else v)"

definition number_wf :: "string \<Rightarrow> string \<Rightarrow> exponent option \<Rightarrow> bool" where
  "number_wf whole f x \<longleftrightarrow> whole \<noteq> [] \<and> list_all is_digit_char whole \<and> list_all is_digit_char f \<and> exponent_wf x"

text \<open>The characters between the quotes, and what they stand for.\<close>

inductive json_chars :: "string \<Rightarrow> string \<Rightarrow> bool" where
  chars_Nil: "json_chars [] []"
| chars_plain: "c \<notin> {CHR 0x22, CHR 0x5C, nul} \<Longrightarrow> json_chars cs s \<Longrightarrow> json_chars (c # cs) (c # s)"
| chars_escape: "simple_escape e = Some c \<Longrightarrow> json_chars cs s \<Longrightarrow> json_chars (c # cs) (CHR 0x5C # e # s)"

inductive json_value :: "cJSON \<Rightarrow> string \<Rightarrow> bool"
  and json_elements :: "cJSON list \<Rightarrow> string \<Rightarrow> bool"
  and json_members :: "(string \<times> cJSON) list \<Rightarrow> string \<Rightarrow> bool"
where
  value_null: "json_value cJSON_NULL ''null''"
| value_false: "json_value cJSON_False ''false''"
| value_true: "json_value cJSON_True ''true''"
| value_number: "number_wf whole f x \<Longrightarrow> length (number_text neg whole f x) \<le> 63 \<Longrightarrow>
    v = number_value neg whole f x \<Longrightarrow>
    json_value (cJSON_Number (saturated_int v) v) (number_text neg whole f x)"
| value_string: "json_chars cs s \<Longrightarrow> json_value (cJSON_String (Some cs)) (CHR 0x22 # s @ [CHR 0x22])"
| value_empty_array: "json_space w \<Longrightarrow> json_value (cJSON_Array []) (''['' @ w @ '']'')"
| value_array: "json_space w \<Longrightarrow> json_elements xs s \<Longrightarrow> json_value (cJSON_Array xs) (''['' @ w @ s @ '']'')"
| value_empty_object: "json_space w \<Longrightarrow> json_value (cJSON_Object []) (''{'' @ w @ ''}'')"
| value_object: "json_space w \<Longrightarrow> json_members kvs s \<Longrightarrow> json_value (cJSON_Object kvs) (''{'' @ w @ s @ ''}'')"
| element_last: "json_value t s \<Longrightarrow> json_space w \<Longrightarrow> json_elements [t] (s @ w)"
| element_more: "json_value t s \<Longrightarrow> json_space w1 \<Longrightarrow> json_space w2 \<Longrightarrow> json_elements ts r \<Longrightarrow>
    json_elements (t # ts) (s @ w1 @ '','' @ w2 @ r)"
| member_last: "json_chars k ks \<Longrightarrow> json_space w1 \<Longrightarrow> json_space w2 \<Longrightarrow> json_value t s \<Longrightarrow> json_space w3 \<Longrightarrow>
    json_members [(k, t)] (CHR 0x22 # ks @ [CHR 0x22] @ w1 @ '':'' @ w2 @ s @ w3)"
| member_more: "json_chars k ks \<Longrightarrow> json_space w1 \<Longrightarrow> json_space w2 \<Longrightarrow> json_value t s \<Longrightarrow> json_space w3 \<Longrightarrow>
    json_space w4 \<Longrightarrow> json_members kvs r \<Longrightarrow>
    json_members ((k, t) # kvs) (CHR 0x22 # ks @ [CHR 0x22] @ w1 @ '':'' @ w2 @ s @ w3 @ '','' @ w4 @ r)"

subsection \<open>Reading at a position\<close>

lemma drop_eq_Cons: "drop p xs = c # r \<Longrightarrow> p < length xs \<and> xs ! p = c \<and> drop (Suc p) xs = r"
  by (metis drop_eq_Nil2 linorder_not_less list.distinct(1) Cons_nth_drop_Suc list.inject)

lemma drop_eq_append: "drop p xs = u @ v \<Longrightarrow> drop (p + length u) xs = v"
  by (metis add.commute append_eq_conv_conj drop_drop)

lemma char_at_drop: "drop p content = c # r \<Longrightarrow> char_at content p = Inr c"
  using drop_eq_Cons by fastforce

definition plenty :: "parse_buffer \<Rightarrow> bool" where
  "plenty b \<longleftrightarrow> hp_answers (pb_heap b) = (\<lambda>_. True)"

definition rest_is :: "parse_buffer \<Rightarrow> string \<Rightarrow> bool" where
  "rest_is b s \<longleftrightarrow> wf_buffer b \<and> plenty b \<and> drop (pb_offset b) (pb_content b) = s"

definition moved :: "nat \<Rightarrow> parse_buffer \<Rightarrow> parse_buffer \<Rightarrow> bool" where
  "moved k b b' \<longleftrightarrow> text_kept b b' \<and> pb_offset b' = pb_offset b + k \<and> pb_depth b' = pb_depth b \<and> plenty b'"

lemma rest_is_inside: "rest_is b s \<Longrightarrow> s \<noteq> [] \<Longrightarrow> inside b"
  by (auto simp: rest_is_def inside_def wf_buffer_def)

lemma peek_rest: "rest_is b (c # r) \<Longrightarrow> peek b = Inr (Some c)"
  using drop_eq_Cons [of "pb_offset b" "pb_content b" c r] by (auto simp: rest_is_def peek_ok wf_buffer_def)

lemma rest_is_moved:
  assumes "rest_is b (u @ v)" and "moved (length u) b b'"
  shows "rest_is b' v"
proof -
  from assms(1) have "length (pb_content b) = pb_length b" "drop (pb_offset b) (pb_content b) = u @ v"
    "pb_offset b \<le> pb_length b" "pb_depth b \<le> CJSON_NESTING_LIMIT"
    by (auto simp: rest_is_def wf_buffer_def)
  moreover from this have "pb_offset b + length u \<le> pb_length b"
    by (metis length_append length_drop le_add1 le_diff_conv2 add.commute)
  ultimately show ?thesis using assms(2) drop_eq_append [of "pb_offset b" "pb_content b" u v]
    by (simp add: rest_is_def moved_def wf_buffer_def text_kept_def)
qed

lemma skip_spaces_rest:
  "json_space w \<Longrightarrow> drop p content = w @ c # r \<Longrightarrow> 32 < (of_char c :: nat) \<Longrightarrow>
    skip_spaces content (length content) p = Inr (p + length w)"
proof (induction w arbitrary: p)
  case Nil
  then show ?case using drop_eq_Cons [of p content c r] by (subst skip_spaces.simps) auto
next
  case (Cons a w)
  from Cons.prems(2) drop_eq_Cons [of p content a "w @ c # r"] have
    a: "p < length content" "content ! p = a" "drop (Suc p) content = w @ c # r" by simp_all
  from Cons.prems(1) have "json_space w" "(of_char a :: nat) \<le> 32" by (auto simp: json_space_def)
  with Cons.IH [OF _ a(3) Cons.prems(3)] a show ?case by (subst skip_spaces.simps) simp
qed

lemma skip_white:
  assumes "rest_is b (w @ c # r)" and "json_space w" and "32 < (of_char c :: nat)"
  obtains b' where "buffer_skip_whitespace b = Inr b'" "moved (length w) b b'" "rest_is b' (c # r)"
    "pb_heap b' = pb_heap b"
proof -
  from assms(1) have b: "drop (pb_offset b) (pb_content b) = w @ c # r" "length (pb_content b) = pb_length b"
    "pb_offset b < pb_length b" "plenty b" using rest_is_inside [OF assms(1)]
    by (auto simp: rest_is_def wf_buffer_def inside_def)
  from drop_eq_append [OF b(1)] have "pb_offset b + length w < pb_length b"
    using drop_eq_Cons [of "pb_offset b + length w" "pb_content b"] b(2) by auto
  with b skip_spaces_rest [OF assms(2) b(1) assms(3)]
  have skip: "buffer_skip_whitespace b = Inr (b\<lparr>pb_offset := pb_offset b + length w\<rparr>)"
    by (simp add: buffer_skip_whitespace_def can_access_at_index_def)
  have "moved (length w) b (b\<lparr>pb_offset := pb_offset b + length w\<rparr>)"
    using b(4) by (simp add: moved_def text_kept_def plenty_def)
  with skip show thesis by (auto intro: that rest_is_moved [OF assms(1)])
qed

lemma advance_rest:
  "rest_is b (u @ v) \<Longrightarrow> moved (length u) b (advance (length u) b)"
  by (simp add: rest_is_def moved_def advance_def text_kept_def plenty_def)

lemma strncmp_eq_rest:
  "drop p content = s @ r \<Longrightarrow> strncmp_eq content p s = Inr True"
  "drop p content = c # r \<Longrightarrow> s \<noteq> [] \<Longrightarrow> hd s \<noteq> c \<Longrightarrow> strncmp_eq content p s = Inr False"
proof (induction s arbitrary: p)
  case (Cons a s)
  {
    case 1
    with drop_eq_Cons [of p content a "s @ r"] Cons.IH(1) [of "Suc p"] show ?case by simp
  next
    case 2
    then show ?case by (simp add: char_at_drop)
  }
qed simp_all

lemma literal_at_rest:
  assumes "rest_is b (s @ r)"
  shows "literal_at b s = Inr True"
proof -
  from assms have "drop (pb_offset b) (pb_content b) = s @ r" "length (pb_content b) = pb_length b"
    "pb_offset b \<le> pb_length b" by (auto simp: rest_is_def wf_buffer_def)
  moreover from this have "length (s @ r) = pb_length b - pb_offset b" by (metis length_drop)
  ultimately have "pb_offset b + length s \<le> pb_length b" by simp
  with assms show ?thesis by (simp add: literal_at_def can_read_def rest_is_def strncmp_eq_rest(1))
qed

lemma literal_at_other: "rest_is b (c # r) \<Longrightarrow> s \<noteq> [] \<Longrightarrow> hd s \<noteq> c \<Longrightarrow> literal_at b s = Inr False"
  using strncmp_eq_rest(2) [of "pb_offset b" "pb_content b" c r s] by (simp add: literal_at_def rest_is_def)

subsection \<open>Numbers\<close>

lemma number_char_digit: "is_digit_char c \<Longrightarrow> number_char c"
proof -
  assume "is_digit_char c"
  then have d: "(of_char c :: nat) - 48 < 10" "48 + (of_char c - 48) = (of_char c :: nat)"
    by (auto simp: is_digit_char_def)
  with of_char_digit have "of_char (digit_char (of_char c - 48)) = (of_char c :: nat)" by metis
  then have "c = ''0123456789'' ! (of_char c - 48)" by (simp add: digit_char_def)
  moreover have "''0123456789'' ! (of_char c - 48) \<in> set ''0123456789''"
    by (rule nth_mem) (use d(1) in simp)
  ultimately have "c \<in> set ''0123456789''" by metis
  then show ?thesis by (auto simp: number_char_def)
qed

lemma copy_number_rest:
  assumes "length (pb_content b) = pb_length b" and "list_all number_char s" and "length s \<le> left"
    and "\<not> number_char c" and "drop (pb_offset b + i) (pb_content b) = s @ c # r"
  shows "copy_number left b i = Inr s"
  using assms(2,3,5)
proof (induction s arbitrary: i left)
  case Nil
  then show ?case using assms(1,4) drop_eq_Cons [of "pb_offset b + i" "pb_content b" c r]
    by (cases left) (simp_all add: can_access_at_index_def)
next
  case (Cons a s)
  then obtain k where k: "left = Suc k" by (cases left) auto
  with Cons.prems drop_eq_Cons [of "pb_offset b + i" "pb_content b" a "s @ c # r"] Cons.IH [of k "Suc i"] assms(1)
  show ?case by (simp add: can_access_at_index_def)
qed

lemma is_digit_char_eqs [simp]:
  "\<not> is_digit_char (CHR ''-'')" "\<not> is_digit_char (CHR ''+'')" "\<not> is_digit_char (CHR ''.'')"
  "\<not> is_digit_char (CHR ''e'')" "\<not> is_digit_char (CHR ''E'')"
  by (simp_all add: is_digit_char_def)

lemma digits_not: "is_digit_char c \<Longrightarrow> c \<noteq> CHR ''-'' \<and> c \<noteq> CHR ''+'' \<and> c \<noteq> CHR ''.'' \<and> c \<noteq> CHR ''e'' \<and> c \<noteq> CHR ''E''"
  by (auto simp: is_digit_char_def)

lemma takeWhile_digits:
  "list_all is_digit_char ds \<Longrightarrow> r = [] \<or> \<not> is_digit_char (hd r) \<Longrightarrow>
    takeWhile is_digit_char (ds @ r) = ds \<and> dropWhile is_digit_char (ds @ r) = r"
  by (induction ds) (cases r; auto)+

lemma strtod_exponent_text: "exponent_wf x \<Longrightarrow> strtod_exponent (exponent_text x) = (exponent_value x, [])"
proof (cases x)
  case (Some y)
  moreover assume "exponent_wf x"
  moreover obtain c sg ds where "y = (c, sg, ds)" by (cases y)
  ultimately have x: "x = Some (c, sg, ds)" "c = CHR ''e'' \<or> c = CHR ''E''" "sg \<in> {'''', ''+'', ''-''}"
    "ds \<noteq> []" "list_all is_digit_char ds" by (auto simp: exponent_wf_def)
  from x(4,5) have "strtod_sign ds = (False, ds)" using digits_not by (cases ds) auto
  moreover have "takeWhile is_digit_char ds = ds" "dropWhile is_digit_char ds = []"
    using takeWhile_digits [OF x(5), of "[]"] by (simp_all del: takeWhile_eq_all_conv)
  note ds = this
  ultimately show ?thesis using x(1-4) by (auto simp: exponent_text_def exponent_value_def Let_def ds)
qed (simp add: exponent_text_def exponent_value_def)

lemma exponent_text_hd: "exponent_wf x \<Longrightarrow> exponent_text x = [] \<or> hd (exponent_text x) \<in> {CHR ''e'', CHR ''E''}"
  by (auto simp: exponent_text_def exponent_wf_def split: option.splits)

lemma strtod_number:
  assumes "number_wf whole f x"
  shows "strtod (number_text neg whole f x) = (number_value neg whole f x, length (number_text neg whole f x))"
proof -
  from assms have w: "whole \<noteq> []" "list_all is_digit_char whole" "list_all is_digit_char f" "exponent_wf x"
    by (simp_all add: number_wf_def)
  note e = exponent_text_hd [OF w(4)]
  have e': "exponent_text x = [] \<or> \<not> is_digit_char (hd (exponent_text x))" using e by auto
  have "strtod_sign (number_text neg whole f x) = (neg, whole @ fraction_text f @ exponent_text x)"
    using w(1,2) digits_not by (cases whole) (auto simp: number_text_def)
  moreover have "fraction_text f @ exponent_text x = [] \<or> \<not> is_digit_char (hd (fraction_text f @ exponent_text x))"
    using e' by (auto simp: fraction_text_def)
  note takeWhile_digits [OF w(2) this]
  moreover have "strtod_fraction (fraction_text f @ exponent_text x) = (f, exponent_text x)"
    using takeWhile_digits [OF w(3) e'] e by (cases "exponent_text x") (auto simp: fraction_text_def)
  ultimately show ?thesis
    using w(1) strtod_exponent_text [OF w(4)] by (simp add: strtod_def number_value_def Let_def)
qed

lemma number_text_chars:
  assumes "number_wf whole f x"
  shows "list_all number_char (number_text neg whole f x)"
proof -
  have "list_all is_digit_char ds \<Longrightarrow> list_all number_char ds" for ds
    by (auto simp: list_all_iff number_char_digit)
  with assms show ?thesis
    by (auto simp: number_wf_def number_text_def fraction_text_def exponent_text_def exponent_wf_def
        split: option.splits) (auto simp: number_char_def)
qed

lemma parse_number_rest:
  assumes "rest_is b (number_text neg whole f x @ c # r)" and "number_wf whole f x"
    and "length (number_text neg whole f x) \<le> 63" and "\<not> number_char c"
  defines "v \<equiv> number_value neg whole f x"
  shows "parse_number b = Inr (Some (cJSON_Number (saturated_int v) v),
    advance (length (number_text neg whole f x)) b)"
proof -
  from assms(2) have "number_text neg whole f x \<noteq> []" by (auto simp: number_text_def number_wf_def)
  moreover have "copy_number 63 b 0 = Inr (number_text neg whole f x)"
    using assms(1) by (intro copy_number_rest [OF _ number_text_chars [OF assms(2)] assms(3,4)])
      (simp_all add: rest_is_def wf_buffer_def)
  ultimately show ?thesis by (simp add: parse_number_def strtod_number [OF assms(2)] v_def)
qed

subsection \<open>Strings\<close>

lemma json_chars_nul: "json_chars cs s \<Longrightarrow> nul \<notin> set cs"
  by (induction rule: json_chars.induct) (auto simp: simple_escape.simps nul_def split: if_splits)

lemma scan_chars:
  "json_chars cs s \<Longrightarrow> drop p content = s @ CHR 0x22 # r \<Longrightarrow>
    \<exists>k'. scan_string content (length content) p k = Inr (Some (p + length s, k'))"
proof (induction arbitrary: p k rule: json_chars.induct)
  case chars_Nil
  then show ?case using drop_eq_Cons [of p content "CHR 0x22" r] by (subst scan_string.simps) auto
next
  case (chars_plain c cs s)
  from chars_plain.prems drop_eq_Cons [of p content c "s @ CHR 0x22 # r"]
  have p: "p < length content" "content ! p = c" "drop (Suc p) content = s @ CHR 0x22 # r" by simp_all
  from chars_plain.IH [OF p(3)] chars_plain.hyps(1) p(1,2) show ?case
    by (subst scan_string.simps) auto
next
  case (chars_escape e c cs s)
  from chars_escape.prems drop_eq_Cons [of p content "CHR 0x5C" "e # s @ CHR 0x22 # r"]
  have p: "p < length content" "content ! p = CHR 0x5C" "drop (Suc p) content = e # s @ CHR 0x22 # r" by simp_all
  from drop_eq_Cons [OF p(3)] have q: "Suc p < length content" "drop (Suc (Suc p)) content = s @ CHR 0x22 # r"
    by simp_all
  from chars_escape.IH [OF q(2)] p(1,2) q(1) show ?case
    by (subst scan_string.simps) (auto simp: eval_nat_numeral)
qed

text \<open>The second pass yields the characters, unless the block is too small (it never is).\<close>

lemma unescape_chars:
  "json_chars cs s \<Longrightarrow> drop p content = s @ CHR 0x22 # r \<Longrightarrow>
    unescape content (p + length s) cap p out \<in> {Inl Write_outside, Inr (Inr (out @ cs))}"
proof (induction arbitrary: p out rule: json_chars.induct)
  case chars_Nil
  then show ?case by (subst unescape.simps) simp
next
  case (chars_plain c cs s)
  from chars_plain.prems drop_eq_Cons [of p content c "s @ CHR 0x22 # r"]
  have p: "p < length content" "content ! p = c" "drop (Suc p) content = s @ CHR 0x22 # r" by simp_all
  from chars_plain.IH [OF p(3), of "out @ [c]"] chars_plain.hyps(1) p(1,2) show ?case
    by (subst unescape.simps) (auto simp: put_bytes_def)
next
  case (chars_escape e c cs s)
  from chars_escape.prems drop_eq_Cons [of p content "CHR 0x5C" "e # s @ CHR 0x22 # r"]
  have p: "p < length content" "content ! p = CHR 0x5C" "drop (Suc p) content = e # s @ CHR 0x22 # r" by simp_all
  from drop_eq_Cons [OF p(3)] have q: "Suc p < length content" "content ! Suc p = e"
    "drop (Suc (Suc p)) content = s @ CHR 0x22 # r" by simp_all
  from chars_escape.IH [OF q(3), of "out @ [c]"] chars_escape.hyps(1) p(1,2) q(1,2) show ?case
    by (subst unescape.simps) (auto simp: put_bytes_def)
qed

lemma allocate_plenty:
  assumes "hp_answers h = (\<lambda>_. True)" 
  obtains h' where "allocate h = (True, h')" "hp_answers h' = (\<lambda>_. True)"
  using assms by (simp add: allocate_def Let_def)

lemma parse_string_rest:
  assumes b: "rest_is b (CHR 0x22 # s @ CHR 0x22 # r)" and cs: "json_chars cs s"
  obtains b' where "parse_string b = Inr (Some cs, b')" "moved (length s + 2) b b'"
proof -
  let ?c = "pb_content b" and ?p = "Suc (pb_offset b)" and ?e = "Suc (pb_offset b) + length s"
  from b have len: "pb_length b = length ?c" by (simp add: rest_is_def wf_buffer_def)
  from b drop_eq_Cons [of "pb_offset b" ?c] have
    p: "pb_offset b < length ?c" "?c ! pb_offset b = CHR 0x22" "drop ?p ?c = s @ CHR 0x22 # r"
    by (auto simp: rest_is_def)
  from drop_eq_Cons [OF drop_eq_append [OF p(3)]] have e: "?e < length ?c" "?c ! ?e = CHR 0x22" by simp_all
  from scan_chars [OF cs p(3), of 0] obtain k where k: "scan_string ?c (length ?c) ?p 0 = Inr (Some (?e, k))" ..
  from b obtain h where h: "allocate (pb_heap b) = (True, h)" "hp_answers h = (\<lambda>_. True)"
    by (auto simp: rest_is_def plenty_def elim: allocate_plenty)
  let ?cap = "?e - pb_offset b - k + 1"
  have b_in: "inside b" using rest_is_inside [OF b] by simp
  from unescape_chars [OF cs p(3), of ?cap "[]"] parse_string_ok [OF b_in]
  have u: "unescape ?c ?e ?cap ?p [] = Inr (Inr cs)"
    using p e k h len by (auto simp: parse_string_def parsed_ok_def Let_def)
  with parse_string_ok [OF b_in] have w: "put_bytes ?cap cs [nul] = Inr (cs @ [nul])"
    using p e k h len by (auto simp: parse_string_def parsed_ok_def Let_def put_bytes_def split: if_splits)
  have "c_str (cs @ [nul]) = cs"
    using json_chars_nul [OF cs] by (simp add: c_str_def takeWhile_append2 takeWhile_tail) (metis c_str_def c_str_id)
  with u w p e k h len have "parse_string b = Inr (Some cs, b\<lparr>pb_offset := ?e + 1, pb_heap := h\<rparr>)"
    by (simp add: parse_string_def Let_def)
  moreover have "moved (length s + 2) b (b\<lparr>pb_offset := ?e + 1, pb_heap := h\<rparr>)"
    using h(2) by (simp add: moved_def text_kept_def plenty_def)
  ultimately show thesis by (rule that)
qed

subsection \<open>Values\<close>

lemma heights_Cons [simp]: "heights (x # xs) = max (height x) (heights xs)"
proof -
  have "fold (\<lambda>x m. max (height x) m) xs (max k m) = max k (fold (\<lambda>x m. max (height x) m) xs m)" for k m
    by (induction xs arbitrary: m) (simp_all add: max.left_commute)
  from this [of "height x" 0] show ?thesis by (simp add: heights_def)
qed

lemma number_text_hd:
  assumes "number_wf whole f x"
  obtains c r where "number_text neg whole f x = c # r" "c = CHR ''-'' \<or> is_digit_char c"
  using assms by (cases neg; cases whole) (auto simp: number_text_def number_wf_def)

lemma json_hd:
  "json_value t s \<Longrightarrow> \<exists>c r. s = c # r \<and> 32 < (of_char c :: nat) \<and> (of_char c :: nat) < 128 \<and> c \<notin> {CHR '']'', CHR ''}''}"
  "json_elements ts s \<Longrightarrow> \<exists>c r. s = c # r \<and> 32 < (of_char c :: nat) \<and> c \<noteq> CHR '']''"
  "json_members kvs s \<Longrightarrow> \<exists>r. s = CHR 0x22 # r"
proof (induction rule: json_value_json_elements_json_members.inducts)
  case (value_number whole f x neg v)
  then show ?case by (rule_tac number_text_hd [of whole f x neg]) (auto simp: is_digit_char_def)
qed auto

lemma space_then:
  assumes "json_space w" and "\<not> number_char c"
  obtains c' r' where "w @ c # r = c' # r'" "\<not> number_char c'"
  using assms by (cases w) (auto simp: json_space_def number_char_def)

lemma rest_is_Cons_moved:
  "rest_is b (c # r) \<Longrightarrow> rest_is (advance 1 b) r"
  using rest_is_moved [of b "[c]" r] advance_rest [of b "[c]" r] by simp

lemma moved_trans: "moved j a b \<Longrightarrow> moved k b c \<Longrightarrow> moved (j + k) a c"
  by (auto simp: moved_def text_kept_def)

lemma rest_is_length: "rest_is b s \<Longrightarrow> pb_length b - pb_offset b = length s"
  by (auto simp: rest_is_def wf_buffer_def)

lemma ample_rest: "rest_is b s \<Longrightarrow> ample n b \<longleftrightarrow> 3 * length s \<le> n"
  by (simp add: ample_def rest_is_length)

lemma step_back:
  assumes "rest_is b s" and "0 < pb_offset b" and "s \<noteq> []"
  obtains a where "rest_is (b\<lparr>pb_offset := pb_offset b - 1\<rparr>) (a # s)"
proof -
  from assms(1,3) have "inside b" by (rule rest_is_inside)
  then have "drop (pb_offset b - 1) (pb_content b) = pb_content b ! (pb_offset b - 1) # drop (pb_offset b) (pb_content b)"
    using assms(2) Cons_nth_drop_Suc [of "pb_offset b - 1" "pb_content b"] by (auto simp: inside_def wf_buffer_def)
  with assms(1,2) show thesis
    by (intro that [of "pb_content b ! (pb_offset b - 1)"]) (auto simp: rest_is_def wf_buffer_def plenty_def)
qed

text \<open>What the parsing functions do on the texts of the grammar.\<close>

definition reads_value :: "cJSON \<Rightarrow> string \<Rightarrow> bool" where
  "reads_value t s \<longleftrightarrow> (\<forall>n b c r. rest_is b (s @ c # r) \<and> \<not> number_char c \<and> ample n b \<and>
     height t + pb_depth b \<le> CJSON_NESTING_LIMIT \<longrightarrow>
     (\<exists>b'. parse_value (Suc n) b = Inr (Some t, b') \<and> moved (length s) b b'))"

definition reads_elements :: "cJSON list \<Rightarrow> string \<Rightarrow> bool" where
  "reads_elements ts s \<longleftrightarrow> (\<forall>n b a w acc r. rest_is b (a # w @ s @ CHR '']'' # r) \<and> json_space w \<and> ample (Suc n) b \<and>
     heights ts + pb_depth b \<le> CJSON_NESTING_LIMIT \<longrightarrow>
     (\<exists>b'. parse_elements n acc b = Inr (Some (acc @ ts), b') \<and> moved (Suc (length w + length s)) b b'))"

definition reads_members :: "(string \<times> cJSON) list \<Rightarrow> string \<Rightarrow> bool" where
  "reads_members kvs s \<longleftrightarrow> (\<forall>n b a w acc r. rest_is b (a # w @ s @ CHR ''}'' # r) \<and> json_space w \<and> ample (Suc n) b \<and>
     heights (map snd kvs) + pb_depth b \<le> CJSON_NESTING_LIMIT \<longrightarrow>
     (\<exists>b'. parse_members n acc b = Inr (Some (acc @ kvs), b') \<and> moved (Suc (length w + length s)) b b'))"

lemma reads_literals: "reads_value cJSON_NULL ''null''" "reads_value cJSON_False ''false''" "reads_value cJSON_True ''true''"
proof -
  have lit: "moved (length s) b (advance (length s) b)" if "rest_is b (s @ r)" for b s r
    using that by (rule advance_rest)
  show "reads_value cJSON_NULL ''null''"
    unfolding reads_value_def using literal_at_rest [of _ "''null''"] lit [of _ "''null''"]
    by (auto simp: parse_value.simps eval_nat_numeral)
  show "reads_value cJSON_False ''false''"
    unfolding reads_value_def using literal_at_rest [of _ "''false''"] lit [of _ "''false''"]
    by (auto simp: parse_value.simps literal_at_other eval_nat_numeral)
  show "reads_value cJSON_True ''true''"
    unfolding reads_value_def using literal_at_rest [of _ "''true''"] lit [of _ "''true''"]
    by (auto simp: parse_value.simps literal_at_other eval_nat_numeral)
qed

text \<open>A value that is no literal is dispatched on its first character.\<close>

lemma parse_value_dispatch:
  assumes "rest_is b (c # r)" and "c \<notin> {CHR ''n'', CHR ''f'', CHR ''t''}"
  shows "parse_value (Suc n) b =
    (if c = CHR 0x22 then acc_bind (parse_string b) (\<lambda>(s, b'). Inr (map_option (\<lambda>s. cJSON_String (Some s)) s, b'))
     else if c = CHR ''-'' \<or> is_digit_char c then parse_number b
     else if c = CHR ''['' then parse_array n b
     else if c = CHR ''{'' then parse_object n b
     else parse_fail b)"
proof -
  from assms have "literal_at b ''null'' = Inr False" "literal_at b ''false'' = Inr False"
    "literal_at b ''true'' = Inr False"
    by (auto intro!: literal_at_other [OF assms(1)])
  with peek_rest [OF assms(1)] show ?thesis by (simp add: parse_value.simps)
qed

lemma reads_number:
  assumes "number_wf whole f x" and "length (number_text neg whole f x) \<le> 63" and "v = number_value neg whole f x"
  shows "reads_value (cJSON_Number (saturated_int v) v) (number_text neg whole f x)"
  unfolding reads_value_def
proof (intro allI impI, elim conjE)
  fix n b c r
  assume b: "rest_is b (number_text neg whole f x @ c # r)" and c: "\<not> number_char c"
  obtain d q where hd: "number_text neg whole f x = d # q" "d = CHR ''-'' \<or> is_digit_char d"
    using number_text_hd [OF assms(1)] .
  with b have "rest_is b (d # q @ c # r)" by simp
  moreover from hd(2) have "d \<notin> {CHR ''n'', CHR ''f'', CHR ''t'', CHR 0x22}" by (auto simp: is_digit_char_def)
  ultimately have "parse_value (Suc n) b = parse_number b" using hd(2) by (subst parse_value_dispatch) auto
  with parse_number_rest [OF b assms(1,2) c] advance_rest [OF b] assms(3)
  show "\<exists>b'. parse_value (Suc n) b = Inr (Some (cJSON_Number (saturated_int v) v), b') \<and>
      moved (length (number_text neg whole f x)) b b'" by simp
qed

lemma reads_string:
  assumes "json_chars cs s"
  shows "reads_value (cJSON_String (Some cs)) (CHR 0x22 # s @ [CHR 0x22])"
  unfolding reads_value_def
proof (intro allI impI, elim conjE)
  fix n b c r
  assume "rest_is b ((CHR 0x22 # s @ [CHR 0x22]) @ c # r)"
  then have b: "rest_is b (CHR 0x22 # s @ CHR 0x22 # c # r)" by simp
  then obtain b' where "parse_string b = Inr (Some cs, b')" "moved (length s + 2) b b'"
    using assms by (rule parse_string_rest)
  with parse_value_dispatch [OF b, of n]
  show "\<exists>b'. parse_value (Suc n) b = Inr (Some (cJSON_String (Some cs)), b') \<and>
      moved (length (CHR 0x22 # s @ [CHR 0x22])) b b'" by simp
qed

lemma skip_one:
  assumes "rest_is b (a # w @ c # r)" and "json_space w" and "32 < (of_char c :: nat)"
  obtains b' where "buffer_skip_whitespace (advance 1 b) = Inr b'" "rest_is b' (c # r)" "moved (Suc (length w)) b b'"
proof -
  from assms(1) have "rest_is (advance 1 b) (w @ c # r)" by (rule rest_is_Cons_moved)
  then obtain b' where "buffer_skip_whitespace (advance 1 b) = Inr b'" "moved (length w) (advance 1 b) b'" "rest_is b' (c # r)"
    using assms(2,3) by (rule skip_white)
  moreover have "moved 1 b (advance 1 b)" using advance_rest [of b "[a]" "w @ c # r"] assms(1) by simp
  ultimately show thesis using that moved_trans [of 1 b "advance 1 b"] by simp
qed

lemma new_item_then:
  assumes "rest_is b (a # w @ c # r)" and "json_space w" and "32 < (of_char c :: nat)"
  obtains h b' where "cJSON_New_Item (pb_heap b) = (True, h)"
    "buffer_skip_whitespace (advance 1 (b\<lparr>pb_heap := h\<rparr>)) = Inr b'" "rest_is b' (c # r)" "moved (Suc (length w)) b b'"
proof -
  from assms(1) obtain h where h: "allocate (pb_heap b) = (True, h)" "hp_answers h = (\<lambda>_. True)"
    by (auto simp: rest_is_def plenty_def elim: allocate_plenty)
  with assms(1) have "rest_is (b\<lparr>pb_heap := h\<rparr>) (a # w @ c # r)" by (simp add: rest_is_def wf_buffer_def plenty_def)
  then obtain b' where "buffer_skip_whitespace (advance 1 (b\<lparr>pb_heap := h\<rparr>)) = Inr b'" "rest_is b' (c # r)"
    "moved (Suc (length w)) (b\<lparr>pb_heap := h\<rparr>) b'"
    using assms(2,3) by (rule skip_one)
  with h show thesis by (intro that [of h b']) (simp_all add: cJSON_New_Item_def moved_def text_kept_def)
qed

lemma value_then:
  assumes "reads_value t s" and "rest_is b (s @ w @ c # r)" and "json_space w" and "\<not> number_char c"
    and "32 < (of_char c :: nat)" and "3 * length (s @ w @ c # r) < n" and "height t + pb_depth b \<le> CJSON_NESTING_LIMIT"
  obtains b1 b2 where "parse_value n b = Inr (Some t, b1)" "buffer_skip_whitespace b1 = Inr b2"
    "peek b2 = Inr (Some c)" "rest_is b2 (c # r)" "moved (length s + length w) b b2"
proof -
  from assms(6) obtain m where m: "n = Suc m" "3 * length (s @ w @ c # r) \<le> m" by (cases n) auto
  obtain c' r' where c': "w @ c # r = c' # r'" "\<not> number_char c'" using assms(3,4) by (rule space_then)
  with assms(2) have "rest_is b (s @ c' # r')" by simp
  with assms(1,2,7) c' m obtain b1 where b1: "parse_value n b = Inr (Some t, b1)" "moved (length s) b b1"
    unfolding reads_value_def by (metis ample_rest)
  from rest_is_moved [OF assms(2) b1(2)] have "rest_is b1 (w @ c # r)" .
  then obtain b2 where "buffer_skip_whitespace b1 = Inr b2" "moved (length w) b1 b2" "rest_is b2 (c # r)"
    using assms(3,5) by (rule skip_white)
  with b1 peek_rest moved_trans show thesis by (intro that [of b1 b2]) auto
qed

lemma delimiters [simp]:
  "\<not> number_char (CHR '','')" "\<not> number_char (CHR '']'')" "\<not> number_char (CHR ''}'')" "\<not> number_char nul"
  by (simp_all add: number_char_def nul_def)

text \<open>One round of the element loop: a new node, white space, the value, white space.\<close>

lemma element_then:
  assumes "json_value t s" and "reads_value t s" and "json_space w0" and "json_space w1"
    and c: "\<not> number_char c" "32 < (of_char c :: nat)"
    and b: "rest_is b (a # w0 @ s @ w1 @ c # r)" and f: "ample (Suc n) b"
    and hi: "height t + pb_depth b \<le> CJSON_NESTING_LIMIT"
  obtains h b1 b2 b3 where "n = Suc (n - 1)" "cJSON_New_Item (pb_heap b) = (True, h)"
    "buffer_skip_whitespace (advance 1 (b\<lparr>pb_heap := h\<rparr>)) = Inr b1" "parse_value (n - 1) b1 = Inr (Some t, b2)"
    "buffer_skip_whitespace b2 = Inr b3" "peek b3 = Inr (Some c)" "rest_is b3 (c # r)"
    "moved (Suc (length w0) + (length s + length w1)) b b3" "ample n b3"
proof -
  from json_hd(1) [OF assms(1)] obtain d q where s: "s = d # q" "32 < (of_char d :: nat)" by auto
  with b have "rest_is b (a # w0 @ d # q @ w1 @ c # r)" by simp
  then obtain h b1 where h: "cJSON_New_Item (pb_heap b) = (True, h)"
    "buffer_skip_whitespace (advance 1 (b\<lparr>pb_heap := h\<rparr>)) = Inr b1" "rest_is b1 (d # q @ w1 @ c # r)"
    "moved (Suc (length w0)) b b1"
    using assms(3) s(2) by (rule new_item_then)
  from f b have n: "n = Suc (n - 1)" "3 * length (s @ w1 @ c # r) < n - 1" by (auto simp: ample_rest s(1))
  from h(3) s(1) have "rest_is b1 (s @ w1 @ c # r)" by simp
  moreover have "height t + pb_depth b1 \<le> CJSON_NESTING_LIMIT" using hi h(4) by (simp add: moved_def)
  ultimately obtain b2 b3 where b3: "parse_value (n - 1) b1 = Inr (Some t, b2)" "buffer_skip_whitespace b2 = Inr b3"
    "peek b3 = Inr (Some c)" "rest_is b3 (c # r)" "moved (length s + length w1) b1 b3"
    using assms(2,4) c n(2) value_then [of t s b1 w1 c r "n - 1"] by auto
  have "ample n b3" using n(2) ample_rest [OF b3(4)] by simp
  with n(1) h(1,2) b3 moved_trans [OF h(4) b3(5)] show thesis by (intro that)
qed

lemma reads_element_last:
  assumes "json_value t s" and "reads_value t s" and "json_space w"
  shows "reads_elements [t] (s @ w)"
  unfolding reads_elements_def
proof (intro allI impI, elim conjE)
  fix n b a w0 acc r
  assume "rest_is b (a # w0 @ (s @ w) @ CHR '']'' # r)" and w0: "json_space w0" and f: "ample (Suc n) b"
    and "heights [t] + pb_depth b \<le> CJSON_NESTING_LIMIT"
  then have b: "rest_is b (a # w0 @ s @ w @ CHR '']'' # r)" and hi: "height t + pb_depth b \<le> CJSON_NESTING_LIMIT"
    by simp_all
  obtain h b1 b2 b3 where "n = Suc (n - 1)" "cJSON_New_Item (pb_heap b) = (True, h)"
    "buffer_skip_whitespace (advance 1 (b\<lparr>pb_heap := h\<rparr>)) = Inr b1" "parse_value (n - 1) b1 = Inr (Some t, b2)"
    "buffer_skip_whitespace b2 = Inr b3" "peek b3 = Inr (Some (CHR '']''))"
    "moved (Suc (length w0) + (length s + length w)) b b3"
    by (rule element_then [OF assms(1,2) w0 assms(3) _ _ b f hi]) simp_all
  then show "\<exists>b'. parse_elements n acc b = Inr (Some (acc @ [t]), b') \<and> moved (Suc (length w0 + length (s @ w))) b b'"
    using parse_elements.simps(2) [of "n - 1" acc b] by (simp add: add.assoc)
qed

lemma reads_element_more:
  assumes "json_value t s" and "reads_value t s" and "json_space w1" and "json_space w2" and "reads_elements ts q"
  shows "reads_elements (t # ts) (s @ w1 @ '','' @ w2 @ q)"
  unfolding reads_elements_def
proof (intro allI impI, elim conjE)
  fix n b a w0 acc r
  let ?r = "w2 @ q @ CHR '']'' # r"
  assume "rest_is b (a # w0 @ (s @ w1 @ '','' @ w2 @ q) @ CHR '']'' # r)" and w0: "json_space w0"
    and f: "ample (Suc n) b" and "heights (t # ts) + pb_depth b \<le> CJSON_NESTING_LIMIT"
  then have b: "rest_is b (a # w0 @ s @ w1 @ CHR '','' # ?r)" and hi: "height t + pb_depth b \<le> CJSON_NESTING_LIMIT"
    "heights ts + pb_depth b \<le> CJSON_NESTING_LIMIT" by simp_all
  obtain h b1 b2 b3 where b3: "n = Suc (n - 1)" "cJSON_New_Item (pb_heap b) = (True, h)"
    "buffer_skip_whitespace (advance 1 (b\<lparr>pb_heap := h\<rparr>)) = Inr b1" "parse_value (n - 1) b1 = Inr (Some t, b2)"
    "buffer_skip_whitespace b2 = Inr b3" "peek b3 = Inr (Some (CHR '',''))" "rest_is b3 (CHR '','' # ?r)"
    "moved (Suc (length w0) + (length s + length w1)) b b3" "ample n b3"
    by (rule element_then [OF assms(1,2) w0 assms(3) _ _ b f hi(1)]) simp_all
  from b3(8) hi(2) have "heights ts + pb_depth b3 \<le> CJSON_NESTING_LIMIT" by (simp add: moved_def)
  with assms(4,5) b3(1,7,9) obtain b4 where "parse_elements (n - 1) (acc @ [t]) b3 = Inr (Some ((acc @ [t]) @ ts), b4)"
    "moved (Suc (length w2 + length q)) b3 b4"
    unfolding reads_elements_def by metis
  with b3(1-6) moved_trans [OF b3(8)]
  show "\<exists>b'. parse_elements n acc b = Inr (Some (acc @ t # ts), b') \<and>
      moved (Suc (length w0 + length (s @ w1 @ '','' @ w2 @ q))) b b'"
    using parse_elements.simps(2) [of "n - 1" acc b] by (fastforce simp: add.assoc)
qed

text \<open>The name of a member, up to the first character of its value.\<close>

lemma name_then:
  assumes b: "rest_is b (a # w0 @ CHR 0x22 # ks @ CHR 0x22 # w1 @ CHR '':'' # w2 @ d # q)"
    and "json_space w0" and k: "json_chars k ks" and "json_space w1" and "json_space w2" and "32 < (of_char d :: nat)"
  obtains h b1 b2 b3 b4 where "cJSON_New_Item (pb_heap b) = (True, h)" "can_access_at_index (b\<lparr>pb_heap := h\<rparr>) 1"
    "buffer_skip_whitespace (advance 1 (b\<lparr>pb_heap := h\<rparr>)) = Inr b1" "parse_string b1 = Inr (Some k, b2)"
    "buffer_skip_whitespace b2 = Inr b3" "peek b3 = Inr (Some (CHR '':''))"
    "buffer_skip_whitespace (advance 1 b3) = Inr b4" "rest_is b4 (d # q)"
    "moved (length w0 + length ks + length w1 + length w2 + 4) b b4"
proof -
  let ?r2 = "w1 @ CHR '':'' # w2 @ d # q"
  obtain h b1 where h: "cJSON_New_Item (pb_heap b) = (True, h)"
    "buffer_skip_whitespace (advance 1 (b\<lparr>pb_heap := h\<rparr>)) = Inr b1" "rest_is b1 (CHR 0x22 # ks @ CHR 0x22 # ?r2)"
    "moved (Suc (length w0)) b b1"
    using b assms(2) by (rule new_item_then) simp_all
  have can: "can_access_at_index (b\<lparr>pb_heap := h\<rparr>) 1"
    using rest_is_length [OF b] by (simp add: can_access_at_index_def)
  obtain b2 where b2: "parse_string b1 = Inr (Some k, b2)" "moved (length ks + 2) b1 b2"
    using h(3) k by (rule parse_string_rest)
  have "rest_is b1 ((CHR 0x22 # ks @ [CHR 0x22]) @ ?r2)" using h(3) by simp
  then have "rest_is b2 ?r2" by (rule rest_is_moved) (use b2(2) in simp)
  then obtain b3 where b3: "buffer_skip_whitespace b2 = Inr b3" "moved (length w1) b2 b3" "rest_is b3 (CHR '':'' # w2 @ d # q)"
    using assms(4) by (rule skip_white) simp_all
  from b3(3) assms(5,6) obtain b4 where b4: "buffer_skip_whitespace (advance 1 b3) = Inr b4" "rest_is b4 (d # q)"
    "moved (Suc (length w2)) b3 b4" by (rule skip_one)
  have "moved (Suc (length w0) + (length ks + 2) + length w1 + Suc (length w2)) b b4"
    using h(4) b2(2) b3(2) b4(3) by (blast intro: moved_trans)
  moreover have "Suc (length w0) + (length ks + 2) + length w1 + Suc (length w2) =
      length w0 + length ks + length w1 + length w2 + 4" by simp
  ultimately have "moved (length w0 + length ks + length w1 + length w2 + 4) b b4" by metis
  with h(1,2) can b2(1) b3(1) b4(1,2) peek_rest [OF b3(3)] show thesis by (intro that)
qed

lemma member_then:
  assumes "json_value t s" and "reads_value t s" and "json_space w0" and "json_chars k ks" and "json_space w1"
    and "json_space w2" and "json_space w3" and c: "\<not> number_char c" "32 < (of_char c :: nat)"
    and b: "rest_is b (a # w0 @ CHR 0x22 # ks @ CHR 0x22 # w1 @ CHR '':'' # w2 @ s @ w3 @ c # r)"
    and f: "ample (Suc n) b" and hi: "height t + pb_depth b \<le> CJSON_NESTING_LIMIT"
  obtains b' where "rest_is b' (c # r)" "ample n b'" "0 < n"
    "moved (length w0 + length ks + length w1 + length w2 + length s + length w3 + 4) b b'"
    "parse_members n acc b =
      (if c = CHR '','' then parse_members (n - 1) (acc @ [(k, t)]) b' else Inr (Some (acc @ [(k, t)]), b'))"
proof -
  from json_hd(1) [OF assms(1)] obtain d q where s: "s = d # q" "32 < (of_char d :: nat)" by auto
  with b have "rest_is b (a # w0 @ CHR 0x22 # ks @ CHR 0x22 # w1 @ CHR '':'' # w2 @ d # q @ w3 @ c # r)" by simp
  then obtain h b1 b2 b3 b4 where n: "cJSON_New_Item (pb_heap b) = (True, h)" "can_access_at_index (b\<lparr>pb_heap := h\<rparr>) 1"
    "buffer_skip_whitespace (advance 1 (b\<lparr>pb_heap := h\<rparr>)) = Inr b1" "parse_string b1 = Inr (Some k, b2)"
    "buffer_skip_whitespace b2 = Inr b3" "peek b3 = Inr (Some (CHR '':''))"
    "buffer_skip_whitespace (advance 1 b3) = Inr b4" "rest_is b4 (d # q @ w3 @ c # r)"
    "moved (length w0 + length ks + length w1 + length w2 + 4) b b4"
    using assms(3-6) s(2) by (rule name_then)
  from f b have len: "0 < n" "3 * length (s @ w3 @ c # r) < n - 1" by (auto simp: ample_rest s(1))
  from n(8) s(1) have "rest_is b4 (s @ w3 @ c # r)" by simp
  moreover have "height t + pb_depth b4 \<le> CJSON_NESTING_LIMIT" using hi n(9) by (simp add: moved_def)
  ultimately obtain b5 b6 where v: "parse_value (n - 1) b4 = Inr (Some t, b5)" "buffer_skip_whitespace b5 = Inr b6"
    "peek b6 = Inr (Some c)" "rest_is b6 (c # r)" "moved (length s + length w3) b4 b6"
    using assms(2,7) c len(2) value_then [of t s b4 w3 c r "n - 1"] by auto
  have "parse_members n acc b =
      (if c = CHR '','' then parse_members (n - 1) (acc @ [(k, t)]) b6 else Inr (Some (acc @ [(k, t)]), b6))"
    using n(1-7) v(1-3) len(1) parse_members.simps(2) [of "n - 1" acc b] by simp
  moreover have "moved (length w0 + length ks + length w1 + length w2 + length s + length w3 + 4) b b6"
    using moved_trans [OF n(9) v(5)] by (simp add: ac_simps)
  moreover have "ample n b6" using len(2) ample_rest [OF v(4)] by simp
  ultimately show thesis using v(4) len(1) by (intro that)
qed

lemma reads_member_last:
  assumes "json_chars k ks" and "json_space w1" and "json_space w2" and "json_value t s" and "reads_value t s" and "json_space w3"
  shows "reads_members [(k, t)] (CHR 0x22 # ks @ [CHR 0x22] @ w1 @ '':'' @ w2 @ s @ w3)"
  unfolding reads_members_def
proof (intro allI impI, elim conjE)
  fix n b a w0 acc r
  assume b: "rest_is b (a # w0 @ (CHR 0x22 # ks @ [CHR 0x22] @ w1 @ '':'' @ w2 @ s @ w3) @ CHR ''}'' # r)"
    and w0: "json_space w0" and f: "ample (Suc n) b" and hi: "heights (map snd [(k, t)]) + pb_depth b \<le> CJSON_NESTING_LIMIT"
  obtain b' where "moved (length w0 + length ks + length w1 + length w2 + length s + length w3 + 4) b b'"
    "parse_members n acc b = Inr (Some (acc @ [(k, t)]), b')"
    by (rule member_then [OF assms(4,5) w0 assms(1,2,3,6), where c = "CHR ''}''" and b = b and a = a and r = r and n = n and acc = acc])
      (use b f hi in simp_all)
  then show "\<exists>b'. parse_members n acc b = Inr (Some (acc @ [(k, t)]), b') \<and>
      moved (Suc (length w0 + length (CHR 0x22 # ks @ [CHR 0x22] @ w1 @ '':'' @ w2 @ s @ w3))) b b'"
    by (simp add: eval_nat_numeral add.assoc)
qed

lemma reads_member_more:
  assumes "json_chars k ks" and "json_space w1" and "json_space w2" and "json_value t s" and "reads_value t s" and "json_space w3"
    and "json_space w4" and "reads_members kvs q"
  shows "reads_members ((k, t) # kvs) (CHR 0x22 # ks @ [CHR 0x22] @ w1 @ '':'' @ w2 @ s @ w3 @ '','' @ w4 @ q)"
  unfolding reads_members_def
proof (intro allI impI, elim conjE)
  fix n b a w0 acc r
  assume b: "rest_is b (a # w0 @ (CHR 0x22 # ks @ [CHR 0x22] @ w1 @ '':'' @ w2 @ s @ w3 @ '','' @ w4 @ q) @ CHR ''}'' # r)"
    and w0: "json_space w0" and f: "ample (Suc n) b" and hi: "heights (map snd ((k, t) # kvs)) + pb_depth b \<le> CJSON_NESTING_LIMIT"
  obtain b' where b': "rest_is b' (CHR '','' # w4 @ q @ CHR ''}'' # r)" "ample n b'" "0 < n"
    "moved (length w0 + length ks + length w1 + length w2 + length s + length w3 + 4) b b'"
    "parse_members n acc b = parse_members (n - 1) (acc @ [(k, t)]) b'"
    by (rule member_then [OF assms(4,5) w0 assms(1,2,3,6), where c = "CHR '',''" and b = b and a = a
          and r = "w4 @ q @ CHR ''}'' # r" and n = n and acc = acc])
      (use b f hi in simp_all)
  have "heights (map snd kvs) + pb_depth b' \<le> CJSON_NESTING_LIMIT" "ample (Suc (n - 1)) b'"
    using hi b'(2,3,4) by (simp_all add: moved_def)
  with assms(7,8) b'(1) obtain b4 where "parse_members (n - 1) (acc @ [(k, t)]) b' = Inr (Some ((acc @ [(k, t)]) @ kvs), b4)"
    "moved (Suc (length w4 + length q)) b' b4"
    unfolding reads_members_def by metis
  with b'(5) moved_trans [OF b'(4)] show "\<exists>b'. parse_members n acc b = Inr (Some (acc @ (k, t) # kvs), b') \<and>
      moved (Suc (length w0 + length (CHR 0x22 # ks @ [CHR 0x22] @ w1 @ '':'' @ w2 @ s @ w3 @ '','' @ w4 @ q))) b b'"
    by (fastforce simp: eval_nat_numeral add.assoc)
qed

subsection \<open>Arrays and objects\<close>

lemma depth_rest: "rest_is b s \<Longrightarrow> pb_depth b < CJSON_NESTING_LIMIT \<Longrightarrow> rest_is (b\<lparr>pb_depth := pb_depth b + 1\<rparr>) s"
  by (simp add: rest_is_def wf_buffer_def plenty_def)

lemma close_moved:
  assumes "moved k (b\<lparr>pb_depth := pb_depth b + 1\<rparr>) b'"
  shows "moved (Suc k) b (close_nested b')"
  using assms by (simp add: moved_def close_nested_def text_kept_def plenty_def)

lemma open_then:
  assumes b: "rest_is b (a # w @ c # r)" and "json_space w" and "32 < (of_char c :: nat)"
    and "pb_depth b < CJSON_NESTING_LIMIT"
  obtains b2 where "buffer_skip_whitespace (advance 1 (b\<lparr>pb_depth := pb_depth b + 1\<rparr>)) = Inr b2"
    "peek b2 = Inr (Some c)" "rest_is b2 (c # r)" "moved (Suc (length w)) (b\<lparr>pb_depth := pb_depth b + 1\<rparr>) b2"
proof -
  from b assms(4) have "rest_is (b\<lparr>pb_depth := pb_depth b + 1\<rparr>) (a # w @ c # r)" by (rule depth_rest)
  then obtain b2 where "buffer_skip_whitespace (advance 1 (b\<lparr>pb_depth := pb_depth b + 1\<rparr>)) = Inr b2" "rest_is b2 (c # r)"
    "moved (Suc (length w)) (b\<lparr>pb_depth := pb_depth b + 1\<rparr>) b2"
    using assms(2,3) by (rule skip_one)
  with peek_rest show thesis by (intro that)
qed

lemma bracket_at:
  assumes "rest_is b (c # r)"
  shows "char_at (pb_content (b\<lparr>pb_depth := k\<rparr>)) (pb_offset (b\<lparr>pb_depth := k\<rparr>)) = Inr c"
    "peek (b\<lparr>pb_depth := k\<rparr>) = Inr (Some c)"
  using assms peek_rest [OF assms] char_at_drop [of "pb_offset b" "pb_content b" c r]
  by (auto simp: rest_is_def peek_def can_access_at_index_def split: if_splits)

lemma reads_empty_array:
  assumes "json_space w"
  shows "reads_value (cJSON_Array []) (''['' @ w @ '']'')"
  unfolding reads_value_def
proof (intro allI impI, elim conjE)
  fix n b c r
  assume "rest_is b ((''['' @ w @ '']'') @ c # r)" and f: "ample n b"
    and hi: "height (cJSON_Array []) + pb_depth b \<le> CJSON_NESTING_LIMIT"
  then have b: "rest_is b (CHR ''['' # w @ CHR '']'' # c # r)" by simp
  then obtain b2 where b2: "buffer_skip_whitespace (advance 1 (b\<lparr>pb_depth := pb_depth b + 1\<rparr>)) = Inr b2"
    "peek b2 = Inr (Some (CHR '']''))" "moved (Suc (length w)) (b\<lparr>pb_depth := pb_depth b + 1\<rparr>) b2"
    using assms by (rule open_then) (use hi in simp_all)
  from f b obtain m where m: "n = Suc m" by (cases n) (simp_all add: ample_rest)
  from parse_value_dispatch [OF b, of n] have "parse_value (Suc n) b = parse_array n b" by (simp add: is_digit_char_def)
  with m b2 hi bracket_at(1) [OF b, of "pb_depth b + 1"] close_moved [OF b2(3)]
  show "\<exists>b'. parse_value (Suc n) b = Inr (Some (cJSON_Array []), b') \<and> moved (length (''['' @ w @ '']'')) b b'"
    by (simp add: parse_array.simps)
qed

text \<open>From the opening bracket to the loop, and from the end of the loop past the closing bracket.\<close>

lemma inner_then:
  assumes b0: "rest_is b (a0 # w @ s @ e # r)" and w: "json_space w" and s: "s = d # q" "32 < (of_char d :: nat)"
    and hi: "pb_depth b < CJSON_NESTING_LIMIT" and f: "ample (Suc m) b"
  obtains a b2 where "buffer_skip_whitespace (advance 1 (b\<lparr>pb_depth := pb_depth b + 1\<rparr>)) = Inr b2"
    "peek b2 = Inr (Some d)" "rest_is (b2\<lparr>pb_offset := pb_offset b2 - 1\<rparr>) (a # [] @ s @ e # r)"
    "ample (Suc m) (b2\<lparr>pb_offset := pb_offset b2 - 1\<rparr>)" "pb_depth b2 = pb_depth b + 1"
    "\<And>b3. moved (Suc (length s)) (b2\<lparr>pb_offset := pb_offset b2 - 1\<rparr>) b3 \<Longrightarrow>
      peek b3 = Inr (Some e) \<and> moved (length w + length s + 2) b (close_nested b3)"
proof -
  from b0 s have b: "rest_is b (a0 # w @ d # q @ e # r)" by simp
  then obtain b2 where b2: "buffer_skip_whitespace (advance 1 (b\<lparr>pb_depth := pb_depth b + 1\<rparr>)) = Inr b2"
    "peek b2 = Inr (Some d)" "rest_is b2 (d # q @ e # r)" "moved (Suc (length w)) (b\<lparr>pb_depth := pb_depth b + 1\<rparr>) b2"
    using w s(2) hi by (rule open_then)
  let ?b = "b2\<lparr>pb_offset := pb_offset b2 - 1\<rparr>"
  obtain a where a: "rest_is ?b (a # s @ e # r)"
    using step_back [OF b2(3)] b2(4) s(1) by (auto simp: moved_def)
  then have a': "rest_is ?b (a # [] @ s @ e # r)" by simp
  from f have more: "ample (Suc m) ?b" unfolding ample_rest [OF a] ample_rest [OF b0] by simp
  from b2(4) have depth: "pb_depth b2 = pb_depth b + 1" by (simp add: moved_def)
  have closing: "peek b3 = Inr (Some e) \<and> moved (length w + length s + 2) b (close_nested b3)"
    if "moved (Suc (length s)) ?b b3" for b3
  proof
    from a have "rest_is ?b ((a # s) @ e # r)" by simp
    from rest_is_moved [OF this] that show "peek b3 = Inr (Some e)" by (auto intro: peek_rest)
    from that b2(4) have "moved (Suc (length w) + length s) (b\<lparr>pb_depth := pb_depth b + 1\<rparr>) b3"
      by (auto simp: moved_def text_kept_def)
    from close_moved [OF this] show "moved (length w + length s + 2) b (close_nested b3)" by simp
  qed
  show thesis by (rule that [OF b2(1,2) a' more depth closing])
qed

lemma reads_array:
  assumes "json_space w" and "json_elements ts s" and "reads_elements ts s"
  shows "reads_value (cJSON_Array ts) (''['' @ w @ s @ '']'')"
  unfolding reads_value_def
proof (intro allI impI, elim conjE)
  fix n b c r
  assume "rest_is b ((''['' @ w @ s @ '']'') @ c # r)" and f: "ample n b"
    and hi: "height (cJSON_Array ts) + pb_depth b \<le> CJSON_NESTING_LIMIT"
  then have b: "rest_is b (CHR ''['' # w @ s @ CHR '']'' # c # r)" by simp
  from json_hd(2) [OF assms(2)] obtain d q where s: "s = d # q" "32 < (of_char d :: nat)" "d \<noteq> CHR '']''" by auto
  from f b obtain m where m: "n = Suc m" by (cases n) (simp_all add: ample_rest)
  obtain a b2 where b2: "buffer_skip_whitespace (advance 1 (b\<lparr>pb_depth := pb_depth b + 1\<rparr>)) = Inr b2"
    "peek b2 = Inr (Some d)" "rest_is (b2\<lparr>pb_offset := pb_offset b2 - 1\<rparr>) (a # [] @ s @ CHR '']'' # c # r)"
    "ample (Suc m) (b2\<lparr>pb_offset := pb_offset b2 - 1\<rparr>)" "pb_depth b2 = pb_depth b + 1"
    "\<And>b3. moved (Suc (length s)) (b2\<lparr>pb_offset := pb_offset b2 - 1\<rparr>) b3 \<Longrightarrow>
      peek b3 = Inr (Some (CHR '']'')) \<and> moved (length w + length s + 2) b (close_nested b3)"
    using b assms(1) s(1,2) by (rule inner_then) (use hi f m in auto)
  have "json_space []" "heights ts + pb_depth (b2\<lparr>pb_offset := pb_offset b2 - 1\<rparr>) \<le> CJSON_NESTING_LIMIT"
    using hi b2(5) by (simp_all add: json_space_def)
  with assms(3) b2(3,4) obtain b3 where b3: "parse_elements m [] (b2\<lparr>pb_offset := pb_offset b2 - 1\<rparr>) = Inr (Some ts, b3)"
    "moved (Suc (length s)) (b2\<lparr>pb_offset := pb_offset b2 - 1\<rparr>) b3"
    unfolding reads_elements_def by (metis append_Nil list.size(3) plus_nat.add_0)
  moreover have "parse_value (Suc n) b = parse_array n b"
    using parse_value_dispatch [OF b, of n] by (simp add: is_digit_char_def)
  ultimately show "\<exists>b'. parse_value (Suc n) b = Inr (Some (cJSON_Array ts), b') \<and>
      moved (length (''['' @ w @ s @ '']'')) b b'"
    using m b2(1,2) b2(6) [OF b3(2)] hi s(3) bracket_at(1) [OF b, of "pb_depth b + 1"] by (simp add: parse_array.simps)
qed

lemma reads_empty_object:
  assumes "json_space w"
  shows "reads_value (cJSON_Object []) (''{'' @ w @ ''}'')"
  unfolding reads_value_def
proof (intro allI impI, elim conjE)
  fix n b c r
  assume "rest_is b ((''{'' @ w @ ''}'') @ c # r)" and f: "ample n b"
    and hi: "height (cJSON_Object []) + pb_depth b \<le> CJSON_NESTING_LIMIT"
  then have b: "rest_is b (CHR ''{'' # w @ CHR ''}'' # c # r)" by simp
  then obtain b2 where b2: "buffer_skip_whitespace (advance 1 (b\<lparr>pb_depth := pb_depth b + 1\<rparr>)) = Inr b2"
    "peek b2 = Inr (Some (CHR ''}''))" "moved (Suc (length w)) (b\<lparr>pb_depth := pb_depth b + 1\<rparr>) b2"
    using assms by (rule open_then) (use hi in simp_all)
  from f b obtain m where m: "n = Suc m" by (cases n) (simp_all add: ample_rest)
  from parse_value_dispatch [OF b, of n] have "parse_value (Suc n) b = parse_object n b" by (simp add: is_digit_char_def)
  with m b2 hi bracket_at(2) [OF b, of "pb_depth b + 1"] close_moved [OF b2(3)]
  show "\<exists>b'. parse_value (Suc n) b = Inr (Some (cJSON_Object []), b') \<and> moved (length (''{'' @ w @ ''}'')) b b'"
    by (simp add: parse_object.simps)
qed

lemma reads_object:
  assumes "json_space w" and "json_members kvs s" and "reads_members kvs s"
  shows "reads_value (cJSON_Object kvs) (''{'' @ w @ s @ ''}'')"
  unfolding reads_value_def
proof (intro allI impI, elim conjE)
  fix n b c r
  assume "rest_is b ((''{'' @ w @ s @ ''}'') @ c # r)" and f: "ample n b"
    and hi: "height (cJSON_Object kvs) + pb_depth b \<le> CJSON_NESTING_LIMIT"
  then have b: "rest_is b (CHR ''{'' # w @ s @ CHR ''}'' # c # r)" by simp
  from json_hd(3) [OF assms(2)] obtain q where s: "s = CHR 0x22 # q" "32 < (of_char (CHR 0x22) :: nat)" by auto
  from f b obtain m where m: "n = Suc m" by (cases n) (simp_all add: ample_rest)
  obtain a b2 where b2: "buffer_skip_whitespace (advance 1 (b\<lparr>pb_depth := pb_depth b + 1\<rparr>)) = Inr b2"
    "peek b2 = Inr (Some (CHR 0x22))" "rest_is (b2\<lparr>pb_offset := pb_offset b2 - 1\<rparr>) (a # [] @ s @ CHR ''}'' # c # r)"
    "ample (Suc m) (b2\<lparr>pb_offset := pb_offset b2 - 1\<rparr>)" "pb_depth b2 = pb_depth b + 1"
    "\<And>b3. moved (Suc (length s)) (b2\<lparr>pb_offset := pb_offset b2 - 1\<rparr>) b3 \<Longrightarrow>
      peek b3 = Inr (Some (CHR ''}'')) \<and> moved (length w + length s + 2) b (close_nested b3)"
    using b assms(1) s(1,2) by (rule inner_then) (use hi f m in auto)
  have "json_space []" "heights (map snd kvs) + pb_depth (b2\<lparr>pb_offset := pb_offset b2 - 1\<rparr>) \<le> CJSON_NESTING_LIMIT"
    using hi b2(5) by (simp_all add: json_space_def)
  with assms(3) b2(3,4) obtain b3 where b3: "parse_members m [] (b2\<lparr>pb_offset := pb_offset b2 - 1\<rparr>) = Inr (Some kvs, b3)"
    "moved (Suc (length s)) (b2\<lparr>pb_offset := pb_offset b2 - 1\<rparr>) b3"
    unfolding reads_members_def by (metis append_Nil list.size(3) plus_nat.add_0)
  moreover have "parse_value (Suc n) b = parse_object n b"
    using parse_value_dispatch [OF b, of n] by (simp add: is_digit_char_def)
  ultimately show "\<exists>b'. parse_value (Suc n) b = Inr (Some (cJSON_Object kvs), b') \<and>
      moved (length (''{'' @ w @ s @ ''}'')) b b'"
    using m b2(1,2) b2(6) [OF b3(2)] hi bracket_at(2) [OF b, of "pb_depth b + 1"] by (simp add: parse_object.simps)
qed

subsection \<open>Whole documents\<close>

lemma reads_document:
  "json_value t s \<Longrightarrow> reads_value t s"
  "json_elements ts s \<Longrightarrow> reads_elements ts s"
  "json_members kvs s \<Longrightarrow> reads_members kvs s"
proof (induction rule: json_value_json_elements_json_members.inducts)
qed (blast intro: reads_literals reads_number reads_string reads_empty_array reads_array reads_empty_object
    reads_object reads_element_last reads_element_more reads_member_last reads_member_more)+

lemma number_char_nul: "list_all number_char s \<Longrightarrow> nul \<notin> set s"
  using delimiters(4) by (auto simp: list_all_iff)

lemma json_chars_text_nul: "json_chars cs s \<Longrightarrow> nul \<notin> set s"
  by (induction rule: json_chars.induct) (auto simp: simple_escape.simps nul_def split: if_splits)

lemma json_space_nul: "json_space w \<Longrightarrow> nul \<notin> set w"
  by (auto simp: json_space_def nul_def)

lemma json_text_nul:
  "json_value t s \<Longrightarrow> nul \<notin> set s"
  "json_elements ts s \<Longrightarrow> nul \<notin> set s"
  "json_members kvs s \<Longrightarrow> nul \<notin> set s"
proof (induction rule: json_value_json_elements_json_members.inducts)
  case (value_number whole f x neg v)
  then show ?case using number_char_nul [OF number_text_chars] by blast
qed (auto dest: json_chars_text_nul json_space_nul simp: nul_def)

lemma no_bom:
  assumes "json_value t s" and "json_space w"
  obtains c r where "w @ s = c # r" "c \<noteq> CHR 0xEF"
proof -
  from json_hd(1) [OF assms(1)] have "s \<noteq> []" "hd s \<noteq> CHR 0xEF" by auto
  with assms(2) that show thesis
    by (cases w; cases s) (auto simp: json_space_def)
qed

lemma document_start:
  assumes "json_value t s" and "json_space w" and "hp_answers h = (\<lambda>_. True)"
  obtains h1 b2 where "cJSON_New_Item h = (True, h1)"
    "skip_utf8_bom \<lparr>pb_content = w @ s @ q @ [nul], pb_length = length (w @ s @ q @ [nul]), pb_offset = 0, pb_depth = 0, pb_heap = h1\<rparr> =
      Inr (Some \<lparr>pb_content = w @ s @ q @ [nul], pb_length = length (w @ s @ q @ [nul]), pb_offset = 0, pb_depth = 0, pb_heap = h1\<rparr>)"
    "buffer_skip_whitespace \<lparr>pb_content = w @ s @ q @ [nul], pb_length = length (w @ s @ q @ [nul]), pb_offset = 0, pb_depth = 0,
       pb_heap = h1\<rparr> = Inr b2"
    "rest_is b2 (s @ q @ [nul])" "pb_depth b2 = 0"
proof -
  obtain h1 where h1: "allocate h = (True, h1)" "hp_answers h1 = (\<lambda>_. True)" using assms(3) by (rule allocate_plenty)
  let ?b = "\<lparr>pb_content = w @ s @ q @ [nul], pb_length = length (w @ s @ q @ [nul]), pb_offset = 0, pb_depth = 0, pb_heap = h1\<rparr>"
  obtain c r where c: "w @ s = c # r" "c \<noteq> CHR 0xEF" using assms(1,2) by (rule no_bom)
  then have "drop 0 (pb_content ?b) = c # r @ q @ [nul]" by (metis append.assoc append_Cons drop_0 parse_buffer.select_convs(1))
  from char_at_drop [OF this] c(2) have bom: "skip_utf8_bom ?b = Inr (Some ?b)" by (simp add: skip_utf8_bom_def)
  from json_hd(1) [OF assms(1)] obtain d p where s: "s = d # p" "32 < (of_char d :: nat)" by auto
  have "rest_is ?b (w @ d # p @ q @ [nul])" using h1(2) s(1) by (simp add: rest_is_def wf_buffer_def plenty_def)
  then obtain b2 where "buffer_skip_whitespace ?b = Inr b2" "moved (length w) ?b b2" "rest_is b2 (d # p @ q @ [nul])"
    using assms(2) s(2) by (rule skip_white)
  with h1 bom s(1) show thesis by (intro that [of h1 b2]) (auto simp: cJSON_New_Item_def moved_def)
qed

lemma c_str_append: "nul \<notin> set s \<Longrightarrow> c_str (s @ q) = s @ c_str q"
  by (induction s) (auto simp: c_str_def)

lemma cJSON_Parse_document:
  assumes t: "json_value t s" "height t \<le> CJSON_NESTING_LIMIT" and w: "json_space w"
    and q: "q = [] \<or> \<not> number_char (hd q)" and h: "hp_answers h = (\<lambda>_. True)"
  shows "\<exists>h'. cJSON_Parse err h (Some (w @ s @ q)) = Inr (Some t, \<lparr>err_set = False, err_position = 0\<rparr>, h')"
proof -
  let ?n = "length (w @ s @ c_str q @ [nul])"
  have cut: "c_str (w @ s @ q) @ [nul] = w @ s @ c_str q @ [nul]"
    using json_text_nul(1) [OF t(1)] json_space_nul [OF w] by (simp add: c_str_append)
  obtain h1 b2 where b2: "cJSON_New_Item h = (True, h1)"
    "skip_utf8_bom \<lparr>pb_content = w @ s @ c_str q @ [nul], pb_length = ?n, pb_offset = 0, pb_depth = 0, pb_heap = h1\<rparr> =
      Inr (Some \<lparr>pb_content = w @ s @ c_str q @ [nul], pb_length = ?n, pb_offset = 0, pb_depth = 0, pb_heap = h1\<rparr>)"
    "buffer_skip_whitespace \<lparr>pb_content = w @ s @ c_str q @ [nul], pb_length = ?n, pb_offset = 0, pb_depth = 0,
       pb_heap = h1\<rparr> = Inr b2"
    "rest_is b2 (s @ c_str q @ [nul])" "pb_depth b2 = 0"
    using t(1) w h by (rule document_start)
  have "\<exists>c r. c_str q @ [nul] = c # r \<and> \<not> number_char c"
    using q by (cases q; cases "hd q = nul") (auto simp: c_str_def)
  then obtain c r where c: "c_str q @ [nul] = c # r" "\<not> number_char c" by auto
  have "ample (3 * ?n) b2" using ample_rest [OF b2(4)] by simp
  with reads_document(1) [OF t(1)] b2(4,5) c t(2) obtain b3 where
    "parse_value (Suc (3 * ?n)) b2 = Inr (Some t, b3)" unfolding reads_value_def by (metis add_0_right)
  moreover have "parse_fuel ?n = Suc (3 * ?n)" by (simp add: parse_fuel_def)
  moreover have "length (c_str (w @ s @ q)) + 1 = ?n" "c_str (w @ s @ q) @ [nul] = w @ s @ c_str q @ [nul]"
    using cut by (metis length_append_singleton Suc_eq_plus1) (rule cut)
  ultimately show ?thesis using b2(1-3)
    unfolding cJSON_Parse_def cJSON_ParseWithOpts_def option.case by (simp add: cJSON_ParseWithLengthOpts_def Let_def)
qed

text \<open>
  C19. The JSON reader reads JSON: of every text that consists of white space, a document of the
  grammar nested at most \<^verbatim>\<open>CJSON_NESTING_LIMIT\<close> deep and anything that does not continue a
  number, \<^verbatim>\<open>cJSON_Parse\<close> returns the value of the document and reports no error, provided
  memory lasts; characters after the document are ignored.
\<close>

theorem cJSON_Parse_reads_json:
  assumes "json_value t s" and "height t \<le> CJSON_NESTING_LIMIT" and "json_space w"
    and "q = [] \<or> \<not> number_char (hd q)" and "hp_answers h = (\<lambda>_. True)"
  shows "\<exists>h'. cJSON_Parse err h (Some (w @ s @ q)) = Inr (Some t, \<lparr>err_set = False, err_position = 0\<rparr>, h')"
  by (rule cJSON_Parse_document [OF assms])

lemma number_demo: "json_value (cJSON_Number (- 25) (Fin (- 25))) ''-2.5e1''"
proof -
  have "round64 25 = Fin 25" by (simp add: round_eval)
  then have v: "number_value True ''2'' ''5'' (Some (CHR ''e'', '''', ''1'')) = Fin (- 25)"
    by (simp add: number_value_def exponent_value_def pow10_def)
  have "json_value (cJSON_Number (saturated_int (Fin (- 25))) (Fin (- 25))) (number_text True ''2'' ''5'' (Some (CHR ''e'', '''', ''1'')))"
    by (rule value_number) (simp_all add: v number_wf_def exponent_wf_def is_digit_char_def number_text_def
        fraction_text_def exponent_text_def)
  moreover have "number_text True ''2'' ''5'' (Some (CHR ''e'', '''', ''1'')) = ''-2.5e1''"
    by (simp add: number_text_def fraction_text_def exponent_text_def)
  moreover have "saturated_int (Fin (- 25)) = - 25" by (simp add: saturated_int_def trunc_rat_def)
  ultimately show ?thesis by simp
qed

lemma document_demo:
  "json_value (cJSON_Object [(''deadband'', cJSON_Array [cJSON_Number (- 25) (Fin (- 25)), cJSON_True])])
     (''{'' @ [] @ (CHR 0x22 # ''deadband'' @ [CHR 0x22] @ [] @ '':'' @ '' '' @
        (''['' @ [] @ (''-2.5e1'' @ [] @ '','' @ '' '' @ ''true'' @ []) @ '']'') @ []) @ ''}'')"
  by (intro value_object member_last value_array element_more element_last value_true number_demo)
    (auto simp: json_space_def nul_def intro!: json_chars.intros)

theorem cJSON_Parse_reads_json_witness:
  "\<exists>h'. cJSON_Parse \<lparr>err_set = False, err_position = 0\<rparr> \<lparr>hp_answers = (\<lambda>_. True), hp_calls = 0, hp_live = 0\<rparr>
     (Some (''{'' @ CHR 0x22 # ''deadband'' @ CHR 0x22 # '': [-2.5e1, true]} trailing'')) =
   Inr (Some (cJSON_Object [(''deadband'', cJSON_Array [cJSON_Number (- 25) (Fin (- 25)), cJSON_True])]),
     \<lparr>err_set = False, err_position = 0\<rparr>, h')"
proof -
  let ?t = "cJSON_Object [(''deadband'', cJSON_Array [cJSON_Number (- 25) (Fin (- 25)), cJSON_True])]"
  have "height ?t \<le> CJSON_NESTING_LIMIT" by (simp add: CJSON_NESTING_LIMIT_def)
  from cJSON_Parse_reads_json [OF document_demo this, of "[]" "'' trailing''"
      "\<lparr>hp_answers = (\<lambda>_. True), hp_calls = 0, hp_live = 0\<rparr>" "\<lparr>err_set = False, err_position = 0\<rparr>"]
  show ?thesis by (simp add: json_space_def number_char_def)
qed

end
