(* ===== verification/Gateway_Config.thy ===== *)
theory Gateway_Config
  imports Device_Model Cjson_Grammar
begin

text \<open>
  The configuration manager, \<^verbatim>\<open>src/src/platform/config.{h,c}\<close>: the parameter record,
  its built-in defaults and the JSON loader that overrides them key by key.

  The document is read by the vendored cJSON, modelled in \<open>Cjson\<close>, on the heap \<open>mem\<close>; the
  file contents are the parameter \<open>fs\<close>. Numbers of a JSON
  document are doubles. Casting one to an unsigned integer is undefined when its integral part
  does not fit, so the loader's result is an \<open>option\<close> whose \<open>None\<close> is undefined behaviour:
  the lemmas say exactly for which documents it is defined, what every field then holds, and
  that every string member stays inside its array.
\<close>

subsection \<open>Parameters and defaults\<close>

record gateway_config_t =
  cfg_device_id :: string
  cfg_simulate :: bool
  cfg_serial_device :: string
  cfg_poll_interval_ms :: u32
  cfg_queue_size :: u32
  cfg_deadband :: double
  cfg_temp_high :: double
  cfg_peak_shaving_threshold_kw :: double
  cfg_max_discharge_kw :: double
  cfg_min_discharge_soc :: double
  cfg_broker_host :: string
  cfg_broker_port :: u16
  cfg_mqtt_topic :: string
  cfg_mqtt_alarm_topic :: string
  cfg_mqtt_heartbeat_topic :: string
  cfg_log_dir :: string
  cfg_metrics_path :: string
  cfg_cache_path :: string
  cfg_use_sqlite :: bool
  cfg_sqlite_path :: string
  cfg_mqtt_replay_batch :: u32
  cfg_mqtt_keepalive_sec :: u32
  cfg_watchdog_interval_ms :: u32
  cfg_heartbeat_interval_ms :: u32
  cfg_modbus_transport :: string
  cfg_modbus_tcp_host :: string
  cfg_modbus_tcp_port :: u16
  cfg_modbus_slave_id :: u8
  cfg_modbus_baud_rate :: u32
  cfg_modbus_parity :: char
  cfg_modbus_data_bits :: u8
  cfg_modbus_stop_bits :: u8
  cfg_modbus_timeout_ms :: u32

definition gateway_config_defaults :: gateway_config_t where
  "gateway_config_defaults = \<lparr>
     cfg_device_id = copy_string '''' 32 (Some ''gw-dev''),
     cfg_simulate = True,
     cfg_serial_device = copy_string '''' 128 (Some ''/dev/ttyUSB0''),
     cfg_poll_interval_ms = 1000,
     cfg_queue_size = 1024,
     cfg_deadband = round64 (1 / 10),
     cfg_temp_high = Fin 55,
     cfg_peak_shaving_threshold_kw = Fin 100,
     cfg_max_discharge_kw = Fin 30,
     cfg_min_discharge_soc = Fin 20,
     cfg_broker_host = copy_string '''' 128 (Some ''127.0.0.1''),
     cfg_broker_port = 1883,
     cfg_mqtt_topic = copy_string '''' 128 (Some ''edgeflow/telemetry''),
     cfg_mqtt_alarm_topic = copy_string '''' 128 (Some ''edgeflow/alarm''),
     cfg_mqtt_heartbeat_topic = copy_string '''' 128 (Some ''edgeflow/heartbeat''),
     cfg_log_dir = copy_string '''' 128 (Some ''/tmp/edgeflow''),
     cfg_metrics_path = copy_string '''' 128 (Some ''/tmp/edgeflow/metrics.prom''),
     cfg_cache_path = copy_string '''' 128 (Some ''/tmp/edgeflow/offline-cache.jsonl''),
     cfg_use_sqlite = True,
     cfg_sqlite_path = copy_string '''' 128 (Some ''/tmp/edgeflow/edgeflow.db''),
     cfg_mqtt_replay_batch = 50,
     cfg_mqtt_keepalive_sec = 60,
     cfg_watchdog_interval_ms = 2000,
     cfg_heartbeat_interval_ms = 5000,
     cfg_modbus_transport = copy_string '''' 8 (Some ''rtu''),
     cfg_modbus_tcp_host = copy_string '''' 128 (Some ''127.0.0.1''),
     cfg_modbus_tcp_port = 502,
     cfg_modbus_slave_id = 1,
     cfg_modbus_baud_rate = 9600,
     cfg_modbus_parity = CHR ''N'',
     cfg_modbus_data_bits = 8,
     cfg_modbus_stop_bits = 1,
     cfg_modbus_timeout_ms = 500\<rparr>"

subsection \<open>Reading the file\<close>

text \<open>What the C library answers for one path: each call of \<^verbatim>\<open>read_file\<close> in turn.\<close>

record file_io =
  fr_open :: bool
  fr_seek_end :: bool
  fr_size :: int
  fr_seek_set :: bool
  fr_calloc :: bool
  fr_data :: string

definition read_file :: "(string \<Rightarrow> file_io) \<Rightarrow> string \<Rightarrow> string option" where
  "read_file fs path =
     (let f = fs path
      in if \<not> fr_open f then None
         else if \<not> fr_seek_end f then None
         else if fr_size f < 0 \<or> \<not> fr_seek_set f then None
         else if \<not> fr_calloc f then None
         else if int (length (fr_data f)) \<noteq> fr_size f then None
         else Some (c_str (fr_data f)))"

subsection \<open>Copying single keys\<close>

definition json_copy_string :: "cJSON \<Rightarrow> string \<Rightarrow> string \<Rightarrow> nat \<Rightarrow> string" where
  "json_copy_string jroot key dst dst_len =
     (case cJSON_GetObjectItemCaseSensitive jroot key of
        Some (cJSON_String (Some s)) \<Rightarrow> copy_string dst dst_len (Some s)
      | _ \<Rightarrow> dst)"

definition json_copy_bool :: "cJSON \<Rightarrow> string \<Rightarrow> bool \<Rightarrow> bool" where
  "json_copy_bool jroot key dst =
     (let item = cJSON_GetObjectItemCaseSensitive jroot key
      in if cJSON_IsBool item then cJSON_IsTrue item else dst)"

definition json_copy_uint32 :: "cJSON \<Rightarrow> string \<Rightarrow> u32 \<Rightarrow> u32 option" where
  "json_copy_uint32 jroot key dst =
     (case cJSON_GetObjectItemCaseSensitive jroot key of
        Some (cJSON_Number _ v) \<Rightarrow> map_option of_nat (double_to_uint 32 v)
      | _ \<Rightarrow> Some dst)"

definition json_copy_uint16 :: "cJSON \<Rightarrow> string \<Rightarrow> u16 \<Rightarrow> u16 option" where
  "json_copy_uint16 jroot key dst =
     (case cJSON_GetObjectItemCaseSensitive jroot key of
        Some (cJSON_Number _ v) \<Rightarrow> map_option of_nat (double_to_uint 16 v)
      | _ \<Rightarrow> Some dst)"

definition json_copy_uint8 :: "cJSON \<Rightarrow> string \<Rightarrow> u8 \<Rightarrow> u8 option" where
  "json_copy_uint8 jroot key dst =
     (case cJSON_GetObjectItemCaseSensitive jroot key of
        Some (cJSON_Number _ v) \<Rightarrow> map_option of_nat (double_to_uint 8 v)
      | _ \<Rightarrow> Some dst)"

definition json_copy_double :: "cJSON \<Rightarrow> string \<Rightarrow> double \<Rightarrow> double" where
  "json_copy_double jroot key dst =
     (case cJSON_GetObjectItemCaseSensitive jroot key of
        Some (cJSON_Number _ v) \<Rightarrow> v
      | _ \<Rightarrow> dst)"

definition json_copy_parity :: "cJSON \<Rightarrow> string \<Rightarrow> char \<Rightarrow> char" where
  "json_copy_parity jroot key dst =
     (case cJSON_GetObjectItemCaseSensitive jroot key of
        Some (cJSON_String (Some s)) \<Rightarrow> (case c_str s of [] \<Rightarrow> dst | c # _ \<Rightarrow> c)
      | _ \<Rightarrow> dst)"

subsection \<open>Loading\<close>

text \<open>
  The sequence of \<^verbatim>\<open>json_copy_*\<close> calls of \<^verbatim>\<open>gateway_config_load\<close>. Every call reads one
  key and writes one member, so their order is immaterial; one undefined cast makes the
  whole load undefined.
\<close>

definition config_apply_json :: "cJSON \<Rightarrow> gateway_config_t \<Rightarrow> gateway_config_t option" where
  "config_apply_json jroot c =
     Option.bind (json_copy_uint32 jroot ''poll_interval_ms'' (cfg_poll_interval_ms c)) (\<lambda>poll_interval_ms.
     Option.bind (json_copy_uint32 jroot ''queue_size'' (cfg_queue_size c)) (\<lambda>queue_size.
     Option.bind (json_copy_uint16 jroot ''broker_port'' (cfg_broker_port c)) (\<lambda>broker_port.
     Option.bind (json_copy_uint32 jroot ''mqtt_replay_batch'' (cfg_mqtt_replay_batch c)) (\<lambda>mqtt_replay_batch.
     Option.bind (json_copy_uint32 jroot ''mqtt_keepalive_sec'' (cfg_mqtt_keepalive_sec c)) (\<lambda>mqtt_keepalive_sec.
     Option.bind (json_copy_uint32 jroot ''watchdog_interval_ms'' (cfg_watchdog_interval_ms c)) (\<lambda>watchdog_interval_ms.
     Option.bind (json_copy_uint32 jroot ''heartbeat_interval_ms'' (cfg_heartbeat_interval_ms c)) (\<lambda>heartbeat_interval_ms.
     Option.bind (json_copy_uint16 jroot ''modbus_tcp_port'' (cfg_modbus_tcp_port c)) (\<lambda>modbus_tcp_port.
     Option.bind (json_copy_uint8 jroot ''modbus_slave_id'' (cfg_modbus_slave_id c)) (\<lambda>modbus_slave_id.
     Option.bind (json_copy_uint32 jroot ''modbus_baud_rate'' (cfg_modbus_baud_rate c)) (\<lambda>modbus_baud_rate.
     Option.bind (json_copy_uint8 jroot ''modbus_data_bits'' (cfg_modbus_data_bits c)) (\<lambda>modbus_data_bits.
     Option.bind (json_copy_uint8 jroot ''modbus_stop_bits'' (cfg_modbus_stop_bits c)) (\<lambda>modbus_stop_bits.
     Option.bind (json_copy_uint32 jroot ''modbus_timeout_ms'' (cfg_modbus_timeout_ms c)) (\<lambda>modbus_timeout_ms.
     Some \<lparr>
       cfg_device_id = json_copy_string jroot ''device_id'' (cfg_device_id c) 32,
       cfg_simulate = json_copy_bool jroot ''simulate'' (cfg_simulate c),
       cfg_serial_device = json_copy_string jroot ''serial_device'' (cfg_serial_device c) 128,
       cfg_poll_interval_ms = poll_interval_ms,
       cfg_queue_size = queue_size,
       cfg_deadband = json_copy_double jroot ''deadband'' (cfg_deadband c),
       cfg_temp_high = json_copy_double jroot ''temp_high'' (cfg_temp_high c),
       cfg_peak_shaving_threshold_kw =
         json_copy_double jroot ''peak_shaving_threshold_kw'' (cfg_peak_shaving_threshold_kw c),
       cfg_max_discharge_kw = json_copy_double jroot ''max_discharge_kw'' (cfg_max_discharge_kw c),
       cfg_min_discharge_soc = json_copy_double jroot ''min_discharge_soc'' (cfg_min_discharge_soc c),
       cfg_broker_host = json_copy_string jroot ''broker_host'' (cfg_broker_host c) 128,
       cfg_broker_port = broker_port,
       cfg_mqtt_topic = json_copy_string jroot ''mqtt_topic'' (cfg_mqtt_topic c) 128,
       cfg_mqtt_alarm_topic = json_copy_string jroot ''mqtt_alarm_topic'' (cfg_mqtt_alarm_topic c) 128,
       cfg_mqtt_heartbeat_topic =
         json_copy_string jroot ''mqtt_heartbeat_topic'' (cfg_mqtt_heartbeat_topic c) 128,
       cfg_log_dir = json_copy_string jroot ''log_dir'' (cfg_log_dir c) 128,
       cfg_metrics_path = json_copy_string jroot ''metrics_path'' (cfg_metrics_path c) 128,
       cfg_cache_path = json_copy_string jroot ''cache_path'' (cfg_cache_path c) 128,
       cfg_use_sqlite = json_copy_bool jroot ''use_sqlite'' (cfg_use_sqlite c),
       cfg_sqlite_path = json_copy_string jroot ''sqlite_path'' (cfg_sqlite_path c) 128,
       cfg_mqtt_replay_batch = mqtt_replay_batch,
       cfg_mqtt_keepalive_sec = mqtt_keepalive_sec,
       cfg_watchdog_interval_ms = watchdog_interval_ms,
       cfg_heartbeat_interval_ms = heartbeat_interval_ms,
       cfg_modbus_transport = json_copy_string jroot ''modbus_transport'' (cfg_modbus_transport c) 8,
       cfg_modbus_tcp_host = json_copy_string jroot ''modbus_tcp_host'' (cfg_modbus_tcp_host c) 128,
       cfg_modbus_tcp_port = modbus_tcp_port,
       cfg_modbus_slave_id = modbus_slave_id,
       cfg_modbus_baud_rate = modbus_baud_rate,
       cfg_modbus_parity = json_copy_parity jroot ''modbus_parity'' (cfg_modbus_parity c),
       cfg_modbus_data_bits = modbus_data_bits,
       cfg_modbus_stop_bits = modbus_stop_bits,
       cfg_modbus_timeout_ms = modbus_timeout_ms\<rparr>)))))))))))))"

text \<open>The static \<^verbatim>\<open>global_error\<close> of cJSON, before the first parse of the process.\<close>

definition global_error :: cjson_error where
  "global_error = \<lparr>err_set = False, err_position = 0\<rparr>"

text \<open>
  \<open>None\<close> is undefined behaviour: a faulting access of the parser or an out-of-range cast.
  The lemmas show that the first does not happen and exactly when the second does.
\<close>

definition gateway_config_load ::
  "(string \<Rightarrow> file_io) \<Rightarrow> c_heap \<Rightarrow> string option \<Rightarrow> gateway_config_t option \<Rightarrow>
   (int \<times> gateway_config_t option \<times> c_heap) option" where
  "gateway_config_load fs mem path cfg =
     (case (path, cfg) of
        (Some p, Some _) \<Rightarrow>
          (case read_file fs p of
             None \<Rightarrow> Some (- 1, Some gateway_config_defaults, mem)
           | Some doc \<Rightarrow>
               (case cJSON_Parse global_error mem (Some doc) of
                  Inl _ \<Rightarrow> None
                | Inr (None, _, mem1) \<Rightarrow> Some (- 1, Some gateway_config_defaults, mem1)
                | Inr (Some jroot, _, mem1) \<Rightarrow>
                    if \<not> cJSON_IsObject (Some jroot)
                    then Some (- 1, Some gateway_config_defaults, cJSON_Delete jroot mem1)
                    else map_option (\<lambda>c. (0, Some c, cJSON_Delete jroot mem1))
                           (config_apply_json jroot gateway_config_defaults)))
      | _ \<Rightarrow> Some (- 1, cfg, mem))"

subsection \<open>String members stay inside their arrays\<close>

definition config_wf :: "gateway_config_t \<Rightarrow> bool" where
  "config_wf c \<longleftrightarrow>
     fits 32 (cfg_device_id c) \<and> fits 8 (cfg_modbus_transport c) \<and>
     list_all (fits 128)
       [cfg_serial_device c, cfg_broker_host c, cfg_mqtt_topic c, cfg_mqtt_alarm_topic c,
        cfg_mqtt_heartbeat_topic c, cfg_log_dir c, cfg_metrics_path c, cfg_cache_path c,
        cfg_sqlite_path c, cfg_modbus_tcp_host c]"

lemma config_defaults_wf [simp]: "config_wf gateway_config_defaults"
  by (simp add: config_wf_def gateway_config_defaults_def fits_intros)

lemma json_copy_string_fits [fits_intros]:
  "0 < n \<Longrightarrow> fits n dst \<Longrightarrow> fits n (json_copy_string jroot key dst n)"
  by (auto simp: json_copy_string_def fits_intros split: option.splits cJSON.splits)

lemma config_apply_json_wf:
  assumes "config_wf c" and "config_apply_json jroot c = Some c'"
  shows "config_wf c'"
  using assms by (auto simp: config_apply_json_def config_wf_def fits_intros bind_eq_Some_conv)

text \<open>What a load that opens its file does, by the outcome of the parse.\<close>

lemma config_load_cases:
  assumes "read_file fs path = Some doc"
  obtains (rejected) mem1 where "hp_live mem1 = hp_live mem"
      "\<nexists>kvs err mem1. cJSON_Parse global_error mem (Some doc) = Inr (Some (cJSON_Object kvs), err, mem1)"
      "gateway_config_load fs mem (Some path) (Some cfg) = Some (- 1, Some gateway_config_defaults, mem1)"
    | (object) kvs err mem1 mem2 where "cJSON_Parse global_error mem (Some doc) = Inr (Some (cJSON_Object kvs), err, mem1)"
      "hp_live mem2 = hp_live mem"
      "gateway_config_load fs mem (Some path) (Some cfg) =
        map_option (\<lambda>c. (0, Some c, mem2)) (config_apply_json (cJSON_Object kvs) gateway_config_defaults)"
proof -
  obtain item err mem1 where p: "cJSON_Parse global_error mem (Some doc) = Inr (item, err, mem1)"
    "item = None \<Longrightarrow> hp_live mem1 = hp_live mem"
    "\<And>t. item = Some t \<Longrightarrow> hp_live mem1 = hp_live mem + 1 + owned t \<and> height t \<le> CJSON_NESTING_LIMIT"
    by (rule cJSON_Parse_ok [of global_error mem doc]) blast
  show thesis
  proof (cases "\<exists>kvs. item = Some (cJSON_Object kvs)")
    case True
    then obtain kvs where kvs: "item = Some (cJSON_Object kvs)" ..
    with p(3) [OF kvs] p(1) assms show thesis
      by (intro object [of kvs err mem1 "cJSON_Delete (cJSON_Object kvs) mem1"])
        (simp_all add: gateway_config_load_def cJSON_Delete_live)
  next
    case False
    then have other: "\<not> cJSON_IsObject item" by (cases item rule: cJSON_IsObject.cases) auto
    let ?mem = "case item of None \<Rightarrow> mem1 | Some t \<Rightarrow> cJSON_Delete t mem1"
    have "hp_live ?mem = hp_live mem" using p(2,3) by (cases item) simp_all
    moreover have "gateway_config_load fs mem (Some path) (Some cfg) = Some (- 1, Some gateway_config_defaults, ?mem)"
      using p(1) other assms by (cases item) (simp_all add: gateway_config_load_def)
    ultimately show thesis using False p(1) by (intro rejected) auto
  qed
qed

text \<open>
  C32. The configuration loader keeps to its memory: whenever \<^verbatim>\<open>gateway_config_load\<close>
  returns, on success and on every failure alike, each string of the configuration is
  terminated inside its array, whatever the file holds and whatever \<^verbatim>\<open>malloc\<close> answers, and every
  heap block of the document has been freed.
\<close>

theorem config_load_wf:
  assumes "gateway_config_load fs mem (Some path) (Some cfg) = Some (rc, c, mem')"
  shows "(\<exists>c'. c = Some c' \<and> config_wf c') \<and> hp_live mem' = hp_live mem"
proof (cases "read_file fs path")
  case None
  with assms show ?thesis by (auto simp: gateway_config_load_def)
next
  case (Some doc)
  from Some show ?thesis
  proof (cases rule: config_load_cases [where mem = mem and cfg = cfg])
    case (rejected mem1)
    with assms show ?thesis by auto
  next
    case (object kvs err mem1 mem2)
    with assms show ?thesis by (auto dest: config_apply_json_wf [OF config_defaults_wf])
  qed
qed

definition demo_heap :: c_heap where
  "demo_heap = \<lparr>hp_answers = (\<lambda>_. True), hp_calls = 0, hp_live = 0\<rparr>"

definition demo_file :: "string \<Rightarrow> string \<Rightarrow> file_io" where
  "demo_file doc path = \<lparr>fr_open = True, fr_seek_end = True, fr_size = int (length doc), fr_seek_set = True,
     fr_calloc = True, fr_data = doc\<rparr>"

lemma read_demo_file: "nul \<notin> set doc \<Longrightarrow> read_file (demo_file doc) path = Some doc"
  by (simp add: read_file_def demo_file_def c_str_id)

lemma parse_demo:
  assumes "json_value t s" and "height t \<le> CJSON_NESTING_LIMIT"
  shows "\<exists>h'. cJSON_Parse err demo_heap (Some s) = Inr (Some t, \<lparr>err_set = False, err_position = 0\<rparr>, h')"
  using cJSON_Parse_document [OF assms, of "[]" "[]" demo_heap err] by (simp add: demo_heap_def json_space_def)

theorem config_load_wf_witness:
  "\<exists>c mem'. gateway_config_load (demo_file ''{}'') demo_heap (Some ''gateway.json'') (Some gateway_config_defaults) =
     Some (0, Some c, mem') \<and> config_wf c \<and> hp_live mem' = 0"
proof -
  have "json_value (cJSON_Object []) ''{}''" using value_empty_object [of "[]"] by (simp add: json_space_def)
  then obtain mem' where "cJSON_Parse global_error demo_heap (Some ''{}'') =
      Inr (Some (cJSON_Object []), \<lparr>err_set = False, err_position = 0\<rparr>, mem')"
    using parse_demo by (fastforce simp: CJSON_NESTING_LIMIT_def)
  moreover have "read_file (demo_file ''{}'') ''gateway.json'' = Some ''{}''" by (simp add: read_demo_file nul_def)
  ultimately obtain c where c: "gateway_config_load (demo_file ''{}'') demo_heap (Some ''gateway.json'') (Some gateway_config_defaults) =
      Some (0, Some c, cJSON_Delete (cJSON_Object []) mem')"
    by (simp add: gateway_config_load_def config_apply_json_def json_copy_uint32_def
        json_copy_uint16_def json_copy_uint8_def cJSON_GetObjectItemCaseSensitive_def)
  from config_load_wf [OF c] c show ?thesis by (auto simp: demo_heap_def)
qed

subsection \<open>When the load is defined\<close>

definition integer_keys :: "(string \<times> nat) list" where
  "integer_keys =
     [(''poll_interval_ms'', 32), (''queue_size'', 32), (''broker_port'', 16),
      (''mqtt_replay_batch'', 32), (''mqtt_keepalive_sec'', 32), (''watchdog_interval_ms'', 32),
      (''heartbeat_interval_ms'', 32), (''modbus_tcp_port'', 16), (''modbus_slave_id'', 8),
      (''modbus_baud_rate'', 32), (''modbus_data_bits'', 8), (''modbus_stop_bits'', 8),
      (''modbus_timeout_ms'', 32)]"

fun bad_cast :: "cJSON \<Rightarrow> string \<times> nat \<Rightarrow> bool" where
  "bad_cast jroot (key, w) =
     (case cJSON_GetObjectItemCaseSensitive jroot key of
        Some (cJSON_Number _ v) \<Rightarrow> double_to_uint w v = None
      | _ \<Rightarrow> False)"

lemma json_copy_uint_None:
  "json_copy_uint32 jroot key d32 = None \<longleftrightarrow> bad_cast jroot (key, 32)"
  "json_copy_uint16 jroot key d16 = None \<longleftrightarrow> bad_cast jroot (key, 16)"
  "json_copy_uint8 jroot key d8 = None \<longleftrightarrow> bad_cast jroot (key, 8)"
  by (simp_all add: json_copy_uint32_def json_copy_uint16_def json_copy_uint8_def
      split: option.splits cJSON.splits)

lemma bind_None_iff: "Option.bind x f = None \<longleftrightarrow> x = None \<or> (\<exists>a. x = Some a \<and> f a = None)"
  by (cases x) auto

lemma ex_Some_conj: "(\<exists>a. x = Some a \<and> Q) \<longleftrightarrow> x \<noteq> None \<and> Q"
  by auto

lemma disj_absorb: "P \<or> \<not> P \<and> Q \<longleftrightarrow> P \<or> Q"
  by blast

lemma config_apply_json_None:
  "config_apply_json jroot c = None \<longleftrightarrow> list_ex (bad_cast jroot) integer_keys"
  by (simp only: config_apply_json_def integer_keys_def list_ex_iff list.set bex_simps
      bind_None_iff ex_Some_conj json_copy_uint_None disj_absorb option.distinct simp_thms)

text \<open>
  C33. Out-of-range integers in a configuration file are undefined behaviour, and nothing else
  is: once the file is read, whatever its text, the load is undefined exactly when the text
  parses to an object one of whose thirteen integer keys holds a number whose integral part
  does not fit the member (\<^verbatim>\<open>(uint32_t)item->valuedouble\<close> and its 16- and 8-bit kin); where
  the text parses to an object without such a number the load succeeds, where it does not parse
  to an object it fails with the built-in defaults.
\<close>

theorem config_load_undefined_iff:
  assumes "read_file fs path = Some doc"
  shows "let load = gateway_config_load fs mem (Some path) (Some cfg);
      reads = (\<lambda>kvs. \<exists>err mem'. cJSON_Parse global_error mem (Some doc) = Inr (Some (cJSON_Object kvs), err, mem'))
    in (load = None \<longleftrightarrow> (\<exists>kvs. reads kvs \<and> list_ex (bad_cast (cJSON_Object kvs)) integer_keys)) \<and>
      (\<forall>kvs. reads kvs \<and> \<not> list_ex (bad_cast (cJSON_Object kvs)) integer_keys \<longrightarrow>
         (\<exists>c mem'. config_apply_json (cJSON_Object kvs) gateway_config_defaults = Some c \<and> load = Some (0, Some c, mem'))) \<and>
      ((\<nexists>kvs. reads kvs) \<longrightarrow> (\<exists>mem'. load = Some (- 1, Some gateway_config_defaults, mem')))"
  using assms
proof (cases rule: config_load_cases [where mem = mem and cfg = cfg])
  case (rejected mem1)
  then show ?thesis by (auto simp: Let_def)
next
  case (object kvs err mem1 mem2)
  then show ?thesis
    using config_apply_json_None [of "cJSON_Object kvs" gateway_config_defaults] by (fastforce simp: Let_def)
qed

theorem config_load_undefined_iff_witness:
  "gateway_config_load (demo_file (CHR ''{'' # CHR 0x22 # ''queue_size'' @ CHR 0x22 # '':-2}'')) demo_heap
     (Some ''gateway.json'') (Some gateway_config_defaults) = None"
proof -
  let ?doc = "CHR ''{'' # CHR 0x22 # ''queue_size'' @ CHR 0x22 # '':-2}''"
  let ?t = "cJSON_Object [(''queue_size'', cJSON_Number (- 2) (Fin (- 2)))]"
  have "round64 2 = Fin 2" by (simp add: round_eval)
  then have v: "number_value True ''2'' '''' None = Fin (- 2)"
    by (simp add: number_value_def exponent_value_def pow10_def)
  have "json_value (cJSON_Number (saturated_int (Fin (- 2))) (Fin (- 2))) (number_text True ''2'' '''' None)"
    by (rule value_number) (simp_all add: v number_wf_def exponent_wf_def is_digit_char_def number_text_def
        fraction_text_def exponent_text_def)
  then have "json_value (cJSON_Number (- 2) (Fin (- 2))) ''-2''"
    by (simp add: number_text_def fraction_text_def exponent_text_def saturated_int_def trunc_rat_def)
  moreover have "json_chars ''queue_size'' ''queue_size''" by (auto simp: nul_def intro!: json_chars.intros)
  moreover have "json_space []" by (simp add: json_space_def)
  ultimately have "json_value ?t ?doc"
    using value_object [OF _ member_last [of "''queue_size''" "''queue_size''" "[]" "[]" "cJSON_Number (- 2) (Fin (- 2))" "''-2''" "[]"], of "[]"]
    by simp
  then obtain err mem' where "cJSON_Parse global_error demo_heap (Some ?doc) = Inr (Some ?t, err, mem')"
    using parse_demo [of ?t ?doc global_error] by (auto simp: CJSON_NESTING_LIMIT_def)
  moreover have "list_ex (bad_cast ?t) integer_keys"
    by (simp add: integer_keys_def cJSON_GetObjectItemCaseSensitive_def double_to_uint_def trunc_rat_def)
  moreover have "read_file (demo_file ?doc) ''gateway.json'' = Some ?doc" by (rule read_demo_file) (simp add: nul_def)
  ultimately show ?thesis
    using config_load_undefined_iff [of "demo_file ?doc" "''gateway.json''" ?doc demo_heap gateway_config_defaults]
    unfolding Let_def by blast
qed

subsection \<open>What the fields hold\<close>

lemma json_copy_absent:
  assumes "cJSON_GetObjectItemCaseSensitive jroot key = None"
  shows "json_copy_string jroot key s n = s" "json_copy_bool jroot key b = b"
    "json_copy_uint32 jroot key x = Some x" "json_copy_uint16 jroot key y = Some y"
    "json_copy_uint8 jroot key z = Some z" "json_copy_double jroot key d = d"
    "json_copy_parity jroot key c = c"
  using assms by (simp_all add: json_copy_string_def json_copy_bool_def json_copy_uint32_def
      json_copy_uint16_def json_copy_uint8_def json_copy_double_def json_copy_parity_def)

end
