(* ===== verification/Storage.thy ===== *)
theory Storage
  imports Gateway_Config Platform "HOL-Library.Sublist"
begin

text \<open>
  The storage layer, \<^verbatim>\<open>src/src/platform/storage.{h,c}\<close>: every record is appended to a
  JSON-lines audit file and, when SQLite is on, inserted into a table with an upload mark that
  drives the replay of records the broker has not seen.

  SQLite is a parameter. \<open>sqlite_laws\<close> states what its documentation promises of the statements
  used here, relative to a view \<open>rows\<close> of the telemetry table: a completed insert appends one
  row with a fresh, larger key, an incomplete statement changes nothing, the pending query
  delivers rows in key order up to its limit (possibly fewer, after an error). The lemmas say
  what append, fetch, mark and count do to the list of pending rows.
\<close>

record storage_ctx_t =
  st_cfg :: gateway_config_t
  st_db :: bool

record storage_telemetry_row_t =
  sr_row_id :: int
  sr_point :: telemetry_t

subsection \<open>SQL text\<close>

definition SQL_SCHEMA :: string where
  "SQL_SCHEMA =
     ''PRAGMA journal_mode=WAL;'' @
     ''CREATE TABLE IF NOT EXISTS telemetry ('' @
     ''  id INTEGER PRIMARY KEY AUTOINCREMENT,'' @
     ''  ts_ms INTEGER NOT NULL,'' @
     ''  device_id TEXT NOT NULL,'' @
     ''  point_id TEXT NOT NULL,'' @
     ''  value REAL NOT NULL,'' @
     ''  unit TEXT,'' @
     ''  quality TEXT NOT NULL,'' @
     ''  uploaded INTEGER NOT NULL DEFAULT 0'' @
     '');'' @
     ''CREATE INDEX IF NOT EXISTS idx_telemetry_upload ON telemetry(uploaded, id);'' @
     ''CREATE TABLE IF NOT EXISTS alarms ('' @
     ''  id INTEGER PRIMARY KEY AUTOINCREMENT,'' @
     ''  alarm_id INTEGER, ts_ms INTEGER, device_id TEXT, code TEXT, level INTEGER,'' @
     ''  state TEXT, message TEXT, uploaded INTEGER DEFAULT 0'' @
     '');'' @
     ''CREATE TABLE IF NOT EXISTS commands ('' @
     ''  id INTEGER PRIMARY KEY AUTOINCREMENT,'' @
     ''  command_id INTEGER, target TEXT, point_id TEXT, value REAL,'' @
     ''  state TEXT, message TEXT, uploaded INTEGER DEFAULT 0'' @
     '');''"

definition SQL_INSERT_TELEMETRY :: string where
  "SQL_INSERT_TELEMETRY =
     ''INSERT INTO telemetry(ts_ms,device_id,point_id,value,unit,quality,uploaded)'' @
     '' VALUES(?,?,?,?,?,?,0);''"

definition SQL_INSERT_ALARM :: string where
  "SQL_INSERT_ALARM =
     ''INSERT INTO alarms(alarm_id,ts_ms,device_id,code,level,state,message,uploaded)'' @
     '' VALUES(?,?,?,?,?,?,?,0);''"

definition SQL_INSERT_COMMAND :: string where
  "SQL_INSERT_COMMAND =
     ''INSERT INTO commands(command_id,target,point_id,value,state,message,uploaded)'' @
     '' VALUES(?,?,?,?,?,?,0);''"

definition SQL_SELECT_PENDING :: string where
  "SQL_SELECT_PENDING =
     ''SELECT id,ts_ms,device_id,point_id,value,unit,quality FROM telemetry '' @
     ''WHERE uploaded=0 ORDER BY id ASC LIMIT ?;''"

definition SQL_MARK_UPLOADED :: string where
  "SQL_MARK_UPLOADED = ''UPDATE telemetry SET uploaded=1 WHERE id=?;''"

definition SQL_COUNT_PENDING :: string where
  "SQL_COUNT_PENDING = ''SELECT COUNT(*) FROM telemetry WHERE uploaded=0;''"

subsection \<open>Calls into SQLite\<close>

definition db_open :: "string \<Rightarrow> 'd env \<Rightarrow> bool \<times> 'd env" where
  "db_open path w = (case sq_open (env_sqlite w) (env_db w) path of (ok, d) \<Rightarrow> (ok, w\<lparr>env_db := d\<rparr>))"

definition db_exec :: "string \<Rightarrow> 'd env \<Rightarrow> bool \<times> 'd env" where
  "db_exec sql w = (case sq_exec (env_sqlite w) (env_db w) sql of (ok, d) \<Rightarrow> (ok, w\<lparr>env_db := d\<rparr>))"

definition db_prepare :: "string \<Rightarrow> 'd env \<Rightarrow> bool \<times> 'd env" where
  "db_prepare sql w = (case sq_prepare (env_sqlite w) (env_db w) sql of (ok, d) \<Rightarrow> (ok, w\<lparr>env_db := d\<rparr>))"

definition db_step :: "string \<Rightarrow> sql_value list \<Rightarrow> 'd env \<Rightarrow> bool \<times> 'd env" where
  "db_step sql vals w = (case sq_step (env_sqlite w) (env_db w) sql vals of (ok, d) \<Rightarrow> (ok, w\<lparr>env_db := d\<rparr>))"

definition db_rows :: "string \<Rightarrow> sql_value list \<Rightarrow> 'd env \<Rightarrow> sql_value list list \<times> 'd env" where
  "db_rows sql vals w = (case sq_rows (env_sqlite w) (env_db w) sql vals of (rs, d) \<Rightarrow> (rs, w\<lparr>env_db := d\<rparr>))"

definition db_close :: "'d env \<Rightarrow> 'd env" where
  "db_close w = w\<lparr>env_db := sq_close (env_sqlite w) (env_db w)\<rparr>"

text \<open>Prepare, bind, step and finalize one data-changing statement.\<close>

definition db_modify :: "string \<Rightarrow> sql_value list \<Rightarrow> 'd env \<Rightarrow> bool \<times> 'd env" where
  "db_modify sql vals w =
     (case db_prepare sql w of (ok, w1) \<Rightarrow> if \<not> ok then (False, w1) else db_step sql vals w1)"

text \<open>A 64-bit value as \<^verbatim>\<open>sqlite3_int64\<close> and back.\<close>

definition sql_u64 :: "u64 \<Rightarrow> sql_value" where
  "sql_u64 x = SQL_INT (sint x)"

subsection \<open>Audit lines\<close>

definition append_jsonl_line :: "string \<Rightarrow> string \<Rightarrow> 'd env \<Rightarrow> int \<times> 'd env" where
  "append_jsonl_line path line w =
     (case syscall (C_fopen path ''a'') w of
        (r, w1) \<Rightarrow> if r = 0 then (- 1, w1) else (0, append_file path (line @ [CHR 0x0A]) w1))"

definition telemetry_line :: "telemetry_t \<Rightarrow> string" where
  \<open>telemetry_line point = snprintf 512
     (''{"type":"telemetry","ts_ms":'' @ show_word (tl_ts_ms point) @ '',"device_id":"'' @ tl_device_id point @
      ''","point_id":"'' @ tl_point_id point @ ''","value":'' @ show_fixed 4 (tl_value point) @
      '',"unit":"'' @ tl_unit point @ ''","quality":"'' @ telemetry_quality_to_string (tl_quality point) @ ''"}'')\<close>

definition jsonl_append_telemetry :: "string \<Rightarrow> telemetry_t \<Rightarrow> 'd env \<Rightarrow> int \<times> 'd env" where
  "jsonl_append_telemetry path point w = append_jsonl_line path (telemetry_line point) w"

definition alarm_line :: "alarm_event_t \<Rightarrow> string" where
  \<open>alarm_line alarm = snprintf 640
     (''{"type":"alarm","code":"'' @ al_code alarm @ ''","device_id":"'' @ al_device_id alarm @ ''"}'')\<close>

definition command_line :: "command_t \<Rightarrow> string" where
  \<open>command_line command = snprintf 640
     (''{"type":"command","id":'' @ show_word (cmd_command_id command) @ '',"state":"'' @
      command_state_to_string (cmd_state command) @ ''"}'')\<close>

subsection \<open>Opening and closing\<close>

definition sqlite_exec_schema :: "'d env \<Rightarrow> int \<times> 'd env" where
  "sqlite_exec_schema w = (case db_exec SQL_SCHEMA w of (ok, w1) \<Rightarrow> (if ok then 0 else - 1, w1))"

definition storage_open :: "bool \<Rightarrow> gateway_config_t option \<Rightarrow> 'd env \<Rightarrow> int \<times> storage_ctx_t option \<times> 'd env" where
  "storage_open out cfg w =
     (case cfg of
        None \<Rightarrow> (- 1, None, w)
      | Some c \<Rightarrow>
          if \<not> out then (- 1, None, w)
          else
            (case syscall C_calloc w of
               (p, w1) \<Rightarrow>
                 if p = 0 then (- 1, None, w1)
                 else if \<not> cfg_use_sqlite c then (0, Some \<lparr>st_cfg = c, st_db = False\<rparr>, w1)
                 else
                   (case db_open (cfg_sqlite_path c) w1 of
                      (ok, w2) \<Rightarrow>
                        if \<not> ok then (- 1, None, w2)
                        else
                          (case sqlite_exec_schema w2 of
                             (rc, w3) \<Rightarrow>
                               if rc \<noteq> 0 then (- 1, None, db_close w3)
                               else (0, Some \<lparr>st_cfg = c, st_db = True\<rparr>, w3)))))"

definition storage_close :: "storage_ctx_t option \<Rightarrow> 'd env \<Rightarrow> 'd env" where
  "storage_close ctx w =
     (case ctx of None \<Rightarrow> w | Some c \<Rightarrow> if st_db c then db_close w else w)"

subsection \<open>Appending\<close>

definition sqlite_on :: "storage_ctx_t \<Rightarrow> bool" where
  "sqlite_on c \<longleftrightarrow> cfg_use_sqlite (st_cfg c) \<and> st_db c"

definition telemetry_values :: "telemetry_t \<Rightarrow> sql_value list" where
  "telemetry_values p =
     [sql_u64 (tl_ts_ms p), SQL_TEXT (tl_device_id p), SQL_TEXT (tl_point_id p), SQL_REAL (tl_value p),
      SQL_TEXT (tl_unit p), SQL_TEXT (telemetry_quality_to_string (tl_quality p))]"

text \<open>The third argument is the out parameter for the key, \<open>None\<close> when it is NULL.\<close>

definition storage_append_telemetry ::
    "storage_ctx_t option \<Rightarrow> telemetry_t option \<Rightarrow> int option \<Rightarrow> 'd env \<Rightarrow> int \<times> int option \<times> 'd env" where
  "storage_append_telemetry ctx point row_id w =
     (case (ctx, point) of
        (Some c, Some p) \<Rightarrow>
          (let w1 = snd (jsonl_append_telemetry (cfg_cache_path (st_cfg c)) p w)
           in if \<not> sqlite_on c then (0, map_option (\<lambda>_. 0) row_id, w1)
              else
                (case db_modify SQL_INSERT_TELEMETRY (telemetry_values p) w1 of
                   (stepped, w2) \<Rightarrow>
                     if \<not> stepped then (- 1, row_id, w2)
                     else (0, map_option (\<lambda>_. sq_last_insert_rowid (env_sqlite w2) (env_db w2)) row_id, w2)))
      | _ \<Rightarrow> (- 1, row_id, w))"

definition storage_append_point :: "storage_ctx_t option \<Rightarrow> telemetry_t option \<Rightarrow> 'd env \<Rightarrow> int \<times> 'd env" where
  "storage_append_point ctx point w =
     (case storage_append_telemetry ctx point None w of (rc, _, w1) \<Rightarrow> (rc, w1))"

fun alarm_level_int :: "alarm_level_t \<Rightarrow> int" where
  "alarm_level_int ALARM_LEVEL_INFO = 0"
| "alarm_level_int ALARM_LEVEL_MINOR = 1"
| "alarm_level_int ALARM_LEVEL_MAJOR = 2"
| "alarm_level_int ALARM_LEVEL_CRITICAL = 3"

definition alarm_values :: "alarm_event_t \<Rightarrow> sql_value list" where
  "alarm_values a =
     [sql_u64 (al_alarm_id a), sql_u64 (al_ts_ms a), SQL_TEXT (al_device_id a), SQL_TEXT (al_code a),
      SQL_INT (alarm_level_int (al_level a)),
      SQL_TEXT (if al_state a = ALARM_STATE_ACTIVE then ''ACTIVE'' else ''RECOVERED''), SQL_TEXT (al_message a)]"

definition storage_append_alarm :: "storage_ctx_t option \<Rightarrow> alarm_event_t option \<Rightarrow> 'd env \<Rightarrow> int \<times> 'd env" where
  "storage_append_alarm ctx alarm w =
     (case (ctx, alarm) of
        (Some c, Some a) \<Rightarrow>
          (let w1 = snd (append_jsonl_line (cfg_cache_path (st_cfg c)) (alarm_line a) w)
           in if \<not> sqlite_on c then (0, w1)
              else
                (case db_modify SQL_INSERT_ALARM (alarm_values a) w1 of
                   (stepped, w2) \<Rightarrow> (if stepped then 0 else - 1, w2)))
      | _ \<Rightarrow> (- 1, w))"

definition command_values :: "command_t \<Rightarrow> sql_value list" where
  "command_values c =
     [sql_u64 (cmd_command_id c), SQL_TEXT (cmd_target_device_id c), SQL_TEXT (cmd_point_id c),
      SQL_REAL (cmd_target_value c), SQL_TEXT (command_state_to_string (cmd_state c)),
      SQL_TEXT (cmd_result_message c)]"

definition storage_append_command :: "storage_ctx_t option \<Rightarrow> command_t option \<Rightarrow> 'd env \<Rightarrow> int \<times> 'd env" where
  "storage_append_command ctx command w =
     (case (ctx, command) of
        (Some c, Some cmd) \<Rightarrow>
          (let w1 = snd (append_jsonl_line (cfg_cache_path (st_cfg c)) (command_line cmd) w)
           in if \<not> sqlite_on c then (0, w1)
              else
                (case db_modify SQL_INSERT_COMMAND (command_values cmd) w1 of
                   (stepped, w2) \<Rightarrow> (if stepped then 0 else - 1, w2)))
      | _ \<Rightarrow> (- 1, w))"

subsection \<open>Replay cursor\<close>

definition col :: "sql_value list \<Rightarrow> nat \<Rightarrow> sql_value" where
  "col r i = (if i < length r then r ! i else SQL_NULL)"

definition row_of_columns :: "'d sqlite_api \<Rightarrow> sql_value list \<Rightarrow> storage_telemetry_row_t" where
  "row_of_columns api r =
     \<lparr>sr_row_id = sq_column_int64 api (col r 0),
      sr_point = (the (telemetry_init (Some telemetry_zero)
          (word_of_int (sq_column_int64 api (col r 1)))
          (sq_column_text api (col r 2)) (sq_column_text api (col r 3))
          (sq_column_double api (col r 4)) (sq_column_text api (col r 5)) 0))
        \<lparr>tl_quality := TELEMETRY_QUALITY_GOOD\<rparr>\<rparr>"

text \<open>
  The second argument says whether the row array is non-NULL. The result is the return value,
  the rows written and the count stored through \<^verbatim>\<open>out_count\<close>.
\<close>

definition storage_fetch_pending_telemetry ::
    "storage_ctx_t option \<Rightarrow> bool \<Rightarrow> nat \<Rightarrow> 'd env \<Rightarrow> int \<times> storage_telemetry_row_t list \<times> nat \<times> 'd env" where
  "storage_fetch_pending_telemetry ctx rows max_rows w =
     (case ctx of
        None \<Rightarrow> (0, [], 0, w)
      | Some c \<Rightarrow>
          if \<not> rows \<or> max_rows = 0 \<or> \<not> sqlite_on c then (0, [], 0, w)
          else
            (case db_prepare SQL_SELECT_PENDING w of
               (ok, w1) \<Rightarrow>
                 if \<not> ok then (- 1, [], 0, w1)
                 else
                   (case db_rows SQL_SELECT_PENDING [SQL_INT (int max_rows)] w1 of
                      (rs, w2) \<Rightarrow>
                        let out = map (row_of_columns (env_sqlite w2)) (take max_rows rs)
                        in (int (length out), out, length out, w2))))"

definition storage_mark_telemetry_uploaded :: "storage_ctx_t option \<Rightarrow> int \<Rightarrow> 'd env \<Rightarrow> int \<times> 'd env" where
  "storage_mark_telemetry_uploaded ctx row_id w =
     (case ctx of
        None \<Rightarrow> (- 1, w)
      | Some c \<Rightarrow>
          if row_id \<le> 0 \<or> \<not> st_db c then (- 1, w)
          else
            (case db_modify SQL_MARK_UPLOADED [SQL_INT row_id] w of
               (stepped, w1) \<Rightarrow> (if stepped then 0 else - 1, w1)))"

definition storage_pending_telemetry_count :: "storage_ctx_t option \<Rightarrow> 'd env \<Rightarrow> u64 \<times> 'd env" where
  "storage_pending_telemetry_count ctx w =
     (case ctx of
        None \<Rightarrow> (0, w)
      | Some c \<Rightarrow>
          if \<not> st_db c then (0, w)
          else
            (case db_prepare SQL_COUNT_PENDING w of
               (ok, w1) \<Rightarrow>
                 if \<not> ok then (0, w1)
                 else
                   (case db_rows SQL_COUNT_PENDING [] w1 of
                      (rs, w2) \<Rightarrow>
                        (case rs of
                           [] \<Rightarrow> (0, w2)
                         | r # _ \<Rightarrow> (word_of_int (sq_column_int64 (env_sqlite w2) (col r 0)), w2)))))"

subsection \<open>What SQLite promises\<close>

record tel_row =
  tr_id :: int
  tr_ts :: int
  tr_device :: string
  tr_point :: string
  tr_value :: double
  tr_unit :: string
  tr_quality :: string
  tr_uploaded :: bool

definition row_columns :: "tel_row \<Rightarrow> sql_value list" where
  "row_columns r = [SQL_INT (tr_id r), SQL_INT (tr_ts r), SQL_TEXT (tr_device r), SQL_TEXT (tr_point r),
     SQL_REAL (tr_value r), SQL_TEXT (tr_unit r), SQL_TEXT (tr_quality r)]"

definition pending :: "tel_row list \<Rightarrow> tel_row list" where
  "pending rs = filter (\<lambda>r. \<not> tr_uploaded r) rs"

definition mark_row :: "int \<Rightarrow> tel_row \<Rightarrow> tel_row" where
  "mark_row i r = (if tr_id r = i then r\<lparr>tr_uploaded := True\<rparr> else r)"

text \<open>Column values read back as they were stored.\<close>

definition law_columns :: "'d sqlite_api \<Rightarrow> bool" where
  "law_columns api \<longleftrightarrow>
     (\<forall>i. sq_column_int64 api (SQL_INT i) = i) \<and> (\<forall>s. sq_column_text api (SQL_TEXT s) = Some s) \<and>
     (\<forall>v. sq_column_double api (SQL_REAL v) = v)"

text \<open>Keys of an AUTOINCREMENT table are positive and grow.\<close>

definition law_keys :: "('d \<Rightarrow> tel_row list) \<Rightarrow> bool" where
  "law_keys rows \<longleftrightarrow> (\<forall>d. sorted_wrt (<) (map tr_id (rows d)) \<and> (\<forall>r \<in> set (rows d). 0 < tr_id r))"

text \<open>Compiling a statement, and the statements on the other tables, change no telemetry row.\<close>

definition law_other :: "'d sqlite_api \<Rightarrow> ('d \<Rightarrow> tel_row list) \<Rightarrow> bool" where
  "law_other api rows \<longleftrightarrow>
     (\<forall>d sql. rows (snd (sq_prepare api d sql)) = rows d) \<and>
     (\<forall>d vals. rows (snd (sq_step api d SQL_INSERT_ALARM vals)) = rows d) \<and>
     (\<forall>d vals. rows (snd (sq_step api d SQL_INSERT_COMMAND vals)) = rows d)"

text \<open>
  A completed insert appends one row, its key being the last insert key; NaN is bound as NULL,
  which the NOT NULL column refuses; an incomplete insert changes nothing.
\<close>

definition law_insert :: "'d sqlite_api \<Rightarrow> ('d \<Rightarrow> tel_row list) \<Rightarrow> bool" where
  "law_insert api rows \<longleftrightarrow>
     (\<forall>d ts dev pt v u q ok d'.
        sq_step api d SQL_INSERT_TELEMETRY [SQL_INT ts, SQL_TEXT dev, SQL_TEXT pt, SQL_REAL v, SQL_TEXT u, SQL_TEXT q] =
          (ok, d') \<longrightarrow>
        (if ok then v \<noteq> NaN \<and> rows d' = rows d @ [\<lparr>tr_id = sq_last_insert_rowid api d', tr_ts = ts, tr_device = dev,
             tr_point = pt, tr_value = v, tr_unit = u, tr_quality = q, tr_uploaded = False\<rparr>]
         else rows d' = rows d))"

definition law_update :: "'d sqlite_api \<Rightarrow> ('d \<Rightarrow> tel_row list) \<Rightarrow> bool" where
  "law_update api rows \<longleftrightarrow>
     (\<forall>d i ok d'. sq_step api d SQL_MARK_UPLOADED [SQL_INT i] = (ok, d') \<longrightarrow>
        rows d' = (if ok then map (mark_row i) (rows d) else rows d))"

definition law_select :: "'d sqlite_api \<Rightarrow> ('d \<Rightarrow> tel_row list) \<Rightarrow> bool" where
  "law_select api rows \<longleftrightarrow>
     (\<forall>d k rs d'. sq_rows api d SQL_SELECT_PENDING [SQL_INT (int k)] = (rs, d') \<longrightarrow>
        rows d' = rows d \<and> prefix rs (map row_columns (take k (pending (rows d)))))"

definition law_count :: "'d sqlite_api \<Rightarrow> ('d \<Rightarrow> tel_row list) \<Rightarrow> bool" where
  "law_count api rows \<longleftrightarrow>
     (\<forall>d rs d'. sq_rows api d SQL_COUNT_PENDING [] = (rs, d') \<longrightarrow>
        rows d' = rows d \<and> (rs = [] \<or> rs = [[SQL_INT (int (length (pending (rows d))))]]))"

definition sqlite_laws :: "'d sqlite_api \<Rightarrow> ('d \<Rightarrow> tel_row list) \<Rightarrow> bool" where
  "sqlite_laws api rows \<longleftrightarrow> law_columns api \<and> law_keys rows \<and> law_other api rows \<and> law_insert api rows \<and>
     law_update api rows \<and> law_select api rows \<and> law_count api rows"

lemma sqlite_lawsD:
  assumes "sqlite_laws api rows"
  shows "law_columns api" "law_keys rows" "law_other api rows" "law_insert api rows" "law_update api rows"
    "law_select api rows" "law_count api rows"
  using assms by (simp_all add: sqlite_laws_def)

subsection \<open>A database in memory\<close>

text \<open>
  A concrete library that obeys the laws: the rows of a list numbered from 1. It shows that the
  laws can hold together.
\<close>

type_synonym mem_db = "(int \<times> string \<times> string \<times> double \<times> string \<times> string \<times> bool) list"

definition mem_rows :: "mem_db \<Rightarrow> tel_row list" where
  "mem_rows d = map (\<lambda>(n, ts, dev, pt, v, u, q, up). \<lparr>tr_id = int n, tr_ts = ts, tr_device = dev, tr_point = pt,
     tr_value = v, tr_unit = u, tr_quality = q, tr_uploaded = up\<rparr>) (List.enumerate 1 d)"

definition mem_step :: "mem_db \<Rightarrow> string \<Rightarrow> sql_value list \<Rightarrow> bool \<times> mem_db" where
  "mem_step d sql vals =
     (if sql = SQL_INSERT_TELEMETRY then
        (case vals of
           [SQL_INT ts, SQL_TEXT dev, SQL_TEXT pt, SQL_REAL v, SQL_TEXT u, SQL_TEXT q] \<Rightarrow>
             if v = NaN then (False, d) else (True, d @ [(ts, dev, pt, v, u, q, False)])
         | _ \<Rightarrow> (False, d))
      else if sql = SQL_MARK_UPLOADED then
        (case vals of
           [SQL_INT i] \<Rightarrow> (True, map (\<lambda>(n, ts, dev, pt, v, u, q, up). (ts, dev, pt, v, u, q, up \<or> int n = i))
                            (List.enumerate 1 d))
         | _ \<Rightarrow> (False, d))
      else (True, d))"

definition mem_select :: "mem_db \<Rightarrow> string \<Rightarrow> sql_value list \<Rightarrow> sql_value list list \<times> mem_db" where
  "mem_select d sql vals =
     (if sql = SQL_SELECT_PENDING then
        (case vals of [SQL_INT k] \<Rightarrow> (map row_columns (take (nat k) (pending (mem_rows d))), d) | _ \<Rightarrow> ([], d))
      else ([[SQL_INT (int (length (pending (mem_rows d))))]], d))"

definition mem_api :: "mem_db sqlite_api" where
  "mem_api = \<lparr>sq_open = (\<lambda>d _. (True, d)), sq_exec = (\<lambda>d _. (True, d)), sq_prepare = (\<lambda>d _. (True, d)),
     sq_step = mem_step, sq_rows = mem_select,
     sq_column_int64 = (\<lambda>v. case v of SQL_INT i \<Rightarrow> i | _ \<Rightarrow> 0),
     sq_column_text = (\<lambda>v. case v of SQL_TEXT s \<Rightarrow> Some s | _ \<Rightarrow> None),
     sq_column_double = (\<lambda>v. case v of SQL_REAL r \<Rightarrow> r | _ \<Rightarrow> Fin 0),
     sq_last_insert_rowid = (\<lambda>d. int (length d)), sq_close = (\<lambda>d. d)\<rparr>"

lemma sql_distinct [simp]:
  "SQL_INSERT_ALARM \<noteq> SQL_INSERT_TELEMETRY" "SQL_INSERT_COMMAND \<noteq> SQL_INSERT_TELEMETRY"
  "SQL_MARK_UPLOADED \<noteq> SQL_INSERT_TELEMETRY" "SQL_INSERT_ALARM \<noteq> SQL_MARK_UPLOADED"
  "SQL_INSERT_COMMAND \<noteq> SQL_MARK_UPLOADED" "SQL_COUNT_PENDING \<noteq> SQL_SELECT_PENDING"
  by (simp_all add: SQL_INSERT_ALARM_def SQL_INSERT_TELEMETRY_def SQL_INSERT_COMMAND_def SQL_MARK_UPLOADED_def
      SQL_COUNT_PENDING_def SQL_SELECT_PENDING_def)

lemma mem_rows_append:
  "mem_rows (d @ [(ts, dev, pt, v, u, q, up)]) = mem_rows d @ [\<lparr>tr_id = int (length d) + 1, tr_ts = ts,
     tr_device = dev, tr_point = pt, tr_value = v, tr_unit = u, tr_quality = q, tr_uploaded = up\<rparr>]"
  by (simp add: mem_rows_def enumerate_append_eq)

lemma mem_rows_keys: "map tr_id (mem_rows d) = map int [1..<Suc (length d)]"
proof -
  have "map tr_id (mem_rows d) = map (int \<circ> fst) (List.enumerate 1 d)"
    by (auto simp: mem_rows_def)
  also have "\<dots> = map int [1..<Suc (length d)]" by (simp add: enumerate_eq_zip flip: map_map)
  finally show ?thesis .
qed

lemma mem_mark:
  "mem_rows (map (\<lambda>(n, ts, dev, pt, v, u, q, up). (ts, dev, pt, v, u, q, up \<or> int n = i)) (List.enumerate 1 d)) =
     map (mark_row i) (mem_rows d)"
  by (rule nth_equalityI) (auto simp: mem_rows_def mark_row_def nth_enumerate_eq split: prod.splits)

lemma mem_laws: "sqlite_laws mem_api mem_rows"
proof -
  have keys: "sorted_wrt (<) (map tr_id (mem_rows d)) \<and> (\<forall>r \<in> set (mem_rows d). 0 < tr_id r)" for d
  proof -
    have "0 < tr_id r" if "r \<in> set (mem_rows d)" for r
    proof -
      have "tr_id r \<in> set (map tr_id (mem_rows d))" using that by simp
      then show ?thesis unfolding mem_rows_keys by auto
    qed
    moreover have "sorted_wrt (<) (map int [1..<Suc (length d)])"
      by (simp add: sorted_wrt_map sorted_wrt_upt del: upt_Suc)
    ultimately show ?thesis by (simp add: mem_rows_keys del: upt_Suc)
  qed
  show ?thesis
    by (auto simp: sqlite_laws_def law_columns_def law_keys_def law_other_def law_insert_def law_update_def
        law_select_def law_count_def mem_api_def mem_step_def mem_select_def mem_rows_append mem_mark [unfolded One_nat_def] keys
        split: if_splits)
qed

subsection \<open>Frames\<close>

text \<open>Every call into SQLite changes the database and nothing else.\<close>

lemma db_only:
  "\<exists>d. snd (db_prepare s w) = w\<lparr>env_db := d\<rparr>" "\<exists>d. snd (db_step s v w) = w\<lparr>env_db := d\<rparr>"
  "\<exists>d. snd (db_rows s v w) = w\<lparr>env_db := d\<rparr>"
  by (auto simp: db_prepare_def db_step_def db_rows_def split: prod.split)

lemma db_modify_only: "\<exists>d. snd (db_modify s v w) = w\<lparr>env_db := d\<rparr>"
proof -
  obtain ok w1 where p: "db_prepare s w = (ok, w1)" by (metis prod.exhaust)
  obtain d where "w1 = w\<lparr>env_db := d\<rparr>" using db_only(1) [of s w] p by auto
  then show ?thesis using db_only(2) [of s v w1] p by (auto simp: db_modify_def)
qed

lemma jsonl_frame [frame_simps]:
  "env_sqlite (snd (append_jsonl_line path line w)) = env_sqlite w"
  "env_db (snd (append_jsonl_line path line w)) = env_db w"
  "env_ret (snd (append_jsonl_line path line w)) = env_ret w"
  by (simp_all add: append_jsonl_line_def syscall_def frame_simps split: prod.split)

lemma db_modify_law:
  assumes "law_other api rows" "env_sqlite w = api" "db_modify sql vals w = (ok, w')"
  shows "\<exists>d d'. rows d = rows (env_db w) \<and> w' = w\<lparr>env_db := d'\<rparr> \<and>
    (\<not> ok \<and> d' = d \<or> sq_step api d sql vals = (ok, d'))"
proof -
  obtain b d where p: "sq_prepare api (env_db w) sql = (b, d)" by (metis prod.exhaust)
  have rd: "rows d = rows (env_db w)" using assms(1) p by (metis law_other_def snd_conv)
  obtain st d' where s: "sq_step api d sql vals = (st, d')" by (metis prod.exhaust)
  have "db_modify sql vals w = (if b then (st, w\<lparr>env_db := d'\<rparr>) else (False, w\<lparr>env_db := d\<rparr>))"
    using p s assms(2) by (simp add: db_modify_def db_prepare_def db_step_def)
  then show ?thesis using rd s assms(3) by (cases b) auto
qed

subsection \<open>Appending and the pending list\<close>

definition stored_row :: "int \<Rightarrow> telemetry_t \<Rightarrow> tel_row" where
  "stored_row i p = \<lparr>tr_id = i, tr_ts = sint (tl_ts_ms p), tr_device = tl_device_id p, tr_point = tl_point_id p,
     tr_value = tl_value p, tr_unit = tl_unit p, tr_quality = telemetry_quality_to_string (tl_quality p),
     tr_uploaded = False\<rparr>"

lemma sorted_append_max:
  "sorted_wrt (<) (xs @ [x]) \<Longrightarrow> y \<in> set xs \<Longrightarrow> y < (x :: int)"
  by (simp add: sorted_wrt_append)

lemma insert_telemetry_rows:
  assumes laws: "sqlite_laws (env_sqlite w) rows"
    and call: "db_modify SQL_INSERT_TELEMETRY (telemetry_values p) w = (ok, w')"
  shows "if ok then tl_value p \<noteq> NaN \<and>
      rows (env_db w') = rows (env_db w) @ [stored_row (sq_last_insert_rowid (env_sqlite w) (env_db w')) p]
    else rows (env_db w') = rows (env_db w)"
proof -
  obtain d d' where d: "rows d = rows (env_db w)" "w' = w\<lparr>env_db := d'\<rparr>"
    "\<not> ok \<and> d' = d \<or> sq_step (env_sqlite w) d SQL_INSERT_TELEMETRY (telemetry_values p) = (ok, d')"
    using db_modify_law [OF sqlite_lawsD(3) [OF laws] refl call] by blast
  have "if ok then tl_value p \<noteq> NaN \<and> rows d' = rows d @ [stored_row (sq_last_insert_rowid (env_sqlite w) d') p]
      else rows d' = rows d"
    if "sq_step (env_sqlite w) d SQL_INSERT_TELEMETRY (telemetry_values p) = (ok, d')"
    using sqlite_lawsD(4) [OF laws, unfolded law_insert_def, rule_format,
        OF that [unfolded telemetry_values_def sql_u64_def]]
    by (simp add: stored_row_def)
  with d show ?thesis by auto
qed

lemma append_telemetry_rows:
  assumes "sqlite_laws (env_sqlite w) rows" and "sqlite_on c"
    and "storage_append_telemetry (Some c) (Some p) (Some i0) w = (rc, i, w')"
  shows "if rc = 0 then \<exists>k. i = Some k \<and> 0 < k \<and> (\<forall>r \<in> set (rows (env_db w)). tr_id r < k) \<and>
        rows (env_db w') = rows (env_db w) @ [stored_row k p] \<and>
        pending (rows (env_db w')) = pending (rows (env_db w)) @ [stored_row k p] \<and> tl_value p \<noteq> NaN
      else rc = - 1 \<and> i = Some i0 \<and> rows (env_db w') = rows (env_db w)"
proof -
  define w1 where "w1 = snd (jsonl_append_telemetry (cfg_cache_path (st_cfg c)) p w)"
  have w1: "env_sqlite w1 = env_sqlite w" "env_db w1 = env_db w"
    by (simp_all add: w1_def jsonl_append_telemetry_def frame_simps)
  obtain ok w2 where m: "db_modify SQL_INSERT_TELEMETRY (telemetry_values p) w1 = (ok, w2)"
    by (metis prod.exhaust)
  have sq2: "env_sqlite w2 = env_sqlite w"
    using db_modify_only [of SQL_INSERT_TELEMETRY "telemetry_values p" w1] m w1 by auto
  define k where "k = sq_last_insert_rowid (env_sqlite w) (env_db w2)"
  have ins: "if ok then tl_value p \<noteq> NaN \<and> rows (env_db w2) = rows (env_db w) @ [stored_row k p]
      else rows (env_db w2) = rows (env_db w)"
    using insert_telemetry_rows [of w1 rows p ok w2] assms(1) m w1 by (simp add: k_def)
  have res: "rc = (if ok then 0 else - 1)" "i = Some (if ok then k else i0)" "w' = w2"
    using assms(2,3) m sq2
    by (cases ok; simp add: storage_append_telemetry_def w1_def [symmetric] k_def Let_def)+
  have keys: "sorted_wrt (<) (map tr_id (rows (env_db w2)))" "\<forall>r \<in> set (rows (env_db w2)). 0 < tr_id r"
    using assms(1) by (auto simp: sqlite_laws_def law_keys_def)
  show ?thesis
  proof (cases ok)
    case True
    with ins keys have "0 < k" "\<forall>r \<in> set (rows (env_db w)). tr_id r < k"
      by (auto simp: sorted_wrt_append stored_row_def)
    then show ?thesis using True ins res by (simp add: pending_def stored_row_def)
  next
    case False
    then show ?thesis using ins res by simp
  qed
qed

lemma append_telemetry_sqlite:
  "storage_append_telemetry (Some c) (Some p) i w = (rc, i', w') \<Longrightarrow> env_sqlite w' = env_sqlite w"
  using db_modify_only [of SQL_INSERT_TELEMETRY "telemetry_values p" "snd (jsonl_append_telemetry (cfg_cache_path (st_cfg c)) p w)"]
  by (auto simp: storage_append_telemetry_def Let_def jsonl_append_telemetry_def frame_simps split: if_splits prod.splits)

lemma append_telemetry_ret:
  "env_ret (snd (snd (storage_append_telemetry (Some c) (Some p) i w))) = env_ret w"
  using db_modify_only [of SQL_INSERT_TELEMETRY "telemetry_values p" "snd (jsonl_append_telemetry (cfg_cache_path (st_cfg c)) p w)"]
  by (auto simp: storage_append_telemetry_def Let_def split_beta jsonl_append_telemetry_def frame_simps)

text \<open>
  C16. Appending telemetry: with SQLite obeying its laws, a successful append returns a key that is
  positive and larger than every key before, and adds exactly the row of the record, not yet
  uploaded, at the end of the table, so at the end of the pending list; a failed append
  leaves table and key alone. A NaN value is never stored.
\<close>

theorem append_telemetry_pending:
  assumes "sqlite_laws (env_sqlite w) rows" and "sqlite_on c"
    and "storage_append_telemetry (Some c) (Some p) (Some i0) w = (rc, i, w')"
  shows "if rc = 0 then \<exists>k. i = Some k \<and> 0 < k \<and> (\<forall>r \<in> set (rows (env_db w)). tr_id r < k) \<and>
        rows (env_db w') = rows (env_db w) @ [stored_row k p] \<and>
        pending (rows (env_db w')) = pending (rows (env_db w)) @ [stored_row k p] \<and> tl_value p \<noteq> NaN
      else rc = - 1 \<and> i = Some i0 \<and> rows (env_db w') = rows (env_db w)"
  using assms by (rule append_telemetry_rows)

definition demo_storage_env :: "mem_db env" where
  "demo_storage_env = \<lparr>env_n = 0, env_ret = (\<lambda>_. 1), env_errno = (\<lambda>_. ERRNO_NONE), env_data = (\<lambda>_. []),
     env_strerror = (\<lambda>_. ''error''), env_clock = (\<lambda>n. Some (int n, 0)), env_getenv = (\<lambda>_. None), env_calls = [],
     env_files = (\<lambda>_. []), env_log_fp = None, env_stderr = [], env_sqlite = mem_api, env_db = []\<rparr>"

definition demo_ctx :: storage_ctx_t where
  "demo_ctx = \<lparr>st_cfg = gateway_config_defaults, st_db = True\<rparr>"

definition demo_bad_point :: telemetry_t where
  "demo_bad_point = telemetry_zero\<lparr>tl_ts_ms := 5, tl_device_id := ''bms_001'', tl_point_id := ''max_cell_temp_c'',
     tl_value := Fin 60, tl_unit := ''C'', tl_quality := TELEMETRY_QUALITY_BAD, tl_source_id := 2\<rparr>"

lemma demo_storage [simp]:
  "env_sqlite demo_storage_env = mem_api" "env_db demo_storage_env = []" "sqlite_on demo_ctx"
  by (simp_all add: demo_storage_env_def demo_ctx_def sqlite_on_def gateway_config_defaults_def)

lemma demo_append:
  "\<exists>w'. storage_append_telemetry (Some demo_ctx) (Some demo_bad_point) (Some 0) demo_storage_env = (0, Some 1, w') \<and>
     env_sqlite w' = mem_api \<and> env_db w' = [(5, ''bms_001'', ''max_cell_temp_c'', Fin 60, ''C'', ''bad'', False)]"
proof -
  have m: "mem_step [] SQL_INSERT_TELEMETRY (telemetry_values demo_bad_point) =
      (True, [(5, ''bms_001'', ''max_cell_temp_c'', Fin 60, ''C'', ''bad'', False)])"
    by (simp add: mem_step_def telemetry_values_def demo_bad_point_def sql_u64_def)
  show ?thesis
    using m by (simp add: storage_append_telemetry_def Let_def db_modify_def db_prepare_def db_step_def
        jsonl_append_telemetry_def frame_simps mem_api_def)
qed

theorem append_telemetry_pending_witness:
  "\<exists>w'. storage_append_telemetry (Some demo_ctx) (Some demo_bad_point) (Some 0) demo_storage_env = (0, Some 1, w') \<and>
     mem_rows (env_db w') = [stored_row 1 demo_bad_point]"
proof -
  obtain w' where c: "storage_append_telemetry (Some demo_ctx) (Some demo_bad_point) (Some 0) demo_storage_env =
      (0, Some 1, w')" using demo_append by blast
  then show ?thesis
    using append_telemetry_pending [of demo_storage_env mem_rows demo_ctx demo_bad_point 0 0 "Some 1" w'] mem_laws
    by (simp add: mem_rows_def)
qed

subsection \<open>Fetching\<close>

definition restored :: "tel_row \<Rightarrow> storage_telemetry_row_t" where
  "restored r = \<lparr>sr_row_id = tr_id r,
     sr_point = mk_telemetry (word_of_int (tr_ts r)) (tr_device r) (tr_point r) (tr_value r) (tr_unit r) 0\<rparr>"

lemma row_of_columns_restored: "law_columns api \<Longrightarrow> row_of_columns api (row_columns r) = restored r"
  by (simp add: row_of_columns_def row_columns_def restored_def law_columns_def col_def mk_telemetry_def
      telemetry_init_def telemetry_zero_def)

lemma db_rows_law:
  assumes "law_other api rows" "env_sqlite w = api" "db_prepare sql w = (ok, w1)" "db_rows sql vals w1 = (rs, w2)"
  shows "\<exists>d d'. rows d = rows (env_db w) \<and> w1 = w\<lparr>env_db := d\<rparr> \<and> w2 = w\<lparr>env_db := d'\<rparr> \<and>
    sq_rows api d sql vals = (rs, d')"
proof -
  obtain b d where p: "sq_prepare api (env_db w) sql = (b, d)" by (metis prod.exhaust)
  have rd: "rows d = rows (env_db w)" using assms(1) p by (metis law_other_def snd_conv)
  have w1: "w1 = w\<lparr>env_db := d\<rparr>" using p assms(2,3) by (simp add: db_prepare_def)
  obtain d' where "sq_rows api d sql vals = (rs, d')" "w2 = w\<lparr>env_db := d'\<rparr>"
    using assms(2,4) w1 by (auto simp: db_rows_def split: prod.splits)
  then show ?thesis using rd w1 by blast
qed

lemma prefix_map_take: "prefix rs (map f (take k xs)) \<Longrightarrow> \<exists>j \<le> k. rs = map f (take j xs)"
proof -
  assume "prefix rs (map f (take k xs))"
  then have "rs = take (length rs) (map f (take k xs))" by (auto simp: prefix_def append_eq_conv_conj)
  then have "rs = map f (take (min (length rs) k) xs)" by (simp add: take_map)
  then show ?thesis by (metis min.cobounded2)
qed

lemma fetch_pending_oldest_rows:
  assumes laws: "sqlite_laws (env_sqlite w) rows" and on: "sqlite_on c" and "0 < max_rows"
    and call: "storage_fetch_pending_telemetry (Some c) True max_rows w = (rc, out, n, w')"
  shows "rows (env_db w') = rows (env_db w) \<and> n = length out \<and> n \<le> max_rows \<and> (rc = int n \<or> rc = - 1 \<and> n = 0) \<and>
    (\<exists>j \<le> max_rows. out = map restored (take j (pending (rows (env_db w)))))"
proof -
  obtain ok w1 where p: "db_prepare SQL_SELECT_PENDING w = (ok, w1)" by (metis prod.exhaust)
  obtain rs w2 where q: "db_rows SQL_SELECT_PENDING [SQL_INT (int max_rows)] w1 = (rs, w2)" by (metis prod.exhaust)
  obtain d d' where d: "rows d = rows (env_db w)" "w1 = w\<lparr>env_db := d\<rparr>" "w2 = w\<lparr>env_db := d'\<rparr>"
    "sq_rows (env_sqlite w) d SQL_SELECT_PENDING [SQL_INT (int max_rows)] = (rs, d')"
    using db_rows_law [OF sqlite_lawsD(3) [OF laws] refl p q] by blast
  have sel: "rows d' = rows d" "prefix rs (map row_columns (take max_rows (pending (rows d))))"
    using sqlite_lawsD(6) [OF laws] d(4) unfolding law_select_def by blast+
  then obtain j where j: "j \<le> max_rows" "rs = map row_columns (take j (pending (rows d)))"
    using prefix_map_take by blast
  have out: "map (row_of_columns (env_sqlite w)) (take max_rows rs) = map restored (take j (pending (rows d)))"
    using j row_of_columns_restored [OF sqlite_lawsD(1) [OF laws]] by simp
  show ?thesis
  proof (cases ok)
    case True
    then have "out = map (row_of_columns (env_sqlite w)) (take max_rows rs)" "rc = int (length out)"
      "n = length out" "w' = w2"
      using call on assms(3) p q d(3) by (auto simp: storage_fetch_pending_telemetry_def Let_def)
    then show ?thesis using sel d j out by auto
  next
    case False
    then have "out = []" "rc = - 1" "n = 0" "w' = w1"
      using call on assms(3) p by (simp_all add: storage_fetch_pending_telemetry_def)
    then show ?thesis using d by (auto intro: exI [of _ 0])
  qed
qed

text \<open>
  Fetching pending telemetry: whatever errors SQLite meets, the call leaves the table alone and
  delivers at most \<open>max_rows\<close> rows, and these are the oldest pending rows, in key order and
  without gaps. Each has the stored key, time stamp, identifiers, value and unit.
\<close>

theorem fetch_pending_oldest:
  assumes laws: "sqlite_laws (env_sqlite w) rows" and on: "sqlite_on c" and "0 < max_rows"
    and call: "storage_fetch_pending_telemetry (Some c) True max_rows w = (rc, out, n, w')"
  shows "rows (env_db w') = rows (env_db w) \<and> n = length out \<and> n \<le> max_rows \<and> (rc = int n \<or> rc = - 1 \<and> n = 0) \<and>
    (\<exists>j \<le> max_rows. out = map restored (take j (pending (rows (env_db w)))))"
  using assms by (rule fetch_pending_oldest_rows)

lemma demo_fetch:
  "\<exists>w'. storage_fetch_pending_telemetry (Some demo_ctx) True 50
       (demo_storage_env\<lparr>env_db := [(5, ''bms_001'', ''max_cell_temp_c'', Fin 60, ''C'', ''bad'', False)]\<rparr>) =
     (1, [restored (stored_row 1 demo_bad_point)], 1, w')"
proof -
  have pe: "pending (mem_rows [(5, ''bms_001'', ''max_cell_temp_c'', Fin 60, ''C'', ''bad'', False)]) =
      [stored_row 1 demo_bad_point]"
    by (simp add: pending_def mem_rows_def stored_row_def demo_bad_point_def)
  let ?w = "demo_storage_env\<lparr>env_db := [(5, ''bms_001'', ''max_cell_temp_c'', Fin 60, ''C'', ''bad'', False)]\<rparr>"
  have "db_rows SQL_SELECT_PENDING [SQL_INT 50] ?w = ([row_columns (stored_row 1 demo_bad_point)], ?w)"
    "db_prepare SQL_SELECT_PENDING ?w = (True, ?w)"
    by (simp_all add: db_rows_def db_prepare_def mem_api_def mem_select_def pe)
  then show ?thesis
    using row_of_columns_restored [OF sqlite_lawsD(1) [OF mem_laws]]
    by (simp add: storage_fetch_pending_telemetry_def Let_def)
qed



subsection \<open>Marking and counting\<close>

lemma pending_mark: "pending (map (mark_row i) rs) = filter (\<lambda>r. tr_id r \<noteq> i) (pending rs)"
  by (induction rs) (auto simp: pending_def mark_row_def)

lemma mark_uploaded_rows:
  assumes laws: "sqlite_laws (env_sqlite w) rows"
    and call: "storage_mark_telemetry_uploaded (Some c) i w = (rc, w')"
  shows "\<exists>d'. w' = w\<lparr>env_db := d'\<rparr> \<and> (rc = 0 \<or> rc = - 1) \<and>
    rows d' = (if rc = 0 then map (mark_row i) (rows (env_db w)) else rows (env_db w))"
proof (cases "i \<le> 0 \<or> \<not> st_db c")
  case True
  then show ?thesis using call by (auto simp: storage_mark_telemetry_uploaded_def intro: exI [of _ "env_db w"])
next
  case False
  obtain ok w1 where m: "db_modify SQL_MARK_UPLOADED [SQL_INT i] w = (ok, w1)" by (metis prod.exhaust)
  obtain d d' where d: "rows d = rows (env_db w)" "w1 = w\<lparr>env_db := d'\<rparr>"
    "\<not> ok \<and> d' = d \<or> sq_step (env_sqlite w) d SQL_MARK_UPLOADED [SQL_INT i] = (ok, d')"
    using db_modify_law [OF sqlite_lawsD(3) [OF laws] refl m] by blast
  have "rows d' = (if ok then map (mark_row i) (rows (env_db w)) else rows (env_db w))"
    using d(1,3) sqlite_lawsD(5) [OF laws] unfolding law_update_def by metis
  then show ?thesis using call m False d(2) by (auto simp: storage_mark_telemetry_uploaded_def split: if_splits)
qed

text \<open>
  Marking a row as uploaded: when it succeeds, exactly the row with that key leaves the pending
  list and the order of the others is kept; when it fails, the pending list is unchanged.
\<close>

theorem mark_uploaded_pending:
  assumes "sqlite_laws (env_sqlite w) rows"
    and "storage_mark_telemetry_uploaded (Some c) i w = (rc, w')"
  shows "pending (rows (env_db w')) =
    (if rc = 0 then filter (\<lambda>r. tr_id r \<noteq> i) (pending (rows (env_db w))) else pending (rows (env_db w)))"
  using mark_uploaded_rows [OF assms] by (auto simp: pending_mark)

lemma pending_count_rows:
  assumes laws: "sqlite_laws (env_sqlite w) rows"
    and call: "storage_pending_telemetry_count ctx w = (n, w')"
  shows "\<exists>d'. w' = w\<lparr>env_db := d'\<rparr> \<and> rows d' = rows (env_db w) \<and>
    (n = 0 \<or> n = word_of_nat (length (pending (rows (env_db w)))))"
proof (cases ctx)
  case None
  then show ?thesis using call by (auto simp: storage_pending_telemetry_count_def intro: exI [of _ "env_db w"])
next
  case (Some c)
  obtain ok w1 where p: "db_prepare SQL_COUNT_PENDING w = (ok, w1)" by (metis prod.exhaust)
  obtain rs w2 where q: "db_rows SQL_COUNT_PENDING [] w1 = (rs, w2)" by (metis prod.exhaust)
  obtain d d' where d: "rows d = rows (env_db w)" "w1 = w\<lparr>env_db := d\<rparr>" "w2 = w\<lparr>env_db := d'\<rparr>"
    "sq_rows (env_sqlite w) d SQL_COUNT_PENDING [] = (rs, d')"
    using db_rows_law [OF sqlite_lawsD(3) [OF laws] refl p q] by blast
  have cnt: "rows d' = rows d" "rs = [] \<or> rs = [[SQL_INT (int (length (pending (rows d))))]]"
    using sqlite_lawsD(7) [OF laws] d(4) unfolding law_count_def by blast+
  have "w' = w\<lparr>env_db := env_db w\<rparr> \<or> w' = w1 \<or> w' = w2"
    using call Some p q by (auto simp: storage_pending_telemetry_count_def split: if_splits list.splits)
  moreover have "n = 0 \<or> n = word_of_nat (length (pending (rows d)))"
    using call Some p q cnt(2) d(3) sqlite_lawsD(1) [OF laws]
    by (auto simp: storage_pending_telemetry_count_def col_def law_columns_def split: if_splits)
  ultimately show ?thesis
    using d(1) cnt(1) unfolding d(2,3) by (metis (no_types))
qed

lemma db_upd_trans: "\<exists>d. a = w\<lparr>env_db := d\<rparr> \<Longrightarrow> \<exists>d. b = a\<lparr>env_db := d\<rparr> \<Longrightarrow> \<exists>d. b = w\<lparr>env_db := d\<rparr>"
  by auto

lemma db_upd_refl: "\<exists>d. w = w\<lparr>env_db := d\<rparr>"
  by (rule exI [of _ "env_db w"]) simp

text \<open>The cursor operations leave everything but the database alone, whatever SQLite does.\<close>

lemma mark_only: "\<exists>d. snd (storage_mark_telemetry_uploaded ctx i w) = w\<lparr>env_db := d\<rparr>"
  using db_modify_only [of SQL_MARK_UPLOADED "[SQL_INT i]" w] db_upd_refl [of w]
  by (cases ctx) (auto simp: storage_mark_telemetry_uploaded_def split_beta)

lemma fetch_only: "\<exists>d. snd (snd (snd (storage_fetch_pending_telemetry ctx b k w))) = w\<lparr>env_db := d\<rparr>"
proof -
  let ?p = "snd (db_prepare SQL_SELECT_PENDING w)"
  have "\<exists>d. snd (db_rows SQL_SELECT_PENDING [SQL_INT (int k)] ?p) = w\<lparr>env_db := d\<rparr>"
    by (rule db_upd_trans [OF db_only(1) db_only(3)])
  then show ?thesis using db_only(1) [of SQL_SELECT_PENDING w] db_upd_refl [of w]
    by (cases ctx) (auto simp: storage_fetch_pending_telemetry_def split_beta Let_def)
qed

lemma count_only: "\<exists>d. snd (storage_pending_telemetry_count ctx w) = w\<lparr>env_db := d\<rparr>"
proof -
  let ?p = "snd (db_prepare SQL_COUNT_PENDING w)"
  have "\<exists>d. snd (db_rows SQL_COUNT_PENDING [] ?p) = w\<lparr>env_db := d\<rparr>"
    by (rule db_upd_trans [OF db_only(1) db_only(3)])
  then show ?thesis using db_only(1) [of SQL_COUNT_PENDING w] db_upd_refl [of w]
    by (cases ctx) (auto simp: storage_pending_telemetry_count_def split_beta split: list.split)
qed

end
