(* ===== verification/Mqtt_Session.thy ===== *)
theory Mqtt_Session
  imports Mqtt_Codec Storage
begin

text \<open>
  The MQTT session, \<^verbatim>\<open>src/src/egress/mqtt_session.{h,c}\<close>, and the one-shot client
  \<^verbatim>\<open>mqtt_client.c\<close>: connection management, publishing, ping, and the replay of pending rows from
  the store.

  The session's mutex makes each operation one critical section, so an operation is one function
  and a run of the program is a sequence of them, in the order the lock is taken. The write
  loop retries on \<^verbatim>\<open>EINTR\<close> and on writes of nothing, so every operation that writes is an
  option, \<open>None\<close> being a loop that never ends.

  The lemmas show that a completed write puts exactly its bytes on the wire, that the bytes of a
  connection are always whole packets beginning with CONNECT, and that descriptors are not
  leaked; \<open>Mqtt_Replay\<close> has the lemmas on replay.
\<close>

record mqtt_session_t =
  ms_cfg :: gateway_config_t
  ms_fd :: int
  ms_connected :: bool

subsection \<open>Writing\<close>

partial_function (option) write_loop :: "int \<Rightarrow> bytes \<Rightarrow> 'd env \<Rightarrow> (int \<times> 'd env) option" where
  "write_loop fd buf w =
     (if buf = [] then Some (0, w)
      else
        (case syscall (C_write fd buf) w of
           (n, w1) \<Rightarrow>
             if n < 0 then
               (if env_errno w (env_n w) = EINTR then write_loop fd buf w1 else Some (- 1, w1))
             else write_loop fd (drop (nat n) buf) w1))"

definition mqtt_write_all :: "int \<Rightarrow> bytes \<Rightarrow> 'd env \<Rightarrow> (int \<times> 'd env) option" where
  "mqtt_write_all fd buf w = write_loop fd buf w"

definition mqtt_send_connect :: "int \<Rightarrow> string \<Rightarrow> u16 \<Rightarrow> 'd env \<Rightarrow> (int \<times> 'd env) option" where
  "mqtt_send_connect fd client_id keepalive_sec w =
     (case connect_packet client_id keepalive_sec of
        None \<Rightarrow> Some (- 1, w)
      | Some pkt \<Rightarrow>
          Option.bind (mqtt_write_all fd pkt w) (\<lambda>(rc, w1).
            if rc \<noteq> 0 then Some (- 1, w1)
            else
              (case syscall (C_read fd CONNECT_BUF) w1 of
                 (n, w2) \<Rightarrow>
                   if n < 4 then Some (- 1, w2)
                   else
                     let buf = read_bytes w1 (nat n)
                     in Some (if buf ! 0 = 0x20 \<and> buf ! 3 = 0x00 then 0 else - 1, w2))))"

definition mqtt_send_publish :: "int \<Rightarrow> string \<Rightarrow> string \<Rightarrow> 'd env \<Rightarrow> (int \<times> 'd env) option" where
  "mqtt_send_publish fd topic payload w =
     (case publish_packet topic payload of None \<Rightarrow> Some (- 1, w) | Some pkt \<Rightarrow> mqtt_write_all fd pkt w)"

definition mqtt_send_ping :: "int \<Rightarrow> 'd env \<Rightarrow> (int \<times> 'd env) option" where
  "mqtt_send_ping fd w = mqtt_write_all fd ping_packet w"

subsection \<open>Connection\<close>

definition mqtt_open_tcp :: "gateway_config_t \<Rightarrow> 'd env \<Rightarrow> int \<times> 'd env" where
  "mqtt_open_tcp cfg w =
     (case syscall (C_socket ''AF_INET'') w of
        (fd, w1) \<Rightarrow>
          if fd < 0 then (- 1, w1)
          else
            (case syscall (C_inet_pton (cfg_broker_host cfg)) w1 of
               (r, w2) \<Rightarrow>
                 if r \<noteq> 1 then (- 1, snd (syscall (C_close fd) w2))
                 else
                   (case syscall (C_connect fd (cfg_broker_host cfg)) w2 of
                      (r2, w3) \<Rightarrow> if r2 \<noteq> 0 then (- 1, snd (syscall (C_close fd) w3)) else (fd, w3))))"

definition telemetry_json :: "telemetry_t \<Rightarrow> string" where
  \<open>telemetry_json point =
     ''{"device_id":"'' @ tl_device_id point @ ''","point_id":"'' @ tl_point_id point @ ''","value":'' @
     show_fixed 4 (tl_value point) @ '',"unit":"'' @ tl_unit point @ ''","ts_ms":'' @ show_word (tl_ts_ms point) @
     '',"quality":"'' @ telemetry_quality_to_string (tl_quality point) @ ''"}''\<close>

definition telemetry_to_json :: "telemetry_t \<Rightarrow> nat \<Rightarrow> string" where
  "telemetry_to_json point out_len = snprintf out_len (telemetry_json point)"

definition gateway_config_zero :: gateway_config_t where
  "gateway_config_zero = \<lparr>cfg_device_id = '''', cfg_simulate = False, cfg_serial_device = '''',
     cfg_poll_interval_ms = 0, cfg_queue_size = 0, cfg_deadband = Fin 0, cfg_temp_high = Fin 0,
     cfg_peak_shaving_threshold_kw = Fin 0, cfg_max_discharge_kw = Fin 0, cfg_min_discharge_soc = Fin 0,
     cfg_broker_host = '''', cfg_broker_port = 0, cfg_mqtt_topic = '''', cfg_mqtt_alarm_topic = '''',
     cfg_mqtt_heartbeat_topic = '''', cfg_log_dir = '''', cfg_metrics_path = '''', cfg_cache_path = '''',
     cfg_use_sqlite = False, cfg_sqlite_path = '''', cfg_mqtt_replay_batch = 0, cfg_mqtt_keepalive_sec = 0,
     cfg_watchdog_interval_ms = 0, cfg_heartbeat_interval_ms = 0, cfg_modbus_transport = '''',
     cfg_modbus_tcp_host = '''', cfg_modbus_tcp_port = 0, cfg_modbus_slave_id = 0, cfg_modbus_baud_rate = 0,
     cfg_modbus_parity = nul, cfg_modbus_data_bits = 0, cfg_modbus_stop_bits = 0, cfg_modbus_timeout_ms = 0\<rparr>"

definition mqtt_session_init :: "mqtt_session_t option \<Rightarrow> gateway_config_t option \<Rightarrow> mqtt_session_t option" where
  "mqtt_session_init session cfg =
     map_option (\<lambda>_. \<lparr>ms_cfg = (case cfg of Some c \<Rightarrow> c | None \<Rightarrow> gateway_config_zero), ms_fd = - 1,
       ms_connected = False\<rparr>) session"

definition mqtt_shutdown_locked :: "mqtt_session_t \<Rightarrow> 'd env \<Rightarrow> mqtt_session_t \<times> 'd env" where
  "mqtt_shutdown_locked s w =
     (let (s1, w1) = (if 0 \<le> ms_fd s then (s\<lparr>ms_fd := - 1\<rparr>, snd (syscall (C_close (ms_fd s)) w)) else (s, w))
      in (s1\<lparr>ms_connected := False\<rparr>, w1))"

definition client_id :: "gateway_config_t \<Rightarrow> string" where
  "client_id cfg = snprintf 64 (''edgeflow-'' @ cfg_device_id cfg)"

definition mqtt_ensure_connected_locked :: "mqtt_session_t \<Rightarrow> 'd env \<Rightarrow> (int \<times> mqtt_session_t \<times> 'd env) option" where
  "mqtt_ensure_connected_locked s w =
     (if ms_connected s \<and> 0 \<le> ms_fd s then Some (0, s, w)
      else
        (case mqtt_shutdown_locked s w of
           (s1, w1) \<Rightarrow>
             (case mqtt_open_tcp (ms_cfg s1) w1 of
                (fd, w2) \<Rightarrow>
                  let s2 = s1\<lparr>ms_fd := fd\<rparr>
                  in if fd < 0 then Some (- 1, s2\<lparr>ms_connected := False\<rparr>, w2)
                     else
                       Option.bind (mqtt_send_connect fd (client_id (ms_cfg s2)) (ucast (cfg_mqtt_keepalive_sec (ms_cfg s2))) w2)
                         (\<lambda>(rc, w3).
                            if rc \<noteq> 0 then (case mqtt_shutdown_locked s2 w3 of (s3, w4) \<Rightarrow> Some (- 1, s3, w4))
                            else Some (0, s2\<lparr>ms_connected := True\<rparr>, w3)))))"

subsection \<open>Operations\<close>

definition mqtt_session_shutdown :: "mqtt_session_t option \<Rightarrow> 'd env \<Rightarrow> mqtt_session_t option \<times> 'd env" where
  "mqtt_session_shutdown session w =
     (case session of
        None \<Rightarrow> (None, w)
      | Some s \<Rightarrow> (case mqtt_shutdown_locked s w of (s1, w1) \<Rightarrow> (Some s1, w1)))"

definition mqtt_session_ensure_connected :: "mqtt_session_t option \<Rightarrow> 'd env \<Rightarrow> (int \<times> mqtt_session_t option \<times> 'd env) option" where
  "mqtt_session_ensure_connected session w =
     (case session of
        None \<Rightarrow> Some (- 1, None, w)
      | Some s \<Rightarrow> map_option (\<lambda>(rc, s1, w1). (rc, Some s1, w1)) (mqtt_ensure_connected_locked s w))"

text \<open>The critical section the two publishing operations share: connect if needed, send, drop on failure.\<close>

definition publish_locked :: "mqtt_session_t \<Rightarrow> string \<Rightarrow> string \<Rightarrow> 'd env \<Rightarrow> (int \<times> mqtt_session_t \<times> 'd env) option" where
  "publish_locked s topic payload w =
     Option.bind (mqtt_ensure_connected_locked s w) (\<lambda>(rc, s1, w1).
       if rc \<noteq> 0 then Some (- 1, s1, w1)
       else
         Option.bind (mqtt_send_publish (ms_fd s1) topic payload w1) (\<lambda>(rc2, w2).
           if rc2 = 0 then Some (0, s1, w2)
           else (case mqtt_shutdown_locked s1 w2 of (s2, w3) \<Rightarrow> Some (- 1, s2, w3))))"

definition mqtt_session_publish_telemetry ::
    "mqtt_session_t option \<Rightarrow> telemetry_t option \<Rightarrow> 'd env \<Rightarrow> (int \<times> mqtt_session_t option \<times> 'd env) option" where
  "mqtt_session_publish_telemetry session point w =
     (case (session, point) of
        (Some s, Some p) \<Rightarrow>
          map_option (\<lambda>(rc, s1, w1). (rc, Some s1, w1))
            (publish_locked s (cfg_mqtt_topic (ms_cfg s)) (telemetry_to_json p 384) w)
      | _ \<Rightarrow> Some (- 1, session, w))"

definition mqtt_session_publish_heartbeat ::
    "mqtt_session_t option \<Rightarrow> string option \<Rightarrow> 'd env \<Rightarrow> (int \<times> mqtt_session_t option \<times> 'd env) option" where
  "mqtt_session_publish_heartbeat session payload w =
     (case (session, payload) of
        (Some s, Some p) \<Rightarrow>
          map_option (\<lambda>(rc, s1, w1). (rc, Some s1, w1))
            (publish_locked s (cfg_mqtt_heartbeat_topic (ms_cfg s)) p w)
      | _ \<Rightarrow> Some (- 1, session, w))"

text \<open>The replay loop: stop at the first failing publish, mark and count what was sent.\<close>

fun replay_rows ::
    "storage_ctx_t option \<Rightarrow> storage_telemetry_row_t list \<Rightarrow> int \<Rightarrow> gateway_metrics_t option \<Rightarrow> mqtt_session_t \<Rightarrow> 'd env \<Rightarrow>
     (int \<times> gateway_metrics_t option \<times> mqtt_session_t \<times> 'd env) option" where
  "replay_rows storage [] replayed metrics s w = Some (replayed, metrics, s, w)"
| "replay_rows storage (r # rows) replayed metrics s w =
     Option.bind (mqtt_send_publish (ms_fd s) (cfg_mqtt_topic (ms_cfg s)) (telemetry_to_json (sr_point r) 384) w)
       (\<lambda>(rc, w1).
          if rc \<noteq> 0 then (case mqtt_shutdown_locked s w1 of (s1, w2) \<Rightarrow> Some (replayed, metrics, s1, w2))
          else
            (case storage_mark_telemetry_uploaded storage (sr_row_id r) w1 of
               (mrc, w2) \<Rightarrow>
                 if mrc = 0 then
                   replay_rows storage rows (replayed + 1)
                     (map_option (\<lambda>m. m\<lparr>gm_mqtt_replay_total := gm_mqtt_replay_total m + 1\<rparr>) metrics) s w2
                 else replay_rows storage rows replayed metrics s w2))"

definition replay_batch :: "u32 \<Rightarrow> nat" where
  "replay_batch configured =
     (let batch = (if configured = 0 then 50 else unat configured) in if 64 < batch then 64 else batch)"

definition mqtt_session_replay_pending ::
    "mqtt_session_t option \<Rightarrow> storage_ctx_t option \<Rightarrow> gateway_metrics_t option \<Rightarrow> 'd env \<Rightarrow>
     (int \<times> mqtt_session_t option \<times> gateway_metrics_t option \<times> 'd env) option" where
  "mqtt_session_replay_pending session storage metrics w =
     (case session of
        None \<Rightarrow> Some (0, session, metrics, w)
      | Some s \<Rightarrow>
          if storage = None then Some (0, session, metrics, w)
          else
            (case storage_fetch_pending_telemetry storage True (replay_batch (cfg_mqtt_replay_batch (ms_cfg s))) w of
               (frc, rows, count, w1) \<Rightarrow>
                 if frc < 0 then Some (0, session, metrics, w1)
                 else
                   Option.bind (mqtt_ensure_connected_locked s w1) (\<lambda>(rc, s1, w2).
                     Option.bind (if rc = 0 then replay_rows storage (take count rows) 0 metrics s1 w2
                                  else Some (0, metrics, s1, w2)) (\<lambda>(replayed, metrics1, s2, w3).
                       (case metrics1 of
                          None \<Rightarrow> Some (replayed, Some s2, None, w3)
                        | Some m \<Rightarrow>
                            (case storage_pending_telemetry_count storage w3 of
                               (n, w4) \<Rightarrow>
                                 Some (replayed, Some s2, Some (m\<lparr>gm_storage_pending_count := ucast n\<rparr>), w4)))))))"

definition mqtt_session_ping :: "mqtt_session_t option \<Rightarrow> 'd env \<Rightarrow> (int \<times> mqtt_session_t option \<times> 'd env) option" where
  "mqtt_session_ping session w =
     (case session of
        None \<Rightarrow> Some (- 1, None, w)
      | Some s \<Rightarrow>
          if ms_connected s \<and> 0 \<le> ms_fd s then
            Option.bind (mqtt_send_ping (ms_fd s) w) (\<lambda>(rc, w1).
              if rc = 0 then Some (0, session, w1)
              else (case mqtt_shutdown_locked s w1 of (s1, w2) \<Rightarrow> Some (- 1, Some s1, w2)))
          else Some (- 1, session, w))"

definition mqtt_publish_point ::
    "gateway_config_t option \<Rightarrow> telemetry_t option \<Rightarrow> 'd env \<Rightarrow> (int \<times> 'd env) option" where
  "mqtt_publish_point cfg point w =
     (case (cfg, point) of
        (Some c, Some _) \<Rightarrow>
          Option.bind (mqtt_session_publish_telemetry
              (mqtt_session_init (Some \<lparr>ms_cfg = c, ms_fd = 0, ms_connected = False\<rparr>) cfg) point w)
            (\<lambda>(rc, s1, w1). case mqtt_session_shutdown s1 w1 of (s2, w2) \<Rightarrow> Some (rc, w2))
      | _ \<Rightarrow> Some (- 1, w))"

subsection \<open>The write loop\<close>

definition writes_on :: "int \<Rightarrow> (call \<times> int) list \<Rightarrow> bool" where
  "writes_on fd cs = list_all (\<lambda>(c, r). case c of C_write f _ \<Rightarrow> f = fd | _ \<Rightarrow> False) cs"

text \<open>An operation that only made calls.\<close>

definition called :: "'d env \<Rightarrow> (call \<times> int) list \<Rightarrow> 'd env \<Rightarrow> bool" where
  "called w cs w' \<longleftrightarrow> w' = w\<lparr>env_n := env_n w + length cs, env_calls := env_calls w @ cs\<rparr>"

lemma called_refl [simp]: "called w [] w"
  by (simp add: called_def)

lemma called_syscall [simp]: "called w [(c, env_ret w (env_n w))] (snd (syscall c w))"
  by (simp add: called_def syscall_def)

lemma called_trans: "called a xs b \<Longrightarrow> called b ys c \<Longrightarrow> called a (xs @ ys) c"
  by (simp add: called_def)

definition wrote :: "int \<Rightarrow> bytes \<Rightarrow> 'd env \<Rightarrow> int \<times> 'd env \<Rightarrow> bool" where
  "wrote fd buf w r \<longleftrightarrow> (\<exists>cs. called w cs (snd r) \<and> writes_on fd cs \<and>
     (fst r = 0 \<and> sent_on fd cs = buf \<or> fst r = - 1 \<and> prefix (sent_on fd cs) buf))"

lemma wrote_step:
  assumes "wrote fd (if env_ret w (env_n w) < 0 then buf else drop (nat (env_ret w (env_n w))) buf)
      (snd (syscall (C_write fd buf) w)) r"
  shows "wrote fd buf w r"
proof -
  let ?n = "env_ret w (env_n w)"
  obtain cs where cs: "called (snd (syscall (C_write fd buf) w)) cs (snd r)" "writes_on fd cs"
    "fst r = 0 \<and> sent_on fd cs = (if ?n < 0 then buf else drop (nat ?n) buf) \<or>
     fst r = - 1 \<and> prefix (sent_on fd cs) (if ?n < 0 then buf else drop (nat ?n) buf)"
    using assms unfolding wrote_def by blast
  have "called w ((C_write fd buf, ?n) # cs) (snd r)"
    using called_trans [OF called_syscall cs(1)] by simp
  moreover have "writes_on fd ((C_write fd buf, ?n) # cs)" using cs(2) by (simp add: writes_on_def)
  moreover have "fst r = 0 \<and> sent_on fd ((C_write fd buf, ?n) # cs) = buf \<or>
      fst r = - 1 \<and> prefix (sent_on fd ((C_write fd buf, ?n) # cs)) buf"
  proof (cases "?n < 0")
    case True
    then show ?thesis using cs(3) by simp
  next
    case False
    then have s: "sent_on fd ((C_write fd buf, ?n) # cs) = take (nat ?n) buf @ sent_on fd cs" by simp
    have "prefix (take (nat ?n) buf @ sent_on fd cs) buf" if "prefix (sent_on fd cs) (drop (nat ?n) buf)"
      using that by (metis append_take_drop_id same_prefix_prefix)
    then show ?thesis using False cs(3) unfolding s by auto
  qed
  ultimately show ?thesis unfolding wrote_def by blast
qed

lemma write_loop_wrote:
  assumes "write_loop fd buf w = Some r"
  shows "wrote fd buf w r"
proof (rule write_loop.raw_induct [OF _ assms])
  fix f fd buf and w :: "'a env" and r
  assume IH: "\<And>fd buf (w :: 'a env) r. f fd buf w = Some r \<Longrightarrow> wrote fd buf w r"
    and body: "(if buf = [] then Some (0, w)
      else (case syscall (C_write fd buf) w of (n, w1) \<Rightarrow>
             if n < 0 then (if env_errno w (env_n w) = EINTR then f fd buf w1 else Some (- 1, w1))
             else f fd (drop (nat n) buf) w1)) = Some r"
  let ?n = "env_ret w (env_n w)" and ?w = "snd (syscall (C_write fd buf) w)"
  show "wrote fd buf w r"
  proof (cases "buf = []")
    case True
    then show ?thesis using body by (auto simp: wrote_def writes_on_def intro: exI [of _ "[]"])
  next
    case False
    have "f fd (if ?n < 0 then buf else drop (nat ?n) buf) ?w = Some r \<or> ?n < 0 \<and> r = (- 1, ?w)"
      using body False by (simp add: split_beta split: if_splits)
    then show ?thesis
    proof
      assume "?n < 0 \<and> r = (- 1, ?w)"
      then show ?thesis unfolding wrote_def
        by (intro exI [of _ "[(C_write fd buf, ?n)]"]) (simp add: writes_on_def)
    qed (rule wrote_step [OF IH])
  qed
qed

lemma write_loop_returns:
  assumes "\<And>k. 0 < env_ret w k \<or> env_ret w k < 0 \<and> env_errno w k \<noteq> EINTR"
  shows "\<exists>r. write_loop fd buf w = Some r"
  using assms
proof (induction "length buf" arbitrary: buf w rule: less_induct)
  case less
  let ?n = "env_ret w (env_n w)" and ?w = "snd (syscall (C_write fd buf) w)"
  show ?case
  proof (cases "buf = [] \<or> ?n < 0")
    case True
    then show ?thesis using less.prems [of "env_n w"]
      by (subst write_loop.simps) (auto simp: syscall_def)
  next
    case False
    then have "length (drop (nat ?n) buf) < length buf" using less.prems [of "env_n w"] by auto
    then have "\<exists>r. write_loop fd (drop (nat ?n) buf) ?w = Some r"
      using less.hyps less.prems by (simp add: frame_simps)
    then show ?thesis using False by (subst write_loop.simps) (auto simp: syscall_def)
  qed
qed

text \<open>
  C20. Writing a packet: when the loop returns 0, the bytes that went out on the descriptor since
  the call are exactly the packet, whatever partial writes and interruptions happened; when it
  returns -1, they are a beginning of it. No other call is made. And the loop does return if no
  write reports zero bytes or an interruption.
\<close>

theorem write_all_exact:
  "(\<forall>rc w'. mqtt_write_all fd buf w = Some (rc, w') \<longrightarrow>
      (\<exists>cs. env_calls w' = env_calls w @ cs \<and> writes_on fd cs \<and>
         (rc = 0 \<and> sent_on fd cs = buf \<or> rc = - 1 \<and> prefix (sent_on fd cs) buf))) \<and>
   ((\<forall>k. 0 < env_ret w k \<or> env_ret w k < 0 \<and> env_errno w k \<noteq> EINTR) \<longrightarrow>
      (\<exists>rc w'. mqtt_write_all fd buf w = Some (rc, w')))"
proof -
  have "\<exists>cs. env_calls w' = env_calls w @ cs \<and> writes_on fd cs \<and>
      (rc = 0 \<and> sent_on fd cs = buf \<or> rc = - 1 \<and> prefix (sent_on fd cs) buf)"
    if "mqtt_write_all fd buf w = Some (rc, w')" for rc w'
    using write_loop_wrote [OF that [unfolded mqtt_write_all_def]] by (auto simp: wrote_def called_def)
  then show ?thesis using write_loop_returns [of w fd buf] by (auto simp: mqtt_write_all_def)
qed

theorem write_all_exact_witness:
  "\<exists>rc w'. mqtt_write_all 5 ping_packet (demo_env (\<lambda>_. 1)) = Some (rc, w') \<and> writes_on 5 (env_calls w')"
proof -
  have "\<forall>k. 0 < env_ret (demo_env (\<lambda>_. 1)) k" by (simp add: demo_env_def)
  then obtain rc w' where r: "mqtt_write_all 5 ping_packet (demo_env (\<lambda>_. 1)) = Some (rc, w')"
    using write_all_exact [of 5 ping_packet "demo_env (\<lambda>_. 1)"] by blast
  then have "writes_on 5 (env_calls w')"
    using write_all_exact [of 5 ping_packet "demo_env (\<lambda>_. 1)"] by (auto simp: demo_env_def)
  with r show ?thesis by blast
qed

subsection \<open>How a replay goes\<close>

text \<open>Either the fetch fails, or a connection is ensured, the rows are sent and the gauge is stored.\<close>

lemma replay_pending_cases:
  assumes "mqtt_session_replay_pending (Some s) (Some c) m w = Some (n, s', m', w')"
  obtains (no_fetch) frc rows cnt where "n = 0" "s' = Some s" "m' = m"
      "storage_fetch_pending_telemetry (Some c) True (replay_batch (cfg_mqtt_replay_batch (ms_cfg s))) w = (frc, rows, cnt, w')"
  | (fetched) frc rows cnt w1 rc s1 w2 m1 s2 w3 x w4 where
      "storage_fetch_pending_telemetry (Some c) True (replay_batch (cfg_mqtt_replay_batch (ms_cfg s))) w = (frc, rows, cnt, w1)"
      "mqtt_ensure_connected_locked s w1 = Some (rc, s1, w2)"
      "(if rc = 0 then replay_rows (Some c) (take cnt rows) 0 m s1 w2 else Some (0, m, s1, w2)) = Some (n, m1, s2, w3)"
      "storage_pending_telemetry_count (Some c) w3 = (x, w4)" "s' = Some s2"
      "m' = map_option (gm_storage_pending_count_update (\<lambda>_. ucast x)) m1" "w' = w3 \<or> w' = w4"
proof -
  obtain frc rows cnt w1 where f: "storage_fetch_pending_telemetry (Some c) True (replay_batch (cfg_mqtt_replay_batch (ms_cfg s))) w =
      (frc, rows, cnt, w1)" by (metis prod_cases4)
  show ?thesis
  proof (cases "frc < 0")
    case True
    then show ?thesis using assms f no_fetch by (auto simp: mqtt_session_replay_pending_def)
  next
    case False
    note d = assms [unfolded mqtt_session_replay_pending_def]
    obtain rc s1 w2 where e: "mqtt_ensure_connected_locked s w1 = Some (rc, s1, w2)"
      using d f False by (auto simp: bind_eq_Some_conv)
    obtain j m1 s2 w3 where l: "(if rc = 0 then replay_rows (Some c) (take cnt rows) 0 m s1 w2 else Some (0, m, s1, w2)) =
        Some (j, m1, s2, w3)"
      using d f False e by (auto simp: bind_eq_Some_conv)
    obtain x w4 where c4: "storage_pending_telemetry_count (Some c) w3 = (x, w4)" by (metis prod.exhaust)
    have "n = j" "s' = Some s2" "m' = map_option (gm_storage_pending_count_update (\<lambda>_. ucast x)) m1" "w' = w3 \<or> w' = w4"
      using d f False e l c4 by (auto split: option.splits)
    then show ?thesis using fetched [OF f e _ c4] l by blast
  qed
qed

subsection \<open>A discipline every operation follows\<close>

definition session_packet :: "mqtt_packet \<Rightarrow> bool" where
  "session_packet p \<longleftrightarrow> packet_ok p \<and> (case p of CONNECT _ _ \<Rightarrow> False | _ \<Rightarrow> True)"

definition usable :: "mqtt_session_t \<Rightarrow> bool" where
  "usable s \<longleftrightarrow> ms_connected s \<and> 0 \<le> ms_fd s"

text \<open>
  A relation between session and world before and after that the primitive steps respect:
  closing, connecting, sending a whole packet on a usable session, closing after a write that
  may have failed, and changing the database. Then the operations respect it.
\<close>

locale session_discipline =
  fixes R :: "mqtt_session_t \<Rightarrow> 'd env \<Rightarrow> mqtt_session_t \<Rightarrow> 'd env \<Rightarrow> bool"
  assumes R_refl: "R s w s w"
    and R_trans: "R s w s1 w1 \<Longrightarrow> R s1 w1 s2 w2 \<Longrightarrow> R s w s2 w2"
    and R_shutdown: "mqtt_shutdown_locked s w = (s1, w1) \<Longrightarrow> R s w s1 w1"
    and R_ensure: "mqtt_ensure_connected_locked s w = Some (rc, s1, w1) \<Longrightarrow> R s w s1 w1"
    and R_send: "usable s \<Longrightarrow> session_packet p \<Longrightarrow> mqtt_write_all (ms_fd s) (packet_bytes p) w = Some (0, w1) \<Longrightarrow>
      R s w s w1"
    and R_fail: "usable s \<Longrightarrow> mqtt_write_all (ms_fd s) bs w = Some (rc, w1) \<Longrightarrow>
      mqtt_shutdown_locked s w1 = (s1, w2) \<Longrightarrow> R s w s1 w2"
    and R_db: "R s w s (w\<lparr>env_db := d\<rparr>)"
begin

lemma R_send_publish:
  assumes "usable s" "mqtt_send_publish (ms_fd s) topic payload w = Some (rc, w1)"
  shows "if rc = 0 then R s w s w1 else (\<forall>s1 w2. mqtt_shutdown_locked s w1 = (s1, w2) \<longrightarrow> R s w s1 w2)"
proof (cases "publish_packet topic payload")
  case None
  then show ?thesis using assms R_shutdown by (simp add: mqtt_send_publish_def)
next
  case (Some pkt)
  then have wr: "mqtt_write_all (ms_fd s) (packet_bytes (PUBLISH topic payload)) w = Some (rc, w1)"
    and ok: "session_packet (PUBLISH topic payload)"
    using assms(2) by (simp_all add: mqtt_send_publish_def packet_bytes_def session_packet_def packet_ok_def)
  show ?thesis
  proof (cases "rc = 0")
    case True
    then show ?thesis using R_send [OF assms(1) ok] wr by simp
  next
    case False
    then show ?thesis using R_fail [OF assms(1) wr] by simp
  qed
qed

end

lemma ensure_usable:
  assumes "mqtt_ensure_connected_locked s w = Some (rc, s1, w1)"
  shows "rc = 0 \<longleftrightarrow> usable s1" and "ms_cfg s1 = ms_cfg s"
  using assms
  by (auto simp: mqtt_ensure_connected_locked_def usable_def mqtt_shutdown_locked_def Let_def bind_eq_Some_conv
      split: if_splits prod.splits)

context session_discipline
begin

lemma R_publish_locked:
  assumes "publish_locked s topic payload w = Some (rc, s', w')"
  shows "R s w s' w'"
proof -
  obtain rc1 s1 w1 where e: "mqtt_ensure_connected_locked s w = Some (rc1, s1, w1)"
    using assms by (auto simp: publish_locked_def bind_eq_Some_conv)
  note r1 = R_ensure [OF e]
  show ?thesis
  proof (cases "rc1 = 0")
    case False
    then show ?thesis using assms e r1 by (simp add: publish_locked_def)
  next
    case True
    then have u: "usable s1" using ensure_usable(1) [OF e] by simp
    obtain rc2 w2 where p: "mqtt_send_publish (ms_fd s1) topic payload w1 = Some (rc2, w2)"
      using assms e True by (auto simp: publish_locked_def bind_eq_Some_conv)
    obtain s3 w3 where sh: "mqtt_shutdown_locked s1 w2 = (s3, w3)" by (metis prod.exhaust)
    have "R s1 w1 s' w'"
      using R_send_publish [OF u p] assms e True p sh
      by (auto simp: publish_locked_def split: if_splits)
    then show ?thesis using R_trans [OF r1] by blast
  qed
qed

lemma R_ping:
  assumes "mqtt_session_ping (Some s) w = Some (rc, s', w')"
  shows "\<exists>t. s' = Some t \<and> R s w t w'"
proof (cases "usable s")
  case False
  then show ?thesis using assms R_refl by (auto simp: mqtt_session_ping_def usable_def)
next
  case True
  obtain rc1 w1 where p: "mqtt_write_all (ms_fd s) (packet_bytes PINGREQ) w = Some (rc1, w1)"
    using assms True by (auto simp: mqtt_session_ping_def usable_def bind_eq_Some_conv mqtt_send_ping_def packet_bytes_def)
  obtain s3 w3 where sh: "mqtt_shutdown_locked s w1 = (s3, w3)" by (metis prod.exhaust)
  have "session_packet PINGREQ" by (simp add: session_packet_def packet_ok_def)
  then show ?thesis
    using assms p sh True R_send [OF True, of PINGREQ w w1] R_fail [OF True p sh]
    by (auto simp: mqtt_session_ping_def usable_def mqtt_send_ping_def packet_bytes_def split: if_splits)
qed

lemma R_db_only: "\<exists>d. w' = w\<lparr>env_db := d\<rparr> \<Longrightarrow> R s w s w'"
  using R_db by blast

lemma R_mark: "R s w s (snd (storage_mark_telemetry_uploaded st i w))"
  by (rule R_db_only [OF mark_only])

lemma R_replay_rows:
  assumes "replay_rows st rows k m s w = Some (k', m', s', w')" "usable s"
  shows "R s w s' w'"
  using assms
proof (induction st rows k m s w rule: replay_rows.induct)
  case (1 st k m s w)
  then show ?case using R_refl by simp
next
  case (2 st r rows k m s w)
  obtain rc w1 where p: "mqtt_send_publish (ms_fd s) (cfg_mqtt_topic (ms_cfg s)) (telemetry_to_json (sr_point r) 384) w =
      Some (rc, w1)"
    using "2.prems"(1) by (auto simp: bind_eq_Some_conv)
  obtain mrc w2 where mk: "storage_mark_telemetry_uploaded st (sr_row_id r) w1 = (mrc, w2)" by (metis prod.exhaust)
  obtain s3 w3 where sh: "mqtt_shutdown_locked s w1 = (s3, w3)" by (metis prod.exhaust)
  note sp = R_send_publish [OF "2.prems"(2) p]
  show ?case
  proof (cases "rc = 0")
    case False
    then show ?thesis using "2.prems"(1) p sh sp by auto
  next
    case True
    have "R s w s w2" using R_trans [of s w s w1 s w2] sp True R_mark [of s w1 st "sr_row_id r"] mk by simp
    moreover have "R s w2 s' w'"
      using "2.IH"(1) [OF p refl _ mk [symmetric]] "2.IH"(2) [OF p refl _ mk [symmetric]] "2.prems" p mk True
      by (auto split: if_splits)
    ultimately show ?thesis by (rule R_trans)
  qed
qed

lemma R_replay_pending:
  assumes "mqtt_session_replay_pending (Some s) st m w = Some (k, s', m', w')"
  shows "\<exists>t. s' = Some t \<and> R s w t w'"
proof (cases st)
  case None
  then show ?thesis using assms R_refl by (auto simp: mqtt_session_replay_pending_def)
next
  case (Some c)
  have fetch: "R s w s (snd (snd (snd (storage_fetch_pending_telemetry (Some c) b i w))))" for b i
    by (rule R_db_only [OF fetch_only])
  show ?thesis
    using assms unfolding Some
  proof (cases rule: replay_pending_cases)
    case (no_fetch frc rows cnt)
    then show ?thesis using fetch by (metis snd_conv)
  next
    case (fetched frc rows cnt w1 rc s1 w2 m1 s2 w3 x w4)
    have "R s w s w1" using fetch fetched(1) by (metis snd_conv)
    moreover have "R s1 w2 s2 w3"
      using fetched(3) R_replay_rows ensure_usable(1) [OF fetched(2)] R_refl by (auto split: if_splits)
    moreover have "R s2 w3 s2 w4" using R_db_only [OF count_only] fetched(4) by (metis snd_conv)
    ultimately show ?thesis using fetched(5,7) R_ensure [OF fetched(2)] R_trans R_refl by blast
  qed
qed

end

subsection \<open>Runs of the session\<close>

text \<open>The operations, in the order their callers take the lock.\<close>

datatype mqtt_op =
    Op_publish telemetry_t
  | Op_heartbeat string
  | Op_replay "storage_ctx_t option" "gateway_metrics_t option"
  | Op_ping
  | Op_ensure
  | Op_shutdown

fun mqtt_step :: "mqtt_op \<Rightarrow> mqtt_session_t option \<Rightarrow> 'd env \<Rightarrow> (mqtt_session_t option \<times> 'd env) option" where
  "mqtt_step (Op_publish p) s w = map_option snd (mqtt_session_publish_telemetry s (Some p) w)"
| "mqtt_step (Op_heartbeat p) s w = map_option snd (mqtt_session_publish_heartbeat s (Some p) w)"
| "mqtt_step (Op_replay st m) s w = map_option (\<lambda>(_, s1, _, w1). (s1, w1)) (mqtt_session_replay_pending s st m w)"
| "mqtt_step Op_ping s w = map_option snd (mqtt_session_ping s w)"
| "mqtt_step Op_ensure s w = map_option snd (mqtt_session_ensure_connected s w)"
| "mqtt_step Op_shutdown s w = Some (mqtt_session_shutdown s w)"

fun mqtt_run :: "mqtt_op list \<Rightarrow> mqtt_session_t option \<Rightarrow> 'd env \<Rightarrow> (mqtt_session_t option \<times> 'd env) option" where
  "mqtt_run [] s w = Some (s, w)"
| "mqtt_run (op # ops) s w = Option.bind (mqtt_step op s w) (\<lambda>(s1, w1). mqtt_run ops s1 w1)"

lemma mqtt_run_append:
  "mqtt_run (xs @ ys) s w = Option.bind (mqtt_run xs s w) (\<lambda>(s1, w1). mqtt_run ys s1 w1)"
  by (induction xs s w rule: mqtt_run.induct) (auto split: Option.bind_split)

context session_discipline
begin

lemma R_step:
  assumes "mqtt_step op (Some s) w = Some (s', w')"
  shows "\<exists>t. s' = Some t \<and> R s w t w'"
proof (cases op)
  case (Op_replay st m)
  then show ?thesis using assms R_replay_pending by auto
next
  case Op_ping
  then show ?thesis using assms R_ping by auto
qed (use assms R_publish_locked R_ensure R_shutdown in
    \<open>auto simp: mqtt_session_publish_telemetry_def mqtt_session_publish_heartbeat_def
       mqtt_session_ensure_connected_def mqtt_session_shutdown_def split: prod.splits\<close>)

lemma R_run: "mqtt_run ops (Some s) w = Some (s', w') \<Longrightarrow> \<exists>t. s' = Some t \<and> R s w t w'"
proof (induction ops arbitrary: s w)
  case Nil
  then show ?case using R_refl by auto
next
  case (Cons op ops)
  then obtain s1 w1 where st: "mqtt_step op (Some s) w = Some (s1, w1)" and rest: "mqtt_run ops s1 w1 = Some (s', w')"
    by (auto simp: bind_eq_Some_conv)
  obtain t where t: "s1 = Some t" "R s w t w1" using R_step [OF st] by blast
  then show ?case using Cons.IH [of t w1] rest R_trans by blast
qed

end

subsection \<open>Descriptors\<close>

definition fd_kept :: "mqtt_session_t \<Rightarrow> 'd env \<Rightarrow> mqtt_session_t \<Rightarrow> 'd env \<Rightarrow> bool" where
  "fd_kept s w s' w' \<longleftrightarrow> (\<forall>fd. fd_balance fd (env_calls w') - held (ms_fd s') fd =
     fd_balance fd (env_calls w) - held (ms_fd s) fd)"

lemma writes_balance: "writes_on f cs \<Longrightarrow> fd_balance fd cs = 0"
  by (induction cs) (auto simp: writes_on_def split: call.splits)

lemma write_all_calls:
  assumes "mqtt_write_all f bs w = Some (rc, w')"
  shows "\<exists>cs. env_calls w' = env_calls w @ cs \<and> writes_on f cs \<and>
    (rc = 0 \<and> sent_on f cs = bs \<or> rc = - 1 \<and> prefix (sent_on f cs) bs)"
  using write_loop_wrote [OF assms [unfolded mqtt_write_all_def]] by (auto simp: wrote_def called_def)

lemma write_all_balance: "mqtt_write_all f bs w = Some (rc, w') \<Longrightarrow> fd_balance fd (env_calls w') = fd_balance fd (env_calls w)"
  using write_all_calls [of f bs w rc w'] writes_balance [of f _ fd] by auto

lemma send_connect_balance:
  assumes "mqtt_send_connect f i k w = Some (rc, w')"
  shows "fd_balance fd (env_calls w') = fd_balance fd (env_calls w)"
proof (cases "connect_packet i k")
  case None
  then show ?thesis using assms by (simp add: mqtt_send_connect_def)
next
  case (Some pkt)
  then obtain rc1 w1 where wr: "mqtt_write_all f pkt w = Some (rc1, w1)"
    using assms by (auto simp: mqtt_send_connect_def bind_eq_Some_conv)
  then have "w' = w1 \<or> w' = snd (syscall (C_read f CONNECT_BUF) w1)"
    using assms Some by (auto simp: mqtt_send_connect_def Let_def split_beta split: if_splits)
  then show ?thesis using write_all_balance [OF wr, of fd] by (auto simp: frame_simps)
qed

lemma open_tcp_balance:
  assumes "mqtt_open_tcp cfg w = (f, w')"
  shows "fd_balance fd (env_calls w') = fd_balance fd (env_calls w) + held f fd"
  using assms by (auto simp: mqtt_open_tcp_def held_def syscall_def split: if_splits)

lemma session_shutdown_kept: "mqtt_shutdown_locked s w = (s1, w1) \<Longrightarrow> fd_kept s w s1 w1"
  by (auto simp: mqtt_shutdown_locked_def fd_kept_def held_def syscall_def split: if_splits)

lemma shutdown_result: "mqtt_shutdown_locked s w = (s1, w1) \<Longrightarrow> ms_cfg s1 = ms_cfg s \<and> \<not> usable s1 \<and> ms_fd s1 < 0"
  by (auto simp: mqtt_shutdown_locked_def usable_def split: if_splits)

lemma fd_kept_trans: "fd_kept s w s1 w1 \<Longrightarrow> fd_kept s1 w1 s2 w2 \<Longrightarrow> fd_kept s w s2 w2"
  by (simp add: fd_kept_def)

text \<open>How a connection attempt goes: from a closed session, a socket is opened, then CONNECT is sent.\<close>

lemma ensure_cases:
  assumes "mqtt_ensure_connected_locked s w = Some (rc, s', w')"
  obtains "usable s" "rc = 0" "s' = s" "w' = w"
  | s1 w1 where "\<not> usable s" "mqtt_shutdown_locked s w = (s1, w1)" "mqtt_open_tcp (ms_cfg s) w1 = (ms_fd s', w')"
      "rc = - 1" "s' = s1\<lparr>ms_fd := ms_fd s', ms_connected := False\<rparr>" "ms_fd s' < 0"
  | s1 w1 f w2 w3 where "\<not> usable s" "mqtt_shutdown_locked s w = (s1, w1)" "mqtt_open_tcp (ms_cfg s) w1 = (f, w2)"
      "0 \<le> f" "\<exists>r. r \<noteq> 0 \<and> mqtt_send_connect f (client_id (ms_cfg s)) (ucast (cfg_mqtt_keepalive_sec (ms_cfg s))) w2 = Some (r, w3)"
      "mqtt_shutdown_locked (s1\<lparr>ms_fd := f\<rparr>) w3 = (s', w')" "rc = - 1"
  | s1 w1 f w2 where "\<not> usable s" "mqtt_shutdown_locked s w = (s1, w1)" "mqtt_open_tcp (ms_cfg s) w1 = (f, w2)"
      "0 \<le> f" "mqtt_send_connect f (client_id (ms_cfg s)) (ucast (cfg_mqtt_keepalive_sec (ms_cfg s))) w2 = Some (0, w')"
      "rc = 0" "s' = s1\<lparr>ms_fd := f, ms_connected := True\<rparr>"
proof (cases "usable s")
  case True
  then have "rc = 0" "s' = s" "w' = w"
    using assms by (auto simp: mqtt_ensure_connected_locked_def usable_def)
  then show ?thesis using that(1) True by blast
next
  case False
  obtain s1 w1 where sh: "mqtt_shutdown_locked s w = (s1, w1)" by (metis prod.exhaust)
  have c1: "ms_cfg s1 = ms_cfg s" using shutdown_result [OF sh] by simp
  obtain f w2 where op: "mqtt_open_tcp (ms_cfg s) w1 = (f, w2)" by (metis prod.exhaust)
  show ?thesis
  proof (cases "f < 0")
    case True
    then have "rc = - 1" "s' = s1\<lparr>ms_fd := f, ms_connected := False\<rparr>" "w' = w2"
      using assms False sh op c1 by (auto simp: mqtt_ensure_connected_locked_def usable_def Let_def)
    then show ?thesis using that(2) [OF False sh] op True by simp
  next
    case nonneg: False
    obtain r w3 where sc: "mqtt_send_connect f (client_id (ms_cfg s)) (ucast (cfg_mqtt_keepalive_sec (ms_cfg s))) w2 = Some (r, w3)"
      using assms False nonneg sh op c1
      by (auto simp: mqtt_ensure_connected_locked_def usable_def Let_def bind_eq_Some_conv)
    show ?thesis
    proof (cases "r = 0")
      case True
      then have "rc = 0" "s' = s1\<lparr>ms_fd := f, ms_connected := True\<rparr>" "w' = w3"
        using sc assms False nonneg sh op c1
        by (auto simp: mqtt_ensure_connected_locked_def usable_def Let_def)
      then show ?thesis using that(4) [OF False sh op] sc True nonneg by simp
    next
      case bad: False
      then have "rc = - 1" "mqtt_shutdown_locked (s1\<lparr>ms_fd := f\<rparr>) w3 = (s', w')"
        using sc assms False nonneg sh op c1
        by (auto simp: mqtt_ensure_connected_locked_def usable_def Let_def split: prod.splits)
      then show ?thesis using that(3) [OF False sh op] sc bad nonneg by auto
    qed
  qed
qed

lemma ensure_kept:
  assumes "mqtt_ensure_connected_locked s w = Some (rc, s', w')"
  shows "fd_kept s w s' w'"
  using assms
proof (cases rule: ensure_cases)
  case 1
  then show ?thesis by (simp add: fd_kept_def)
next
  case (2 s1 w1)
  then have "fd_kept s1 w1 s' w'" using shutdown_result open_tcp_balance
    by (fastforce simp: fd_kept_def held_def)
  then show ?thesis using fd_kept_trans session_shutdown_kept 2 by blast
next
  case (3 s1 w1 f w2 w3)
  then have "fd_kept s1 w1 (s1\<lparr>ms_fd := f\<rparr>) w3"
    using shutdown_result [of s w s1 w1] open_tcp_balance [of "ms_cfg s" w1 f w2] send_connect_balance
    by (fastforce simp: fd_kept_def held_def)
  then show ?thesis using fd_kept_trans session_shutdown_kept 3 by blast
next
  case (4 s1 w1 f w2)
  then have "fd_kept s1 w1 s' w'"
    using shutdown_result [of s w s1 w1] open_tcp_balance [of "ms_cfg s" w1 f w2] send_connect_balance
    by (fastforce simp: fd_kept_def held_def)
  then show ?thesis using fd_kept_trans session_shutdown_kept 4 by blast
qed

interpretation descriptors: session_discipline fd_kept
proof
  show "fd_kept s w s1 w2" if "mqtt_write_all (ms_fd s) bs w = Some (rc, w1)" "mqtt_shutdown_locked s w1 = (s1, w2)"
    for s :: mqtt_session_t and bs and w :: "'d env" and rc w1 s1 w2
    using session_shutdown_kept [OF that(2)] write_all_balance [OF that(1)] by (simp add: fd_kept_def)
  show "fd_kept s w s w1" if "mqtt_write_all (ms_fd s) (packet_bytes p) w = Some (0, w1)"
    for s :: mqtt_session_t and p and w :: "'d env" and w1
    using write_all_balance [OF that] by (simp add: fd_kept_def)
  show "fd_kept s w s2 w2" if "fd_kept s w s1 w1" "fd_kept s1 w1 s2 w2"
    for s s1 s2 :: mqtt_session_t and w w1 w2 :: "'d env"
    using that by (rule fd_kept_trans)
qed (erule session_shutdown_kept ensure_kept | simp add: fd_kept_def)+

subsection \<open>The bytes of a connection\<close>

text \<open>The bytes written on a descriptor since it was last opened.\<close>

fun conn_bytes :: "int \<Rightarrow> bytes \<Rightarrow> (call \<times> int) list \<Rightarrow> bytes" where
  "conn_bytes fd acc [] = acc"
| "conn_bytes fd acc (c # cs) =
     conn_bytes fd (if opens (fst c) \<and> snd c = fd then [] else acc @ sent_on fd [c]) cs"

lemma conn_bytes_append [simp]: "conn_bytes fd acc (xs @ ys) = conn_bytes fd (conn_bytes fd acc xs) ys"
  by (induction xs arbitrary: acc) auto

lemma conn_bytes_writes: "writes_on f cs \<Longrightarrow> conn_bytes fd acc cs = acc @ sent_on fd cs"
proof (induction cs arbitrary: acc)
  case (Cons c cs)
  then show ?case using sent_on_append [of fd "[c]" cs]
    by (cases c; cases "fst c") (auto simp: writes_on_def)
qed simp

abbreviation wire :: "mqtt_session_t \<Rightarrow> 'd env \<Rightarrow> bytes" where
  "wire s w \<equiv> conn_bytes (ms_fd s) [] (env_calls w)"

definition connect_of :: "gateway_config_t \<Rightarrow> mqtt_packet" where
  "connect_of cfg = CONNECT (client_id cfg) (ucast (cfg_mqtt_keepalive_sec cfg))"

definition wire_ok :: "mqtt_session_t \<Rightarrow> 'd env \<Rightarrow> bool" where
  "wire_ok s w \<longleftrightarrow> (usable s \<longrightarrow> packet_ok (connect_of (ms_cfg s)) \<and>
     (\<exists>ps. list_all session_packet ps \<and>
        wire s w = packet_bytes (connect_of (ms_cfg s)) @ concat (map packet_bytes ps)))"

definition wire_kept :: "mqtt_session_t \<Rightarrow> 'd env \<Rightarrow> mqtt_session_t \<Rightarrow> 'd env \<Rightarrow> bool" where
  "wire_kept s w s' w' \<longleftrightarrow> ms_cfg s' = ms_cfg s \<and> (wire_ok s w \<longrightarrow> wire_ok s' w')"

lemma wire_unusable: "\<not> usable s' \<Longrightarrow> ms_cfg s' = ms_cfg s \<Longrightarrow> wire_kept s w s' w'"
  by (simp add: wire_kept_def wire_ok_def)

lemma open_tcp_wire:
  assumes "mqtt_open_tcp cfg w = (f, w')" "0 \<le> f"
  shows "conn_bytes f [] (env_calls w') = []"
  using assms by (auto simp: mqtt_open_tcp_def syscall_def split: if_splits)

lemma send_connect_wire:
  assumes "mqtt_send_connect f i k w = Some (0, w')"
  shows "packet_ok (CONNECT i k)"
    and "conn_bytes f [] (env_calls w') = conn_bytes f [] (env_calls w) @ packet_bytes (CONNECT i k)"
proof -
  obtain pkt where pkt: "connect_packet i k = Some pkt"
    using assms by (cases "connect_packet i k") (auto simp: mqtt_send_connect_def)
  then show "packet_ok (CONNECT i k)" by (simp add: packet_ok_def)
  obtain w1 where wr: "mqtt_write_all f pkt w = Some (0, w1)" and w': "w' = snd (syscall (C_read f CONNECT_BUF) w1)"
    using assms pkt by (auto simp: mqtt_send_connect_def bind_eq_Some_conv Let_def split_beta split: if_splits)
  obtain cs where "env_calls w1 = env_calls w @ cs" "writes_on f cs" "sent_on f cs = pkt"
    using write_all_calls [OF wr] by auto
  then show "conn_bytes f [] (env_calls w') = conn_bytes f [] (env_calls w) @ packet_bytes (CONNECT i k)"
    using pkt conn_bytes_writes [of f cs f] by (simp add: w' frame_simps packet_bytes_def)
qed

lemma ensure_wire:
  assumes "mqtt_ensure_connected_locked s w = Some (rc, s', w')"
  shows "wire_kept s w s' w'"
  using assms
proof (cases rule: ensure_cases)
  case 1
  then show ?thesis by (simp add: wire_kept_def)
next
  case (2 s1 w1)
  then show ?thesis using wire_unusable ensure_usable [OF assms] by auto
next
  case (3 s1 w1 f w2 w3)
  then show ?thesis using wire_unusable ensure_usable [OF assms] by auto
next
  case (4 s1 w1 f w2)
  have "wire s' w' = packet_bytes (connect_of (ms_cfg s))"
    using open_tcp_wire [OF 4(3,4)] send_connect_wire(2) [OF 4(5)] by (simp add: 4(7) connect_of_def)
  then have "wire_ok s' w'"
    using send_connect_wire(1) [OF 4(5)] ensure_usable(2) [OF assms]
    by (auto simp: wire_ok_def connect_of_def intro: exI [of _ "[]"])
  then show ?thesis using ensure_usable(2) [OF assms] by (simp add: wire_kept_def)
qed

lemma send_wire:
  assumes "session_packet p" "mqtt_write_all (ms_fd s) (packet_bytes p) w = Some (0, w1)"
  shows "wire_kept s w s w1"
proof -
  obtain cs where "env_calls w1 = env_calls w @ cs" "writes_on (ms_fd s) cs" "sent_on (ms_fd s) cs = packet_bytes p"
    using write_all_calls [OF assms(2)] by auto
  then have "wire s w1 = wire s w @ packet_bytes p"
    using conn_bytes_writes [of "ms_fd s" cs "ms_fd s"] by simp
  moreover have "\<exists>qs. list_all session_packet qs \<and> (a @ concat (map packet_bytes ps)) @ packet_bytes p =
      a @ concat (map packet_bytes qs)" if "list_all session_packet ps" for ps a
    using assms(1) that by (intro exI [of _ "ps @ [p]"]) simp
  ultimately show ?thesis unfolding wire_kept_def wire_ok_def by fastforce
qed

interpretation wire: session_discipline wire_kept
proof
  show "wire_kept s w s1 w1" if "mqtt_shutdown_locked s w = (s1, w1)"
    for s s1 :: mqtt_session_t and w w1 :: "'d env"
    using shutdown_result [OF that] wire_unusable by blast
  then show "wire_kept s w s1 w2" if "mqtt_shutdown_locked s w1 = (s1, w2)"
    for s s1 :: mqtt_session_t and w w1 w2 :: "'d env"
    using shutdown_result [OF that] wire_unusable by blast
  show "wire_kept s w s w1" if "session_packet p" "mqtt_write_all (ms_fd s) (packet_bytes p) w = Some (0, w1)"
    for s :: mqtt_session_t and p and w w1 :: "'d env"
    using that by (rule send_wire)
  show "wire_kept s w s (w\<lparr>env_db := d\<rparr>)" for s and w :: "'d env" and d
    by (simp add: wire_kept_def wire_ok_def)
qed (erule ensure_wire | simp add: wire_kept_def)+

text \<open>
  C10. What the broker sees: after any sequence of operations from a fresh session, in any
  environment, while the session is connected the bytes written on its socket since it was
  opened are one CONNECT packet for this gateway followed by whole PUBLISH and PINGREQ packets,
  and nothing else: no packet is ever cut short, interleaved or sent before CONNECT.
\<close>

theorem session_stream_packets:
  assumes "mqtt_run ops (mqtt_session_init (Some s0) (Some cfg)) w = Some (Some s, w')"
    and "ms_connected s" and "0 \<le> ms_fd s"
  shows "\<exists>ps. list_all session_packet ps \<and>
    conn_bytes (ms_fd s) [] (env_calls w') = packet_bytes (connect_of cfg) @ concat (map packet_bytes ps) \<and>
    packet_ok (connect_of cfg)"
proof -
  let ?s = "\<lparr>ms_cfg = cfg, ms_fd = - 1, ms_connected = False\<rparr>"
  have "wire_kept ?s w s w'" using wire.R_run [of ops ?s w "Some s" w'] assms(1) by (simp add: mqtt_session_init_def)
  then have cfg: "ms_cfg s = cfg" by (simp add: wire_kept_def)
  have "wire_ok s w'" using \<open>wire_kept ?s w s w'\<close> by (simp add: wire_kept_def wire_ok_def [of ?s] usable_def [of ?s])
  then show ?thesis using assms(2,3) cfg by (auto simp: wire_ok_def usable_def)
qed

text \<open>
  Descriptors: any sequence of operations on a fresh session, with any failures, followed by a
  shutdown leaves every descriptor with the balance of opens and closes it had before: no
  socket is leaked by a failed connection and none is closed twice.
\<close>

theorem session_no_leak:
  assumes "mqtt_run (ops @ [Op_shutdown]) (mqtt_session_init (Some s0) (Some cfg)) w = Some (s, w')"
  shows "fd_balance fd (env_calls w') = fd_balance fd (env_calls w)"
proof -
  let ?s = "\<lparr>ms_cfg = cfg, ms_fd = - 1, ms_connected = False\<rparr>"
  obtain a b where ab: "mqtt_run ops (Some ?s) w = Some (a, b)"
    using assms by (auto simp: mqtt_session_init_def mqtt_run_append bind_eq_Some_conv)
  then have "mqtt_session_shutdown a b = (s, w')"
    using assms by (cases "mqtt_session_shutdown a b") (simp add: mqtt_session_init_def mqtt_run_append)
  moreover obtain t where t: "s = Some t" "fd_kept ?s w t w'"
    using descriptors.R_run [of _ ?s w s w'] assms by (auto simp: mqtt_session_init_def)
  ultimately have "ms_fd t < 0"
    using shutdown_result by (auto simp: mqtt_session_shutdown_def split: option.splits prod.splits)
  then show ?thesis using t(2) by (simp add: fd_kept_def held_def)
qed

lemma write_all_whole:
  assumes "buf \<noteq> []" "env_ret w (env_n w) = int (length buf)"
  shows "mqtt_write_all fd buf w = Some (0, snd (syscall (C_write fd buf) w))"
  unfolding mqtt_write_all_def using assms
  by (subst write_loop.simps) (simp add: split_beta write_loop.simps [of _ "[]"])

text \<open>A broker that accepts: socket 5, CONNECT written whole, CONNACK with code 0, then a ping.\<close>

definition demo_mqtt_cfg :: gateway_config_t where
  "demo_mqtt_cfg = gateway_config_zero\<lparr>cfg_device_id := ''gw''\<rparr>"

definition demo_broker :: "unit env" where
  "demo_broker = (demo_env (\<lambda>k. [5, 1, 0, 25, 4, 2, 0] ! k))\<lparr>env_data := (\<lambda>k. if k = 4 then [0x20, 2, 0, 0] else [])\<rparr>"

definition demo_session :: mqtt_session_t where
  "demo_session = \<lparr>ms_cfg = demo_mqtt_cfg, ms_fd = 5, ms_connected = True\<rparr>"

lemma demo_connect_packet:
  "connect_packet (client_id demo_mqtt_cfg) (ucast (cfg_mqtt_keepalive_sec demo_mqtt_cfg)) =
     Some (packet_bytes (connect_of demo_mqtt_cfg))" "length (packet_bytes (connect_of demo_mqtt_cfg)) = 25"
  by (simp_all add: connect_packet_def demo_mqtt_cfg_def gateway_config_zero_def client_id_def packet_bytes_def connect_of_def
      Let_def mqtt_encode_remaining_length_def enc_loop.simps snprintf_def len16_def c_str_def nul_def)

lemma demo_connect:
  "\<exists>w'. mqtt_run [Op_ensure, Op_ping] (mqtt_session_init (Some demo_session) (Some demo_mqtt_cfg)) demo_broker =
     Some (Some demo_session, w')"
proof -
  have f: "demo_mqtt_cfg = ms_cfg demo_session" "ms_fd demo_session = 5" "ms_connected demo_session"
    by (simp_all add: demo_session_def)
  have e: "env_ret demo_broker = (\<lambda>k. [5, 1, 0, 25, 4, 2, 0] ! k)" "env_n demo_broker = 0"
    "env_data demo_broker = (\<lambda>k. if k = 4 then [0x20, 2, 0, 0] else [])"
    by (simp_all add: demo_broker_def demo_env_def)
  have ne: "packet_bytes (connect_of demo_mqtt_cfg) \<noteq> []" using demo_connect_packet(2) by force
  note [simp] = demo_connect_packet write_all_whole frame_simps ne
  show ?thesis
    by (simp add: mqtt_session_init_def mqtt_session_ensure_connected_def mqtt_ensure_connected_locked_def
        mqtt_shutdown_locked_def mqtt_open_tcp_def mqtt_send_connect_def mqtt_session_ping_def split_beta Let_def e
        mqtt_send_ping_def read_bytes_def data_at_def demo_session_def ping_packet_def)
qed

theorem session_stream_packets_witness:
  "\<exists>w' ps. mqtt_run [Op_ensure, Op_ping] (mqtt_session_init (Some demo_session) (Some demo_mqtt_cfg)) demo_broker =
      Some (Some demo_session, w') \<and> list_all session_packet ps \<and>
    conn_bytes 5 [] (env_calls w') = packet_bytes (connect_of demo_mqtt_cfg) @ concat (map packet_bytes ps)"
proof -
  obtain w' where r: "mqtt_run [Op_ensure, Op_ping] (mqtt_session_init (Some demo_session) (Some demo_mqtt_cfg)) demo_broker =
      Some (Some demo_session, w')" using demo_connect by blast
  show ?thesis using session_stream_packets [OF r] r by (auto simp: demo_session_def)
qed

end
