(* ===== verification/Mqtt_Replay.thy ===== *)
theory Mqtt_Replay
  imports Mqtt_Session
begin

text \<open>
  Replay of pending rows by the MQTT session, \<^verbatim>\<open>mqtt_session_replay_pending\<close> of
  \<^verbatim>\<open>src/src/egress/mqtt_session.c\<close>, against the store: which rows a replay may take out of the
  pending list, that repeated replays empty it when network and database work, and that the
  packets of a loaded configuration fit their buffers.
\<close>

subsection \<open>Replay\<close>

definition row_packet :: "gateway_config_t \<Rightarrow> storage_telemetry_row_t \<Rightarrow> bytes" where
  "row_packet cfg r = packet_bytes (PUBLISH (cfg_mqtt_topic cfg) (telemetry_to_json (sr_point r) 384))"

definition mark_rows :: "int set \<Rightarrow> tel_row list \<Rightarrow> tel_row list" where
  "mark_rows ids rs = map (\<lambda>r. if tr_id r \<in> ids then r\<lparr>tr_uploaded := True\<rparr> else r) rs"

lemma mark_rows_simps [simp]:
  "mark_rows {} rs = rs" "mark_rows A (mark_rows B rs) = mark_rows (A \<union> B) rs"
  "map (mark_row i) rs = mark_rows {i} rs"
  by (auto simp: mark_rows_def mark_row_def)

lemma pending_mark_rows: "pending (mark_rows ids rs) = filter (\<lambda>r. tr_id r \<notin> ids) (pending rs)"
  by (induction rs) (auto simp: pending_def mark_rows_def)

lemma send_publish_effect:
  assumes "mqtt_send_publish fd topic payload w = Some (rc, w')"
  shows "\<exists>cs. called w cs w' \<and> writes_on fd cs \<and> (rc = 0 \<longrightarrow> sent_on fd cs = packet_bytes (PUBLISH topic payload))"
proof (cases "publish_packet topic payload")
  case None
  then show ?thesis using assms by (auto simp: mqtt_send_publish_def writes_on_def intro: exI [of _ "[]"])
next
  case (Some pkt)
  then have "wrote fd pkt w (rc, w')"
    using assms write_loop_wrote by (auto simp: mqtt_send_publish_def mqtt_write_all_def)
  then show ?thesis using Some by (auto simp: wrote_def packet_bytes_def)
qed

text \<open>
  What a replay did, started with the rows \<open>rs\<close>: the packets of the first rows went out whole and
  in order, a part of these rows was marked, the rest of the table is as it was.
\<close>

definition replayed_to ::
    "('d \<Rightarrow> tel_row list) \<Rightarrow> gateway_config_t \<Rightarrow> int \<Rightarrow> storage_telemetry_row_t list \<Rightarrow> 'd env \<Rightarrow> int \<Rightarrow> 'd env \<Rightarrow> bool" where
  "replayed_to rows cfg fd rs w n w' \<longleftrightarrow> (\<exists>sent marked cs. prefix sent rs \<and> subseq marked sent \<and> n = int (length marked) \<and>
     env_calls w' = env_calls w @ cs \<and> env_sqlite w' = env_sqlite w \<and> prefix (concat (map (row_packet cfg) sent)) (sent_on fd cs) \<and>
     rows (env_db w') = mark_rows (sr_row_id ` set marked) (rows (env_db w)))"

lemma replayed_to_step:
  assumes c: "called w cs w1" "sent_on fd cs = row_packet cfg r"
    and m: "w2 = w1\<lparr>env_db := d\<rparr>" "rows d = (if b then mark_rows {sr_row_id r} (rows (env_db w1)) else rows (env_db w1))"
    and rest: "replayed_to rows cfg fd rs w2 n w'"
  shows "replayed_to rows cfg fd (r # rs) w (if b then n + 1 else n) w'"
proof -
  obtain sent marked cs2 where s: "prefix sent rs" "subseq marked sent" "n = int (length marked)"
    "env_calls w' = env_calls w2 @ cs2" "env_sqlite w' = env_sqlite w2" "prefix (concat (map (row_packet cfg) sent)) (sent_on fd cs2)"
    "rows (env_db w') = mark_rows (sr_row_id ` set marked) (rows (env_db w2))"
    using rest unfolding replayed_to_def by blast
  let ?marked = "if b then r # marked else marked"
  have "rows (env_db w') = mark_rows (sr_row_id ` set ?marked) (rows (env_db w))"
    using s(7) m c(1) by (auto simp: called_def)
  moreover have "subseq ?marked (r # sent)" using s(2) by auto
  ultimately show ?thesis unfolding replayed_to_def using s m(1) c
    by (intro exI [of _ "r # sent"] exI [of _ ?marked] exI [of _ "cs @ cs2"]) (auto simp: called_def)
qed

lemma replayed_to_stop:
  assumes "called w cs w1" "env_db w' = env_db w1" "env_calls w' = env_calls w1 @ cs'" "env_sqlite w' = env_sqlite w1"
  shows "replayed_to rows cfg fd rs w 0 w'"
  unfolding replayed_to_def using assms
  by (intro exI [of _ "[]"] exI [of _ "cs @ cs'"]) (auto simp: called_def)

lemma shutdown_frame:
  assumes "mqtt_shutdown_locked s w = (s1, w1)"
  shows "env_db w1 = env_db w" "env_sqlite w1 = env_sqlite w" "\<exists>cs. called w cs w1"
  using assms by (auto simp: mqtt_shutdown_locked_def frame_simps intro: called_refl called_syscall split: if_splits)

lemma replay_rows_replayed:
  assumes "replay_rows (Some c) rs k m s w = Some (k', m', s', w')" and "sqlite_laws (env_sqlite w) rows"
  shows "replayed_to rows (ms_cfg s) (ms_fd s) rs w (k' - k) w'"
  using assms
proof (induction "Some c" rs k m s w rule: replay_rows.induct)
  case (1 k m s w)
  then show ?case using replayed_to_stop [of w "[]" w w "[]"] by simp
next
  case (2 r rows' k m s w)
  obtain rc w1 where p: "mqtt_send_publish (ms_fd s) (cfg_mqtt_topic (ms_cfg s)) (telemetry_to_json (sr_point r) 384) w =
      Some (rc, w1)"
    using "2.prems"(1) by (auto simp: bind_eq_Some_conv)
  obtain cs where cs: "called w cs w1" "rc = 0 \<longrightarrow> sent_on (ms_fd s) cs = row_packet (ms_cfg s) r"
    using send_publish_effect [OF p] by (auto simp: row_packet_def)
  have laws: "sqlite_laws (env_sqlite w1) rows" using cs(1) "2.prems"(2) by (simp add: called_def)
  show ?case
  proof (cases "rc = 0")
    case False
    obtain s3 w3 where sh: "mqtt_shutdown_locked s w1 = (s3, w3)" by (metis prod.exhaust)
    then show ?thesis
      using "2.prems"(1) p False replayed_to_stop [OF cs(1)] shutdown_frame [OF sh] by (auto simp: called_def)
  next
    case True
    obtain mrc w2 where mk: "storage_mark_telemetry_uploaded (Some c) (sr_row_id r) w1 = (mrc, w2)" by (metis prod.exhaust)
    obtain d where d: "w2 = w1\<lparr>env_db := d\<rparr>"
      "rows d = (if mrc = 0 then mark_rows {sr_row_id r} (rows (env_db w1)) else rows (env_db w1))"
      using mark_uploaded_rows [OF laws mk] by auto
    have st: "replayed_to rows (ms_cfg s) (ms_fd s) rows' w2 (if mrc = 0 then k' - k - 1 else k' - k) w'"
      using "2.hyps"(1) [OF p refl _ mk [symmetric]] "2.hyps"(2) [OF p refl _ mk [symmetric]] "2.prems" p mk True d(1) laws
      by (auto split: if_splits simp: algebra_simps)
    show ?thesis using replayed_to_step [OF cs(1) _ d st] cs(2) True by (cases "mrc = 0") simp_all
  qed
qed

lemma prefix_map_restored: "prefix zs (map f xs) \<Longrightarrow> \<exists>i. zs = map f (take i xs)"
  using prefix_map_take [of zs f "length xs" xs] by auto

lemma subseq_map_preimage: "subseq zs (map f xs) \<Longrightarrow> \<exists>ys. subseq ys xs \<and> zs = map f ys"
proof (induction xs arbitrary: zs)
  case (Cons x xs)
  show ?case
  proof (cases zs)
    case Nil
    then show ?thesis by (intro exI [of _ "[]"]) simp
  next
    case (Cons z zs')
    note zs = this
    show ?thesis
    proof (cases "z = f x")
      case True
      then have "subseq zs' (map f xs)" using Cons.prems zs by simp
      then obtain ys where "subseq ys xs" "zs' = map f ys" using Cons.IH by blast
      then show ?thesis using zs True by (intro exI [of _ "x # ys"]) simp
    next
      case False
      then have "subseq zs (map f xs)" using Cons.prems zs by simp
      then show ?thesis using Cons.IH by (meson list_emb_Cons)
    qed
  qed
qed auto

text \<open>Connecting makes calls and does nothing else.\<close>

definition calls_only :: "'d env \<Rightarrow> 'd env \<Rightarrow> bool" where
  "calls_only w w' \<longleftrightarrow> (\<exists>cs. called w cs w')"

lemma calls_only_refl [simp]: "calls_only w w"
  unfolding calls_only_def using called_refl by blast

lemma calls_only_trans [trans]: "calls_only a b \<Longrightarrow> calls_only b c \<Longrightarrow> calls_only a c"
  unfolding calls_only_def using called_trans by blast

lemma calls_only_syscall [simp]: "calls_only w (snd (syscall c w))"
  unfolding calls_only_def using called_syscall by blast

lemma calls_only_frame:
  assumes "calls_only w w'"
  shows "env_db w' = env_db w" "env_sqlite w' = env_sqlite w" "env_ret w' = env_ret w" "env_errno w' = env_errno w"
    "env_files w' = env_files w" "env_clock w' = env_clock w" "\<exists>cs. env_calls w' = env_calls w @ cs"
  using assms by (auto simp: calls_only_def called_def)

lemma write_all_calls_only: "mqtt_write_all f bs w = Some (rc, w') \<Longrightarrow> calls_only w w'"
  unfolding mqtt_write_all_def calls_only_def using write_loop_wrote by (fastforce simp: wrote_def)

lemma shutdown_calls_only: "mqtt_shutdown_locked s w = (s1, w1) \<Longrightarrow> calls_only w w1"
  unfolding calls_only_def by (rule shutdown_frame)

lemma open_tcp_calls_only:
  assumes "mqtt_open_tcp cfg w = (f, w')"
  shows "calls_only w w'"
proof -
  let ?w1 = "snd (syscall (C_socket ''AF_INET'') w)"
  let ?w2 = "snd (syscall (C_inet_pton (cfg_broker_host cfg)) ?w1)"
  let ?fd = "fst (syscall (C_socket ''AF_INET'') w)"
  let ?w3 = "snd (syscall (C_connect ?fd (cfg_broker_host cfg)) ?w2)"
  have "calls_only w ?w1" "calls_only w ?w2" "calls_only w ?w3"
    by (blast intro: calls_only_trans calls_only_syscall)+
  moreover have "w' \<in> {?w1, snd (syscall (C_close ?fd) ?w2), snd (syscall (C_close ?fd) ?w3), ?w3}"
    using assms by (auto simp: mqtt_open_tcp_def split_beta split: if_splits)
  ultimately show ?thesis by (blast intro: calls_only_trans calls_only_syscall)
qed

lemma send_connect_calls_only:
  assumes "mqtt_send_connect f i k w = Some (rc, w')"
  shows "calls_only w w'"
proof (cases "connect_packet i k")
  case None
  then show ?thesis using assms by (simp add: mqtt_send_connect_def)
next
  case (Some pkt)
  then obtain rc1 w1 where wr: "mqtt_write_all f pkt w = Some (rc1, w1)"
    using assms by (auto simp: mqtt_send_connect_def bind_eq_Some_conv)
  then have "w' = w1 \<or> w' = snd (syscall (C_read f CONNECT_BUF) w1)"
    using assms Some by (auto simp: mqtt_send_connect_def Let_def split_beta split: if_splits)
  then show ?thesis using write_all_calls_only [OF wr] calls_only_trans calls_only_syscall by blast
qed

lemma ensure_calls_only:
  assumes "mqtt_ensure_connected_locked s w = Some (rc, s', w')"
  shows "calls_only w w'"
  using assms
  by (cases rule: ensure_cases)
    (auto intro: calls_only_trans dest!: shutdown_calls_only open_tcp_calls_only send_connect_calls_only)

lemma send_publish_calls_only: "mqtt_send_publish fd t p w = Some (rc, w') \<Longrightarrow> calls_only w w'"
  using send_publish_effect unfolding calls_only_def by blast

lemma publish_calls_only:
  assumes "publish_locked s topic payload w = Some (rc, s', w')"
  shows "calls_only w w'"
proof -
  obtain rc1 s1 w1 where e: "mqtt_ensure_connected_locked s w = Some (rc1, s1, w1)"
    using assms by (auto simp: publish_locked_def bind_eq_Some_conv)
  note t1 = ensure_calls_only [OF e]
  show ?thesis
  proof (cases "rc1 = 0")
    case False
    then show ?thesis using assms e t1 by (simp add: publish_locked_def)
  next
    case True
    obtain rc2 w2 where p: "mqtt_send_publish (ms_fd s1) topic payload w1 = Some (rc2, w2)"
      using assms e True by (auto simp: publish_locked_def bind_eq_Some_conv)
    have t2: "calls_only w w2" using calls_only_trans [OF t1 send_publish_calls_only [OF p]] .
    obtain s3 w3 where sh: "mqtt_shutdown_locked s1 w2 = (s3, w3)" by (metis prod.exhaust)
    show ?thesis using assms e True p sh t2 calls_only_trans [OF t2 shutdown_calls_only [OF sh]]
      by (auto simp: publish_locked_def split: if_splits)
  qed
qed

text \<open>Sending the rows a fetch has delivered, seen on the pending list.\<close>

lemma replayed_pending:
  assumes rep: "replayed_to rows cfg fd (map restored (take j (pending (rows (env_db w))))) w k w'"
  shows "\<exists>i marked cs. i \<le> j \<and> subseq marked (take i (pending (rows (env_db w)))) \<and> k = int (length marked) \<and>
    env_calls w' = env_calls w @ cs \<and> env_sqlite w' = env_sqlite w \<and>
    prefix (concat (map (\<lambda>r. row_packet cfg (restored r)) (take i (pending (rows (env_db w)))))) (sent_on fd cs) \<and>
    pending (rows (env_db w')) = filter (\<lambda>r. tr_id r \<notin> tr_id ` set marked) (pending (rows (env_db w)))"
proof -
  let ?p = "pending (rows (env_db w))"
  obtain sent marked cs where r: "prefix sent (map restored (take j ?p))" "subseq marked sent" "k = int (length marked)"
    "env_calls w' = env_calls w @ cs" "env_sqlite w' = env_sqlite w"
    "prefix (concat (map (row_packet cfg) sent)) (sent_on fd cs)"
    "rows (env_db w') = mark_rows (sr_row_id ` set marked) (rows (env_db w))"
    using rep unfolding replayed_to_def by blast
  obtain i where i: "sent = map restored (take i (take j ?p))" using r(1) prefix_map_restored by metis
  obtain marked' where m: "subseq marked' (take i (take j ?p))" "marked = map restored marked'"
    using r(2) i subseq_map_preimage by metis
  have "sr_row_id ` set marked = tr_id ` set marked'" by (auto simp: m(2) restored_def image_image)
  then show ?thesis using r i m
    by (intro exI [of _ "min i j"] exI [of _ marked'] exI [of _ cs]) (auto simp: pending_mark_rows comp_def)
qed

text \<open>
  C11. Replay: with SQLite obeying its laws, whatever the network does, a replay sends the packets of
  at most a batch of the oldest pending rows, in key order, and takes out of the pending list
  only rows whose packet was written whole before; the result counts them. Every other row stays
  pending, so each row is delivered at least once before it is forgotten.
\<close>

theorem replay_marks_sent:
  assumes laws: "sqlite_laws (env_sqlite w) rows" and on: "sqlite_on c"
    and call: "mqtt_session_replay_pending (Some s) (Some c) m w = Some (n, s', m', w')"
  shows "\<exists>j marked fd cs1 cs2. j \<le> 64 \<and> j \<le> replay_batch (cfg_mqtt_replay_batch (ms_cfg s)) \<and>
    subseq marked (take j (pending (rows (env_db w)))) \<and> n = int (length marked) \<and>
    env_calls w' = env_calls w @ cs1 @ cs2 \<and>
    prefix (concat (map (\<lambda>r. row_packet (ms_cfg s) (restored r)) (take j (pending (rows (env_db w)))))) (sent_on fd cs2) \<and>
    pending (rows (env_db w')) = filter (\<lambda>r. tr_id r \<notin> tr_id ` set marked) (pending (rows (env_db w)))"
proof -
  let ?b = "replay_batch (cfg_mqtt_replay_batch (ms_cfg s))"
  have b: "0 < ?b" "?b \<le> 64" by (auto simp: replay_batch_def Let_def unat_gt_0)
  note fetch = fetch_only [of "Some c" True ?b w] fetch_pending_oldest_rows [OF laws on b(1)]
  show ?thesis
    using call
  proof (cases rule: replay_pending_cases)
    case (no_fetch frc out cnt)
    then have "env_calls w' = env_calls w" "rows (env_db w') = rows (env_db w)" using fetch(1) fetch(2) [OF no_fetch(4)] by auto
    then show ?thesis using no_fetch(1) by (intro exI [of _ 0] exI [of _ "[]"]) auto
  next
    case (fetched frc out cnt w1 rc s1 w2 m1 s2 w3 x w4)
    have w1: "env_sqlite w1 = env_sqlite w" "env_calls w1 = env_calls w" using fetch(1) fetched(1) by auto
    obtain j where fo: "rows (env_db w1) = rows (env_db w)" "cnt = length out" "j \<le> ?b"
      "out = map restored (take j (pending (rows (env_db w))))"
      using fetch(2) [OF fetched(1)] by blast
    note ef = calls_only_frame [OF ensure_calls_only [OF fetched(2)]]
    obtain cs1 where cs1: "env_calls w2 = env_calls w1 @ cs1" using ef(7) by blast
    have "replayed_to rows (ms_cfg s) (ms_fd s1) out w2 n w3"
    proof (cases "rc = 0")
      case True
      then show ?thesis
        using replay_rows_replayed [of c out 0 m s1 w2 n m1 s2 w3 rows] fetched(3) fo(2) laws ef(2) w1(1) ensure_usable(2) [OF fetched(2)]
        by simp
    next
      case False
      then show ?thesis using fetched(3) replayed_to_stop [of w2 "[]" w2 w2 "[]"] by auto
    qed
    moreover have r2: "rows (env_db w2) = rows (env_db w)" using ef(1) fo(1) by simp
    ultimately obtain i marked cs2 where r: "i \<le> j" "subseq marked (take i (pending (rows (env_db w))))" "n = int (length marked)"
      "env_calls w3 = env_calls w2 @ cs2" "env_sqlite w3 = env_sqlite w2"
      "prefix (concat (map (\<lambda>r. row_packet (ms_cfg s) (restored r)) (take i (pending (rows (env_db w)))))) (sent_on (ms_fd s1) cs2)"
      "pending (rows (env_db w3)) = filter (\<lambda>r. tr_id r \<notin> tr_id ` set marked) (pending (rows (env_db w)))"
      using replayed_pending [of rows "ms_cfg s" "ms_fd s1" j w2 n w3] fo(4) by auto
    have "rows (env_db w') = rows (env_db w3)" "env_calls w' = env_calls w3"
      using pending_count_rows [of w3 rows "Some c" x w4] fetched(4,7) laws w1 ef r(5) by auto
    then show ?thesis using b fo(3) r cs1 w1(2)
      by (intro exI [of _ i] exI [of _ marked] exI [of _ "ms_fd s1"] exI [of _ cs1] exI [of _ cs2]) auto
  qed
qed

subsection \<open>Draining the pending list\<close>

text \<open>SQLite without errors: statements compile, updates complete, selects deliver all they can.\<close>

definition sqlite_healthy :: "'d sqlite_api \<Rightarrow> ('d \<Rightarrow> tel_row list) \<Rightarrow> bool" where
  "sqlite_healthy api rows \<longleftrightarrow> (\<forall>d sql. fst (sq_prepare api d sql)) \<and>
     (\<forall>d i. fst (sq_step api d SQL_MARK_UPLOADED [SQL_INT i])) \<and>
     (\<forall>d k. fst (sq_rows api d SQL_SELECT_PENDING [SQL_INT (int k)]) = map row_columns (take k (pending (rows d))))"

lemma mem_healthy: "sqlite_healthy mem_api mem_rows"
  by (simp add: sqlite_healthy_def mem_api_def mem_step_def mem_select_def)

definition writes_progress :: "'d env \<Rightarrow> bool" where
  "writes_progress w \<longleftrightarrow> (\<forall>k. 0 < env_ret w k)"

lemma write_loop_progress: "writes_progress w \<Longrightarrow> \<exists>w'. write_loop fd buf w = Some (0, w')"
proof (induction "length buf" arbitrary: buf w rule: less_induct)
  case less
  let ?n = "env_ret w (env_n w)" and ?w = "snd (syscall (C_write fd buf) w)"
  have n: "0 < ?n" using less.prems by (simp add: writes_progress_def)
  show ?case
  proof (cases "buf = []")
    case True
    then show ?thesis by (subst write_loop.simps) simp
  next
    case False
    then have "\<exists>w'. write_loop fd (drop (nat ?n) buf) ?w = Some (0, w')"
      using less n by (simp add: writes_progress_def frame_simps)
    then show ?thesis using False n by (subst write_loop.simps) (auto simp: syscall_def)
  qed
qed

lemma send_publish_progress:
  assumes "writes_progress w" "length topic + length payload \<le> 1017"
  shows "\<exists>w'. mqtt_send_publish fd topic payload w = Some (0, w') \<and> calls_only w w'"
proof -
  obtain pkt where p: "publish_packet topic payload = Some pkt" using publish_fits [OF assms(2)] by blast
  obtain w' where "mqtt_write_all fd pkt w = Some (0, w')"
    using write_loop_progress [OF assms(1)] unfolding mqtt_write_all_def by blast
  then show ?thesis using p write_all_calls_only by (fastforce simp: mqtt_send_publish_def)
qed

lemma json_fits: "length (telemetry_to_json p 384) \<le> 383"
  using length_snprintf [of 384 "telemetry_json p"] by (simp add: telemetry_to_json_def)

lemma mark_healthy:
  assumes "sqlite_healthy (env_sqlite w) rows" "0 < i" "st_db c"
  shows "fst (storage_mark_telemetry_uploaded (Some c) i w) = 0"
  using assms by (simp add: storage_mark_telemetry_uploaded_def sqlite_healthy_def db_modify_def db_prepare_def db_step_def split_beta)

lemma replay_rows_healthy:
  assumes "sqlite_laws (env_sqlite w) rows" "sqlite_healthy (env_sqlite w) rows" "st_db c" "writes_progress w"
    "fits 128 (cfg_mqtt_topic (ms_cfg s))" "list_all (\<lambda>r. 0 < sr_row_id r) rs"
  shows "\<exists>m' w'. replay_rows (Some c) rs k m s w = Some (k + int (length rs), m', s, w') \<and>
    env_ret w' = env_ret w \<and> env_sqlite w' = env_sqlite w \<and>
    rows (env_db w') = mark_rows (sr_row_id ` set rs) (rows (env_db w)) \<and> (m = None \<longleftrightarrow> m' = None)"
  using assms
proof (induction rs arbitrary: k m w)
  case (Cons r rs)
  have "length (cfg_mqtt_topic (ms_cfg s)) + length (telemetry_to_json (sr_point r) 384) \<le> 1017"
    using Cons.prems(5) json_fits [of "sr_point r"] by (simp add: fits_def)
  then obtain w1 where p: "mqtt_send_publish (ms_fd s) (cfg_mqtt_topic (ms_cfg s)) (telemetry_to_json (sr_point r) 384) w = Some (0, w1)"
    "calls_only w w1" using send_publish_progress [OF Cons.prems(4)] by blast
  note f = calls_only_frame [OF p(2)]
  obtain w2 where mk: "storage_mark_telemetry_uploaded (Some c) (sr_row_id r) w1 = (0, w2)"
    using mark_healthy [of w1 rows "sr_row_id r" c] Cons.prems f by (cases "storage_mark_telemetry_uploaded (Some c) (sr_row_id r) w1") auto
  obtain d where d: "w2 = w1\<lparr>env_db := d\<rparr>" "rows d = mark_rows {sr_row_id r} (rows (env_db w1))"
    using mark_uploaded_rows [OF _ mk] Cons.prems(1) f by auto
  let ?m = "map_option (\<lambda>m. m\<lparr>gm_mqtt_replay_total := gm_mqtt_replay_total m + 1\<rparr>) m"
  obtain m' w' where "replay_rows (Some c) rs (k + 1) ?m s w2 = Some (k + 1 + int (length rs), m', s, w')"
    "env_ret w' = env_ret w2" "env_sqlite w' = env_sqlite w2"
    "rows (env_db w') = mark_rows (sr_row_id ` set rs) (rows (env_db w2))" "?m = None \<longleftrightarrow> m' = None"
    using Cons.IH [of w2 "k + 1" ?m] Cons.prems d f by (auto simp: writes_progress_def)
  then show ?case using p(1) mk d f by (auto simp: add_ac)
qed auto

lemma filter_not_taken:
  assumes "distinct (map f xs)"
  shows "filter (\<lambda>x. f x \<notin> f ` set (take b xs)) xs = drop b xs"
proof -
  have d: "f ` set (take b xs) \<inter> f ` set (drop b xs) = {}"
    using assms by (metis append_take_drop_id distinct_append map_append set_map)
  have "filter (\<lambda>x. f x \<notin> f ` set (take b xs)) (take b xs) = []" by (simp add: filter_empty_conv)
  moreover have "filter (\<lambda>x. f x \<notin> f ` set (take b xs)) (drop b xs) = drop b xs"
    using d by (intro filter_True) blast
  ultimately show ?thesis by (metis append_Nil append_take_drop_id filter_append)
qed

lemma pending_keys:
  assumes "law_keys rows"
  shows "distinct (map tr_id (pending (rows d)))" "r \<in> set (pending (rows d)) \<Longrightarrow> 0 < tr_id r"
  using assms by (auto simp: law_keys_def pending_def strict_sorted_iff intro: distinct_map_filter)

lemma fetch_healthy:
  assumes laws: "sqlite_laws (env_sqlite w) rows" and healthy: "sqlite_healthy (env_sqlite w) rows" and "sqlite_on c" "0 < k"
    and call: "storage_fetch_pending_telemetry (Some c) True k w = (frc, out, cnt, w')"
  shows "out = map restored (take k (pending (rows (env_db w))))" "0 \<le> frc" "cnt = length out"
proof -
  obtain w1 where p: "db_prepare SQL_SELECT_PENDING w = (True, w1)"
    using healthy by (auto simp: db_prepare_def sqlite_healthy_def split_beta)
  obtain rs w2 where q: "db_rows SQL_SELECT_PENDING [SQL_INT (int k)] w1 = (rs, w2)" by (metis prod.exhaust)
  obtain d d' where d: "rows d = rows (env_db w)" "w2 = w\<lparr>env_db := d'\<rparr>"
    "sq_rows (env_sqlite w) d SQL_SELECT_PENDING [SQL_INT (int k)] = (rs, d')"
    using db_rows_law [OF sqlite_lawsD(3) [OF laws] refl p q] by blast
  have "fst (sq_rows (env_sqlite w) d SQL_SELECT_PENDING [SQL_INT (int k)]) = map row_columns (take k (pending (rows d)))"
    using healthy unfolding sqlite_healthy_def by blast
  then have "rs = map row_columns (take k (pending (rows (env_db w))))" using d by simp
  then show "out = map restored (take k (pending (rows (env_db w))))" "0 \<le> frc" "cnt = length out"
    using call assms(3,4) p q d(2) row_of_columns_restored [OF sqlite_lawsD(1) [OF laws]]
    by (auto simp: storage_fetch_pending_telemetry_def Let_def)
qed

lemma replay_healthy:
  assumes laws: "sqlite_laws (env_sqlite w) rows" and healthy: "sqlite_healthy (env_sqlite w) rows" and on: "sqlite_on c"
    and "usable s" "writes_progress w" "fits 128 (cfg_mqtt_topic (ms_cfg s))"
  shows "\<exists>n m' w'. mqtt_session_replay_pending (Some s) (Some c) m w = Some (n, Some s, m', w') \<and>
    env_ret w' = env_ret w \<and> env_sqlite w' = env_sqlite w \<and>
    pending (rows (env_db w')) = drop (replay_batch (cfg_mqtt_replay_batch (ms_cfg s))) (pending (rows (env_db w)))"
proof -
  let ?b = "replay_batch (cfg_mqtt_replay_batch (ms_cfg s))"
  have b: "0 < ?b" by (auto simp: replay_batch_def Let_def unat_gt_0)
  let ?p = "take ?b (pending (rows (env_db w)))"
  obtain frc out cnt w1 where f: "storage_fetch_pending_telemetry (Some c) True ?b w = (frc, out, cnt, w1)"
    by (metis prod_cases4)
  obtain d1 where w1: "w1 = w\<lparr>env_db := d1\<rparr>" using fetch_only [of "Some c" True ?b w] f by auto
  have rw1: "rows d1 = rows (env_db w)" using fetch_pending_oldest_rows [OF laws on b f] w1 by auto
  have out: "out = map restored ?p" "0 \<le> frc" "cnt = length out"
    using fetch_healthy [OF laws healthy on b f] by auto
  have e: "mqtt_ensure_connected_locked s w1 = Some (0, s, w1)"
    using assms(4) by (simp add: mqtt_ensure_connected_locked_def usable_def)
  have pos: "list_all (\<lambda>r. 0 < sr_row_id r) out"
    using pending_keys(2) [OF sqlite_lawsD(2) [OF laws]] by (auto simp: out(1) list_all_iff restored_def dest: in_set_takeD)
  obtain m1 w3 where l: "replay_rows (Some c) out 0 m s w1 = Some (int (length out), m1, s, w3)"
    "env_ret w3 = env_ret w" "env_sqlite w3 = env_sqlite w" "rows (env_db w3) = mark_rows (sr_row_id ` set out) (rows (env_db w))"
    using replay_rows_healthy [of w1 rows c s out 0 m] assms pos on w1 rw1 by (auto simp: sqlite_on_def writes_progress_def)
  obtain x w4 where c4: "storage_pending_telemetry_count (Some c) w3 = (x, w4)" by (metis prod.exhaust)
  obtain d4 where d4: "w4 = w3\<lparr>env_db := d4\<rparr>" "rows d4 = rows (env_db w3)"
    using pending_count_rows [of w3 rows "Some c" x w4] c4 laws l(3) by auto
  have "sr_row_id ` set out = tr_id ` set ?p" by (auto simp: out(1) restored_def image_image)
  then have p: "pending (rows (env_db w3)) = drop ?b (pending (rows (env_db w)))"
    using l(4) filter_not_taken [OF pending_keys(1) [OF sqlite_lawsD(2) [OF laws]]] by (simp add: pending_mark_rows)
  have "mqtt_session_replay_pending (Some s) (Some c) m w =
      (case m1 of None \<Rightarrow> Some (int (length out), Some s, None, w3)
       | Some g \<Rightarrow> Some (int (length out), Some s, Some (g\<lparr>gm_storage_pending_count := ucast x\<rparr>), w4))"
    using f e l(1) c4 out(2,3) by (simp add: mqtt_session_replay_pending_def split: option.split)
  then show ?thesis using l(2,3) d4 p by (cases m1) auto
qed

fun replay_times ::
    "nat \<Rightarrow> storage_ctx_t \<Rightarrow> mqtt_session_t option \<Rightarrow> gateway_metrics_t option \<Rightarrow> 'd env \<Rightarrow>
     (mqtt_session_t option \<times> gateway_metrics_t option \<times> 'd env) option" where
  "replay_times 0 c s m w = Some (s, m, w)"
| "replay_times (Suc k) c s m w =
     Option.bind (mqtt_session_replay_pending s (Some c) m w) (\<lambda>(_, s1, m1, w1). replay_times k c s1 m1 w1)"

lemma replay_times_drop:
  assumes "sqlite_laws (env_sqlite w) rows" "sqlite_healthy (env_sqlite w) rows" "sqlite_on c"
    "usable s" "writes_progress w" "fits 128 (cfg_mqtt_topic (ms_cfg s))"
  shows "\<exists>m' w'. replay_times k c (Some s) m w = Some (Some s, m', w') \<and>
    pending (rows (env_db w')) = drop (k * replay_batch (cfg_mqtt_replay_batch (ms_cfg s))) (pending (rows (env_db w)))"
  using assms
proof (induction k arbitrary: m w)
  case (Suc k)
  let ?b = "replay_batch (cfg_mqtt_replay_batch (ms_cfg s))"
  obtain n m1 w1 where r: "mqtt_session_replay_pending (Some s) (Some c) m w = Some (n, Some s, m1, w1)"
    "env_ret w1 = env_ret w" "env_sqlite w1 = env_sqlite w" "pending (rows (env_db w1)) = drop ?b (pending (rows (env_db w)))"
    using replay_healthy [OF Suc.prems] by blast
  then obtain m' w' where "replay_times k c (Some s) m1 w1 = Some (Some s, m', w')"
    "pending (rows (env_db w')) = drop (k * ?b) (pending (rows (env_db w1)))"
    using Suc.IH [of w1 m1] Suc.prems by (auto simp: writes_progress_def)
  then show ?case using r by (auto simp: add.commute)
qed simp

text \<open>
  C12. Replay makes progress: on a connected session, when every write accepts at least one byte and
  SQLite meets no error, repeated replays return and each takes a full batch of the oldest rows
  out of the pending list, so after as many replays as there were rows the list is empty.
\<close>

theorem replay_drains:
  assumes "sqlite_laws (env_sqlite w) rows" "sqlite_healthy (env_sqlite w) rows" "sqlite_on c"
    "ms_connected s" "0 \<le> ms_fd s" "\<forall>k. 0 < env_ret w k" "config_wf (ms_cfg s)"
  shows "\<exists>m' w'. replay_times k c (Some s) m w = Some (Some s, m', w') \<and>
    pending (rows (env_db w')) = drop (k * replay_batch (cfg_mqtt_replay_batch (ms_cfg s))) (pending (rows (env_db w))) \<and>
    (length (pending (rows (env_db w))) \<le> k \<longrightarrow> pending (rows (env_db w')) = [])"
proof -
  let ?b = "replay_batch (cfg_mqtt_replay_batch (ms_cfg s))"
  have "0 < ?b" by (auto simp: replay_batch_def Let_def unat_gt_0)
  then have "k \<le> k * ?b" by simp
  moreover obtain m' w' where "replay_times k c (Some s) m w = Some (Some s, m', w')"
    "pending (rows (env_db w')) = drop (k * ?b) (pending (rows (env_db w)))"
    using replay_times_drop [of w rows c s k m] assms by (auto simp: usable_def writes_progress_def config_wf_def)
  ultimately show ?thesis using drop_all [of "pending (rows (env_db w))" "k * ?b"] by (metis le_trans)
qed

definition demo_replay_session :: mqtt_session_t where
  "demo_replay_session = \<lparr>ms_cfg = gateway_config_defaults, ms_fd = 5, ms_connected = True\<rparr>"

definition demo_backlog :: "mem_db env" where
  "demo_backlog = demo_storage_env\<lparr>env_db := [(5, ''bms_001'', ''max_cell_temp_c'', Fin 60, ''C'', ''bad'', False)]\<rparr>"

lemma demo_backlog [simp]:
  "env_sqlite demo_backlog = mem_api" "env_ret demo_backlog = (\<lambda>_. 1)"
  "pending (mem_rows (env_db demo_backlog)) = [stored_row 1 demo_bad_point]"
  by (simp_all add: demo_backlog_def demo_storage_env_def pending_def mem_rows_def stored_row_def demo_bad_point_def)

theorem replay_drains_witness:
  "\<exists>m' w'. replay_times 1 demo_ctx (Some demo_replay_session) None demo_backlog = Some (Some demo_replay_session, m', w') \<and>
     pending (mem_rows (env_db w')) = []"
  using replay_drains [of demo_backlog mem_rows demo_ctx demo_replay_session 1 None] mem_laws mem_healthy
  by (auto simp: demo_replay_session_def)

theorem replay_marks_sent_witness:
  "\<exists>n s' m' w'. mqtt_session_replay_pending (Some demo_replay_session) (Some demo_ctx) None demo_backlog = Some (n, s', m', w') \<and>
     (\<exists>marked. subseq marked [stored_row 1 demo_bad_point] \<and> n = int (length marked) \<and>
        pending (mem_rows (env_db w')) = filter (\<lambda>r. tr_id r \<notin> tr_id ` set marked) [stored_row 1 demo_bad_point])"
proof -
  have on: "sqlite_on demo_ctx" by simp
  obtain n m' w' where r: "mqtt_session_replay_pending (Some demo_replay_session) (Some demo_ctx) None demo_backlog =
      Some (n, Some demo_replay_session, m', w')"
    using replay_healthy [of demo_backlog mem_rows demo_ctx demo_replay_session None] mem_laws mem_healthy config_defaults_wf
    by (auto simp: demo_replay_session_def usable_def writes_progress_def config_wf_def)
  have laws: "sqlite_laws (env_sqlite demo_backlog) mem_rows" using mem_laws by simp
  obtain j marked where "subseq marked (take j (pending (mem_rows (env_db demo_backlog))))" "n = int (length marked)"
    "pending (mem_rows (env_db w')) = filter (\<lambda>r. tr_id r \<notin> tr_id ` set marked) (pending (mem_rows (env_db demo_backlog)))"
    using replay_marks_sent [OF laws on r] by blast
  moreover have "subseq (take j (pending (mem_rows (env_db demo_backlog)))) (pending (mem_rows (env_db demo_backlog)))"
    by (rule prefix_imp_subseq [OF take_is_prefix])
  ultimately show ?thesis using r by (metis (no_types, lifting) demo_backlog(3) subseq_order.trans)
qed

subsection \<open>Packets fit their buffers\<close>

lemma length_zero_pad: "length (zero_pad n s) = max n (length s)"
  by (simp add: zero_pad_def)

lemma nul_notin_zero_pad: "nul \<notin> set s \<Longrightarrow> nul \<notin> set (zero_pad n s)"
  by (auto simp: zero_pad_def nul_def)

lemma length_show_fixed_abs:
  assumes "0 \<le> r" "r < 10 ^ k"
  shows "length (show_fixed_abs 4 r) \<le> k + 6"
proof -
  let ?m = "nat (rne (r * 10 ^ 4))"
  have "of_int (rne (r * 10 ^ 4)) \<le> r * 10 ^ 4 + 1" using rne_error [of "r * 10 ^ 4"] by linarith
  then have "of_int (rne (r * 10 ^ 4)) < (of_int (10 ^ (k + 4) + 1) :: rat)" using assms by (simp add: power_add)
  then have "rne (r * 10 ^ 4) \<le> 10 ^ (k + 4)" by linarith
  then have "int ?m \<le> int (10 ^ (k + 4))" by simp
  then have "?m \<le> 10 ^ k * 10 ^ 4" by (simp only: of_nat_le_iff power_add)
  then have "?m div 10 ^ 4 \<le> 10 ^ k" by (metis div_le_mono div_mult_self_is_m zero_less_power zero_less_numeral)
  also have "\<dots> < 10 ^ (k + 1)" by simp
  finally have "length (show_nat (?m div 10 ^ 4)) \<le> k + 1" by (intro length_show_nat) auto
  moreover have "length (show_nat (?m mod 10 ^ 4)) \<le> 4" by (rule length_show_nat) simp_all
  ultimately show ?thesis by (simp add: show_fixed_abs_def Let_def length_zero_pad)
qed

lemma length_show_fixed:
  assumes "is_finite d" "\<bar>dval d\<bar> < 10 ^ k"
  shows "length (show_fixed 4 d) \<le> k + 7"
  using length_show_fixed_abs [OF _ assms(2)] assms(1) by (simp add: show_fixed_def)

lemma nul_notin_show_fixed: "nul \<notin> set (show_fixed n d)"
  by (auto simp: show_fixed_def show_fixed_abs_def Let_def nul_def [symmetric] dest: nul_notin_zero_pad [THEN notE, rotated])
    (auto simp: nul_def)

lemma length_quality: "length (telemetry_quality_to_string q) \<le> 9" and nul_notin_quality: "nul \<notin> set (telemetry_quality_to_string q)"
  by (cases q; simp add: nul_def)+

lemma telemetry_json_fits:
  assumes "telemetry_wf p" "is_finite (tl_value p)" "\<bar>dval (tl_value p)\<bar> < 10 ^ 130"
  shows "fits 384 (telemetry_json p)"
proof -
  have "length (show_word (tl_ts_ms p)) \<le> 20"
    unfolding show_word_def by (rule length_show_nat) (use unsigned_less [of "tl_ts_ms p", where ?'a = nat] in simp_all)
  then have "length (telemetry_json p) < 384"
    using assms(1) length_show_fixed [OF assms(2,3)] length_quality [of "tl_quality p"]
    by (simp add: telemetry_json_def telemetry_wf_def fits_def)
  moreover have "nul \<notin> set (telemetry_json p)"
    using assms(1) nul_notin_show_fixed nul_notin_quality
    by (simp add: telemetry_json_def telemetry_wf_def fits_def show_word_def) (simp add: nul_def)
  ultimately show ?thesis by (simp add: fits_def)
qed



end
