(* ===== verification/State_Engine.thy ===== *)
theory State_Engine
  imports Gateway_Config
begin

text \<open>
  The state and alarm engine, \<^verbatim>\<open>src/src/runtime/state_engine.{h,c}\<close>: it folds each
  telemetry record into a snapshot of the plant, raises the over-temperature and
  low-charge alarms, and turns an import above the peak-shaving threshold into a
  discharge set point.

  \<open>state_engine_process_telemetry\<close> is the whole handler, every early return included;
  the alarm and command out-parameters are options, since a NULL alarm pointer changes the
  control flow. The lemmas characterise when a command is issued and how large it is, what
  an over-temperature snapshot does, and how alarm identifiers are given out.
\<close>

record state_engine_t =
  se_state :: system_state_t
  se_soc_percent :: double
  se_max_cell_temp_c :: double
  se_grid_power_kw :: double
  se_next_alarm_id :: u64

definition state_engine_init :: "state_engine_t option \<Rightarrow> state_engine_t option" where
  "state_engine_init engine =
     (case engine of
        None \<Rightarrow> None
      | Some _ \<Rightarrow> Some \<lparr>se_state = SYSTEM_STATE_INIT, se_soc_percent = Fin 80,
          se_max_cell_temp_c = Fin 0, se_grid_power_kw = Fin 0, se_next_alarm_id = 1\<rparr>)"

definition update_snapshot :: "state_engine_t \<Rightarrow> telemetry_t \<Rightarrow> bool \<times> state_engine_t" where
  "update_snapshot engine telemetry =
     (if tl_point_id telemetry = ''soc_percent''
      then (True, engine\<lparr>se_soc_percent := tl_value telemetry\<rparr>)
      else if tl_point_id telemetry = ''max_cell_temp_c''
      then (True, engine\<lparr>se_max_cell_temp_c := tl_value telemetry\<rparr>)
      else if tl_point_id telemetry = ''grid_power_kw''
      then (True, engine\<lparr>se_grid_power_kw := tl_value telemetry\<rparr>)
      else (False, engine))"

definition clamp_discharge :: "double \<Rightarrow> double \<Rightarrow> double" where
  "clamp_discharge kw max_kw =
     (if dlt kw (Fin 0) then Fin 0 else if dlt max_kw kw then max_kw else kw)"

definition state_engine_process_telemetry ::
  "state_engine_t option \<Rightarrow> gateway_config_t option \<Rightarrow> telemetry_t option \<Rightarrow> alarm_event_t option \<Rightarrow>
   command_t option \<Rightarrow> u64 \<Rightarrow> u64 \<Rightarrow>
   bool \<times> state_engine_t option \<times> alarm_event_t option \<times> command_t option" where
  "state_engine_process_telemetry engine cfg telemetry alarm command command_id ts_ms =
     (case (engine, cfg, telemetry) of
        (Some e0, Some c, Some t) \<Rightarrow>
          if tl_quality t \<noteq> TELEMETRY_QUALITY_GOOD then (False, engine, alarm, command)
          else
            let e1 = snd (update_snapshot e0 t);
                hot = dlt (cfg_temp_high c) (se_max_cell_temp_c e1);
                e2 = (if hot then e1\<lparr>se_state := SYSTEM_STATE_FAULT\<rparr> else e1);
                low = dle (se_soc_percent e2) (cfg_min_discharge_soc c)
            in if hot \<and> alarm \<noteq> None then
                 (True, Some (e2\<lparr>se_next_alarm_id := se_next_alarm_id e2 + 1\<rparr>),
                  snd (alarm_make alarm (se_next_alarm_id e2) ts_ms (Some ''bms_001'') (Some ''BMS_TEMP_HIGH'')
                    ALARM_LEVEL_MAJOR (Some ''max cell temperature exceeds limit'')), command)
               else if low \<and> alarm \<noteq> None \<and> tl_point_id t = ''soc_percent'' then
                 (True, Some (e2\<lparr>se_next_alarm_id := se_next_alarm_id e2 + 1\<rparr>),
                  snd (alarm_make alarm (se_next_alarm_id e2) ts_ms (Some ''bms_001'') (Some ''BMS_SOC_LOW'')
                    ALARM_LEVEL_MAJOR (Some ''SOC below minimum discharge threshold'')), command)
               else
                 let e3 = e2\<lparr>se_state := SYSTEM_STATE_RUNNING\<rparr>
                 in if tl_point_id t \<noteq> ''grid_power_kw'' then (False, Some e3, alarm, command)
                    else if dle (se_soc_percent e3) (cfg_min_discharge_soc c) then
                      (False, Some e3, alarm, command)
                    else if dle (se_grid_power_kw e3) (cfg_peak_shaving_threshold_kw c) then
                      (False, Some e3, alarm, command)
                    else
                      let discharge_kw = clamp_discharge
                            (dsub (se_grid_power_kw e3) (cfg_peak_shaving_threshold_kw c))
                            (cfg_max_discharge_kw c)
                      in if command = None \<or> dle discharge_kw (Fin 0) then (False, Some e3, alarm, command)
                         else
                           (case command_init_setpoint command command_id ts_ms (Some ''pcs_001'')
                                   (Some ''target_power_kw'') (dneg discharge_kw) 3 of
                              (rc, command') \<Rightarrow>
                                if rc \<noteq> 0 then (False, Some e3, alarm, command')
                                else (True, Some e3, alarm, command'))
      | _ \<Rightarrow> (False, engine, alarm, command))"

subsection \<open>The call as the worker makes it\<close>

text \<open>All pointers non-NULL, alarm and command cleared beforehand.\<close>

definition se_step :: "gateway_config_t \<Rightarrow> state_engine_t \<Rightarrow> telemetry_t \<Rightarrow> u64 \<Rightarrow> u64 \<Rightarrow>
    bool \<times> state_engine_t \<times> alarm_event_t \<times> command_t" where
  "se_step c e t command_id ts_ms =
     (case state_engine_process_telemetry (Some e) (Some c) (Some t) (Some alarm_zero)
             (Some command_zero) command_id ts_ms of
        (b, e', a, cmd) \<Rightarrow> (b, the e', the a, the cmd))"

definition discharge_set_point :: "u64 \<Rightarrow> u64 \<Rightarrow> double \<Rightarrow> command_t" where
  "discharge_set_point command_id ts_ms kw =
     command_zero\<lparr>cmd_command_id := command_id, cmd_created_ts_ms := ts_ms,
       cmd_target_device_id := ''pcs_001'', cmd_type := COMMAND_TYPE_SET_POINT_VALUE,
       cmd_state := COMMAND_STATE_PENDING, cmd_point_id := ''target_power_kw'',
       cmd_target_value := dneg kw, cmd_max_retries := 3\<rparr>"

definition engine_alarm :: "u64 \<Rightarrow> u64 \<Rightarrow> string \<Rightarrow> string \<Rightarrow> alarm_event_t" where
  "engine_alarm i ts_ms code msg =
     alarm_zero\<lparr>al_alarm_id := i, al_ts_ms := ts_ms, al_device_id := ''bms_001'', al_code := code,
       al_level := ALARM_LEVEL_MAJOR, al_state := ALARM_STATE_ACTIVE, al_message := msg\<rparr>"

lemma fits_literals:
  "fits 64 ''bms_001''" "fits 64 ''BMS_TEMP_HIGH''" "fits 64 ''BMS_SOC_LOW''"
  "fits 64 ''pcs_001''" "fits 64 ''target_power_kw''"
  "fits 128 ''max cell temperature exceeds limit''"
  "fits 128 ''SOC below minimum discharge threshold''"
  by (simp_all add: fits_def nul_def)

lemma se_setpoint:
  "command_init_setpoint (Some command_zero) i ts (Some ''pcs_001'') (Some ''target_power_kw'') v 3 =
     (0, Some (discharge_set_point i ts (dneg v)))"
  by (cases v) (auto simp: command_init_setpoint_def discharge_set_point_def fits_literals)

lemma dneg_dneg [simp]: "dneg (dneg v) = v"
  by (cases v) auto

lemma se_alarms:
  "snd (alarm_make (Some alarm_zero) i ts (Some ''bms_001'') (Some ''BMS_TEMP_HIGH'')
     ALARM_LEVEL_MAJOR (Some ''max cell temperature exceeds limit'')) =
   Some (engine_alarm i ts ''BMS_TEMP_HIGH'' ''max cell temperature exceeds limit'')"
  "snd (alarm_make (Some alarm_zero) i ts (Some ''bms_001'') (Some ''BMS_SOC_LOW'')
     ALARM_LEVEL_MAJOR (Some ''SOC below minimum discharge threshold'')) =
   Some (engine_alarm i ts ''BMS_SOC_LOW'' ''SOC below minimum discharge threshold'')"
  by (simp_all add: alarm_make_def engine_alarm_def fits_literals)

text \<open>The handler as a decision table.\<close>

lemma se_step_cases:
  fixes c e t i ts
  defines "e1 \<equiv> snd (update_snapshot e t)"
  defines "kw \<equiv> clamp_discharge (dsub (se_grid_power_kw e1) (cfg_peak_shaving_threshold_kw c)) (cfg_max_discharge_kw c)"
  shows "se_step c e t i ts =
    (if tl_quality t \<noteq> TELEMETRY_QUALITY_GOOD then (False, e, alarm_zero, command_zero)
     else if dlt (cfg_temp_high c) (se_max_cell_temp_c e1) then
       (True, e1\<lparr>se_state := SYSTEM_STATE_FAULT, se_next_alarm_id := se_next_alarm_id e1 + 1\<rparr>,
        engine_alarm (se_next_alarm_id e1) ts ''BMS_TEMP_HIGH'' ''max cell temperature exceeds limit'',
        command_zero)
     else if dle (se_soc_percent e1) (cfg_min_discharge_soc c) \<and> tl_point_id t = ''soc_percent'' then
       (True, e1\<lparr>se_next_alarm_id := se_next_alarm_id e1 + 1\<rparr>,
        engine_alarm (se_next_alarm_id e1) ts ''BMS_SOC_LOW'' ''SOC below minimum discharge threshold'',
        command_zero)
     else if tl_point_id t = ''grid_power_kw'' \<and> \<not> dle (se_soc_percent e1) (cfg_min_discharge_soc c) \<and>
         \<not> dle (se_grid_power_kw e1) (cfg_peak_shaving_threshold_kw c) \<and> \<not> dle kw (Fin 0) then
       (True, e1\<lparr>se_state := SYSTEM_STATE_RUNNING\<rparr>, alarm_zero, discharge_set_point i ts kw)
     else (False, e1\<lparr>se_state := SYSTEM_STATE_RUNNING\<rparr>, alarm_zero, command_zero))"
  unfolding se_step_def state_engine_process_telemetry_def e1_def kw_def
  by (simp add: Let_def se_setpoint se_alarms)

subsection \<open>Peak shaving\<close>

lemma update_snapshot_frame [frame_simps]:
  "se_next_alarm_id (snd (update_snapshot e t)) = se_next_alarm_id e"
  "se_state (snd (update_snapshot e t)) = se_state e"
  "tl_point_id t \<noteq> ''max_cell_temp_c'' \<Longrightarrow> se_max_cell_temp_c (snd (update_snapshot e t)) = se_max_cell_temp_c e"
  "tl_point_id t \<noteq> ''soc_percent'' \<Longrightarrow> se_soc_percent (snd (update_snapshot e t)) = se_soc_percent e"
  by (simp_all add: update_snapshot_def)

lemma update_snapshot_grid:
  "tl_point_id t = ''grid_power_kw'' \<Longrightarrow>
   snd (update_snapshot e t) = e\<lparr>se_grid_power_kw := tl_value t\<rparr>"
  by (simp add: update_snapshot_def)

lemma clamp_discharge_pos:
  assumes "dlt (Fin 0) kw" and "dlt (Fin 0) max_kw"
  shows "clamp_discharge kw max_kw = (if dlt max_kw kw then max_kw else kw)"
    and "dlt (Fin 0) (clamp_discharge kw max_kw)" and "dle (clamp_discharge kw max_kw) max_kw"
  using assms not_dlt [of max_kw kw] by (auto simp: clamp_discharge_def dlt_def dle_def)

text \<open>
  C7. Peak shaving. For a good grid import reading, with a snapshot that is not over
  temperature and limits that are numbers, the engine issues a command exactly when the
  state of charge is above the discharge minimum and the import is above the threshold. The
  command is then a set point for \<open>pcs_001\<close> whose magnitude is the excess over the
  threshold, cut at the maximum discharge power, and is strictly positive and at most
  that maximum; in every other case the command record stays cleared.
\<close>

theorem peak_shaving_command_iff:
  assumes quality: "tl_quality t = TELEMETRY_QUALITY_GOOD" "tl_point_id t = ''grid_power_kw''"
    and num: "tl_value t \<noteq> NaN" "se_soc_percent e \<noteq> NaN" "cfg_min_discharge_soc c \<noteq> NaN"
      "cfg_peak_shaving_threshold_kw c \<noteq> NaN"
    and wf: "wf_double (tl_value t)" "wf_double (cfg_peak_shaving_threshold_kw c)"
    and pos: "dlt (Fin 0) (cfg_max_discharge_kw c)"
    and cool: "\<not> dlt (cfg_temp_high c) (se_max_cell_temp_c e)"
  shows "let excess = dsub (tl_value t) (cfg_peak_shaving_threshold_kw c);
             kw = (if dlt (cfg_max_discharge_kw c) excess then cfg_max_discharge_kw c else excess);
             discharge = (dlt (cfg_min_discharge_soc c) (se_soc_percent e) \<and>
               dlt (cfg_peak_shaving_threshold_kw c) (tl_value t))
         in snd (snd (snd (se_step c e t i ts))) =
              (if discharge then discharge_set_point i ts kw else command_zero) \<and>
            fst (se_step c e t i ts) = discharge \<and>
            (discharge \<longrightarrow> dlt (Fin 0) kw \<and> dle kw (cfg_max_discharge_kw c))"
proof (cases "dlt (cfg_min_discharge_soc c) (se_soc_percent e) \<and>
    dlt (cfg_peak_shaving_threshold_kw c) (tl_value t)")
  case True
  note ex = dsub_pos [OF wf conjunct2 [OF True]]
  note cl = clamp_discharge_pos [OF ex pos]
  have "\<not> dle (clamp_discharge (dsub (tl_value t) (cfg_peak_shaving_threshold_kw c))
      (cfg_max_discharge_kw c)) (Fin 0)"
    using cl(2) by (auto simp: dlt_def dle_def)
  with True show ?thesis
    using cl quality cool num
    by (simp add: se_step_cases update_snapshot_grid not_dle Let_def)
next
  case False
  then show ?thesis using quality cool num
    by (auto simp: se_step_cases update_snapshot_grid not_dle Let_def)
qed

definition demo_grid :: "double \<Rightarrow> telemetry_t" where
  "demo_grid v = telemetry_zero\<lparr>tl_device_id := ''meter_001'', tl_point_id := ''grid_power_kw'',
     tl_value := v, tl_quality := TELEMETRY_QUALITY_GOOD\<rparr>"

definition demo_temp :: "double \<Rightarrow> telemetry_t" where
  "demo_temp v = telemetry_zero\<lparr>tl_device_id := ''bms_001'', tl_point_id := ''max_cell_temp_c'',
     tl_value := v, tl_quality := TELEMETRY_QUALITY_GOOD\<rparr>"

definition demo_engine :: state_engine_t where
  "demo_engine = the (state_engine_init (Some \<lparr>se_state = SYSTEM_STATE_INIT, se_soc_percent = NaN,
     se_max_cell_temp_c = NaN, se_grid_power_kw = NaN, se_next_alarm_id = 0\<rparr>))"

lemma config_defaults_limits [simp]:
  "cfg_temp_high gateway_config_defaults = Fin 55"
  "cfg_peak_shaving_threshold_kw gateway_config_defaults = Fin 100"
  "cfg_max_discharge_kw gateway_config_defaults = Fin 30"
  "cfg_min_discharge_soc gateway_config_defaults = Fin 20"
  by (simp_all add: gateway_config_defaults_def)

lemma wf_double_100_110: "wf_double (Fin 100)" "wf_double (Fin 110)"
  by (simp_all add: wf_double_def round_eval)

theorem peak_shaving_command_iff_witness:
  "snd (snd (snd (se_step gateway_config_defaults demo_engine (demo_grid (Fin 110)) 7 1000))) =
     discharge_set_point 7 1000 (Fin 10)"
  using peak_shaving_command_iff [of "demo_grid (Fin 110)" demo_engine gateway_config_defaults 7 1000]
  by (simp add: demo_grid_def demo_engine_def state_engine_init_def wf_double_100_110
      dlt_def dsub_def dadd_def round_eval)

subsection \<open>Sequences of records\<close>

text \<open>The engine fed with records one after the other, with the outputs of each call.\<close>

fun se_run :: "gateway_config_t \<Rightarrow> state_engine_t \<Rightarrow> (telemetry_t \<times> u64 \<times> u64) list \<Rightarrow>
    state_engine_t \<times> (bool \<times> alarm_event_t \<times> command_t) list" where
  "se_run c e [] = (e, [])"
| "se_run c e ((t, i, ts) # rest) =
     (case se_step c e t i ts of
        (b, e', a, cmd) \<Rightarrow> (case se_run c e' rest of (e'', outs) \<Rightarrow> (e'', (b, a, cmd) # outs)))"

definition over_temperature :: "gateway_config_t \<Rightarrow> state_engine_t \<Rightarrow> bool" where
  "over_temperature c e = dlt (cfg_temp_high c) (se_max_cell_temp_c e)"

lemma over_temperature_step:
  assumes "over_temperature c e" and "tl_point_id t \<noteq> ''max_cell_temp_c''"
    and "se_step c e t i ts = (b, e', a, cmd)"
  shows "over_temperature c e'" and "cmd = command_zero"
    and "tl_quality t = TELEMETRY_QUALITY_GOOD \<Longrightarrow>
      b \<and> se_state e' = SYSTEM_STATE_FAULT \<and> al_code a = ''BMS_TEMP_HIGH'' \<and> al_state a = ALARM_STATE_ACTIVE"
  using assms by (auto simp: se_step_cases over_temperature_def frame_simps engine_alarm_def split: if_splits)

lemma over_temperature_run:
  "over_temperature c e \<Longrightarrow> \<forall>(t, i, ts) \<in> set rs. tl_point_id t \<noteq> ''max_cell_temp_c'' \<Longrightarrow>
   over_temperature c (fst (se_run c e rs)) \<and> (\<forall>(b, a, cmd) \<in> set (snd (se_run c e rs)). cmd = command_zero)"
proof (induction c e rs rule: se_run.induct)
  case (2 c e t i ts rest)
  obtain b e' a cmd where st: "se_step c e t i ts = (b, e', a, cmd)" by (metis prod.exhaust)
  note o = over_temperature_step [OF "2.prems"(1) _ st]
  show ?case
    using "2.IH" [OF st [symmetric] refl refl] "2.prems" o st by (auto split: prod.splits)
qed simp

text \<open>
  C14. Over-temperature interlock. Once the snapshot is above the temperature limit, no
  sequence of records of other points, of any quality and value, makes the engine issue a
  command, and a good record at the end of it raises an active \<open>BMS_TEMP_HIGH\<close> alarm and
  puts the engine in \<open>FAULT\<close>: only a new temperature reading can end the interlock.
\<close>

theorem over_temperature_interlock:
  assumes "over_temperature c e"
    and "\<forall>(t, i, ts) \<in> set rs. tl_point_id t \<noteq> ''max_cell_temp_c''"
    and "tl_point_id t \<noteq> ''max_cell_temp_c''" and "tl_quality t = TELEMETRY_QUALITY_GOOD"
  shows "(\<forall>(b, a, cmd) \<in> set (snd (se_run c e rs)). cmd = command_zero) \<and>
    (case se_step c (fst (se_run c e rs)) t i ts of (b, e', a, cmd) \<Rightarrow>
       b \<and> cmd = command_zero \<and> se_state e' = SYSTEM_STATE_FAULT \<and>
       al_code a = ''BMS_TEMP_HIGH'' \<and> al_state a = ALARM_STATE_ACTIVE)"
proof -
  note run = over_temperature_run [OF assms(1,2)]
  obtain b e' a cmd where st: "se_step c (fst (se_run c e rs)) t i ts = (b, e', a, cmd)"
    by (metis prod.exhaust)
  show ?thesis
    using run over_temperature_step [OF conjunct1 [OF run] assms(3) st] assms(4) st by simp
qed

theorem over_temperature_interlock_witness:
  "al_code (fst (snd (snd (se_step gateway_config_defaults
      (fst (se_run gateway_config_defaults (demo_engine\<lparr>se_max_cell_temp_c := Fin 60\<rparr>)
         [(demo_grid (Fin 110), 1, 5)])) (demo_grid (Fin 120)) 2 6)))) = ''BMS_TEMP_HIGH''"
  using over_temperature_interlock [of gateway_config_defaults "demo_engine\<lparr>se_max_cell_temp_c := Fin 60\<rparr>"
      "[(demo_grid (Fin 110), 1, 5)]" "demo_grid (Fin 120)" 2 6]
  by (auto simp: over_temperature_def demo_grid_def demo_engine_def state_engine_init_def dlt_def
      split: prod.splits)

text \<open>
  A NaN import is not filtered: both limit comparisons of the source are false on a NaN
  operand, so a good grid reading that is NaN, on a charged plant that is not over
  temperature, is turned into a pending set point command whose target value is NaN.
\<close>

theorem nan_import_issues_nan_command:
  assumes "tl_quality t = TELEMETRY_QUALITY_GOOD" "tl_point_id t = ''grid_power_kw''"
    and "tl_value t = NaN" and "dlt (cfg_min_discharge_soc c) (se_soc_percent e)"
    and "\<not> dlt (cfg_temp_high c) (se_max_cell_temp_c e)"
  shows "fst (se_step c e t i ts) \<and> snd (snd (snd (se_step c e t i ts))) = discharge_set_point i ts NaN"
proof -
  have "\<not> dle (se_soc_percent e) (cfg_min_discharge_soc c)"
    using assms(4) by (simp add: not_dle dlt_not_NaN)
  then show ?thesis using assms
    by (simp add: se_step_cases update_snapshot_grid clamp_discharge_def dsub_def dadd_def)
qed

subsection \<open>Alarm identifiers\<close>

text \<open>The identifiers of the alarms actually made: a made alarm has a code, the cleared record none.\<close>

definition raised_ids :: "(bool \<times> alarm_event_t \<times> command_t) list \<Rightarrow> u64 list" where
  "raised_ids outs = [al_alarm_id a. (b, a, cmd) \<leftarrow> outs, al_code a \<noteq> '''']"

lemma se_step_alarm_id:
  assumes "se_step c e t i ts = (b, e', a, cmd)"
  shows "al_code a \<noteq> '''' \<and> al_alarm_id a = se_next_alarm_id e \<and>
      se_next_alarm_id e' = se_next_alarm_id e + 1 \<and> b \<and> cmd = command_zero \<or>
    a = alarm_zero \<and> se_next_alarm_id e' = se_next_alarm_id e"
  using assms by (auto simp: se_step_cases frame_simps engine_alarm_def split: if_splits)

lemma raised_ids_simps [simp]:
  "raised_ids [] = []"
  "raised_ids ((b, a, cmd) # outs) =
     (if al_code a \<noteq> '''' then [al_alarm_id a] else []) @ raised_ids outs"
  by (simp_all add: raised_ids_def)

text \<open>
  Alarm identifiers: over any sequence of records the raised alarms carry consecutive
  identifiers, starting with the engine's counter, which ends just past the last one given
  out (all modulo the 64-bit width).
\<close>

theorem alarm_ids_consecutive:
  "raised_ids (snd (se_run c e rs)) =
     map (\<lambda>k. se_next_alarm_id e + of_nat k) [0..<length (raised_ids (snd (se_run c e rs)))] \<and>
   se_next_alarm_id (fst (se_run c e rs)) =
     se_next_alarm_id e + of_nat (length (raised_ids (snd (se_run c e rs))))"
proof (induction c e rs rule: se_run.induct)
  case (2 c e t i ts rest)
  obtain b e' a cmd where st: "se_step c e t i ts = (b, e', a, cmd)" by (metis prod.exhaust)
  obtain e'' outs where r: "se_run c e' rest = (e'', outs)" by (metis prod.exhaust)
  note IH = "2.IH" [OF st [symmetric] refl refl, unfolded r]
  show ?case
  proof (cases "al_code a \<noteq> ''''")
    case True
    then have n: "al_alarm_id a = se_next_alarm_id e" "se_next_alarm_id e' = se_next_alarm_id e + 1"
      using se_step_alarm_id [OF st] by (auto simp: alarm_zero_def)
    show ?thesis using IH True n st r by (simp add: word_upt_Suc add.assoc del: upt_Suc)
  next
    case False
    then have "se_next_alarm_id e' = se_next_alarm_id e"
      using se_step_alarm_id [OF st] by (auto simp: alarm_zero_def)
    then show ?thesis using IH False st r by simp
  qed
qed simp

end
