(* ===== verification/Modbus_Source.thy ===== *)
theory Modbus_Source
  imports Gateway_Config Modbus_Crc Platform
begin

text \<open>
  Where Modbus measurements come from: the built-in simulator and the dispatch of
  \<^verbatim>\<open>src/src/ingress/modbus_rtu.c\<close>, and the libmodbus back end
  \<^verbatim>\<open>src/src/ingress/modbus_libmodbus.c\<close>.

  \<open>ingress_t\<close> gathers the static variables of the ingress files: the contexts of the two
  plug-ins, the simulator's sequence counter, and the libmodbus handle (0 is \<^verbatim>\<open>NULL\<close>) with
  its transport label. libmodbus is called through \<open>env\<close>, except for the argument test of
  \<^verbatim>\<open>modbus_set_response_timeout\<close>, which is short and translated from the vendored source.
  The lemmas bound the measurements of both sources and show that the handle is neither leaked
  nor freed twice.
\<close>

record ingress_t =
  ig_stub_seq :: u32
  ig_stub_cfg :: "gateway_config_t option"
  ig_modbus_cfg :: "gateway_config_t option"
  ig_sim_seq :: u32
  ig_ctx :: int
  ig_transport :: string

definition ingress_zero :: ingress_t where
  "ingress_zero = \<lparr>ig_stub_seq = 0, ig_stub_cfg = None, ig_modbus_cfg = None, ig_sim_seq = 0,
     ig_ctx = 0, ig_transport = ''''\<rparr>"

subsection \<open>Simulator\<close>

text \<open>The values both simulators compute from their sequence number.\<close>

definition sim_soc :: "u32 \<Rightarrow> double" where
  "sim_soc seq = dsub (Fin 80) (dmul (double_of_nat (unat (seq mod 30))) (round64 (1 / 5)))"

definition sim_temp :: "u32 \<Rightarrow> double" where
  "sim_temp seq = dadd (Fin 28) (dmul (double_of_nat (unat (seq mod 20))) (round64 (1 / 5)))"

definition sim_grid :: "u32 \<Rightarrow> double" where
  "sim_grid seq = dadd (Fin 90) (double_of_nat (unat (seq mod 80)))"

definition put3 :: "telemetry_t list \<Rightarrow> telemetry_t \<Rightarrow> telemetry_t \<Rightarrow> telemetry_t \<Rightarrow> telemetry_t list" where
  "put3 out a b c = out[0 := a, 1 := b, 2 := c]"

text \<open>
  The request frame the simulator builds, with its checksum low byte first; the source then
  discards it.
\<close>

definition simulate_request :: bytes where
  "simulate_request =
     (let req = [0x01, 0x03, 0x00, 0x00, 0x00, 0x03, 0x00, 0x00];
          crc = modbus_crc16 req 6
      in req[6 := crc_lo crc, 7 := crc_hi crc])"

definition modbus_poll_simulate ::
    "telemetry_t list option \<Rightarrow> nat \<Rightarrow> ingress_t \<Rightarrow> 'd env \<Rightarrow>
     int \<times> telemetry_t list option \<times> ingress_t \<times> 'd env" where
  "modbus_poll_simulate out max_out g w =
     (case out of
        None \<Rightarrow> (- 1, None, g, w)
      | Some buf \<Rightarrow>
          if max_out < 3 then (- 1, out, g, w)
          else
            (case edgeflow_now_ms w of
               (now, w1) \<Rightarrow>
                 (3, Some (put3 buf
                    (mk_telemetry now ''bms_001'' ''soc_percent'' (sim_soc (ig_sim_seq g)) ''%'' 2)
                    (mk_telemetry now ''bms_001'' ''max_cell_temp_c'' (sim_temp (ig_sim_seq g)) ''C'' 2)
                    (mk_telemetry now ''meter_001'' ''grid_power_kw'' (sim_grid (ig_sim_seq g)) ''kW'' 2)),
                  g\<lparr>ig_sim_seq := ig_sim_seq g + 1\<rparr>, w1)))"

subsection \<open>libmodbus back end\<close>

definition copy_transport_label :: "string option \<Rightarrow> string \<Rightarrow> nat \<Rightarrow> string" where
  "copy_transport_label src dst len =
     (if len = 0 then dst else snprintf len (case src of Some s \<Rightarrow> s | None \<Rightarrow> ''rtu''))"

definition modbus_libmodbus_shutdown :: "ingress_t \<Rightarrow> 'd env \<Rightarrow> ingress_t \<times> 'd env" where
  "modbus_libmodbus_shutdown g w =
     (if ig_ctx g = 0 then (g, w)
      else (g\<lparr>ig_ctx := 0, ig_transport := ''''\<rparr>,
            snd (syscall (C_modbus_free (ig_ctx g)) (snd (syscall (C_modbus_close (ig_ctx g)) w)))))"

text \<open>
  The microseconds handed to libmodbus: the product of the signed conversion. It overflows
  \<^verbatim>\<open>int\<close> for time-outs of 2147484 ms and more, where the C program has no defined behaviour.
\<close>

definition timeout_usec :: "gateway_config_t \<Rightarrow> int" where
  "timeout_usec cfg = sint (cfg_modbus_timeout_ms cfg) * 1000"

text \<open>The argument test of the vendored library, and its effect on the time-out in force.\<close>

definition modbus_set_response_timeout :: "u32 \<times> u32 \<Rightarrow> u32 \<Rightarrow> u32 \<Rightarrow> int \<times> u32 \<times> u32" where
  "modbus_set_response_timeout current to_sec to_usec =
     (if to_sec = 0 \<and> to_usec = 0 \<or> 999999 < to_usec then (- 1, current) else (0, to_sec, to_usec))"

definition modbus_new :: "gateway_config_t \<Rightarrow> call" where
  "modbus_new cfg =
     (if cfg_modbus_transport cfg = ''tcp''
      then C_modbus_new_tcp (cfg_modbus_tcp_host cfg) (int (unat (cfg_modbus_tcp_port cfg)))
      else C_modbus_new_rtu (cfg_serial_device cfg) (sint (cfg_modbus_baud_rate cfg)) (cfg_modbus_parity cfg)
             (int (unat (cfg_modbus_data_bits cfg))) (int (unat (cfg_modbus_stop_bits cfg))))"

definition ensure_context :: "gateway_config_t \<Rightarrow> ingress_t \<Rightarrow> 'd env \<Rightarrow> int \<times> ingress_t \<times> 'd env" where
  "ensure_context cfg g w =
     (let want = cfg_modbus_transport cfg
      in if ig_ctx g \<noteq> 0 \<and> ig_transport g = want then (0, g, w)
         else
           (case modbus_libmodbus_shutdown g w of
              (g1, w1) \<Rightarrow>
                (case syscall (modbus_new cfg) w1 of
                   (ctx, w2) \<Rightarrow>
                     let g2 = g1\<lparr>ig_ctx := ctx\<rparr>
                     in if ctx = 0 then
                          (- 1, g2, log_error (''libmodbus: create context failed transport='' @ want) w2)
                        else
                          let w3 = snd (syscall (C_modbus_set_slave ctx (int (unat (cfg_modbus_slave_id cfg)))) w2);
                              w4 = snd (syscall (C_modbus_set_response_timeout ctx 0 (timeout_usec cfg)) w3)
                          in (case syscall (C_modbus_connect ctx) w4 of
                                (r, w5) \<Rightarrow>
                                  if r \<noteq> 0 then
                                    (- 1, g2\<lparr>ig_ctx := 0\<rparr>,
                                     snd (syscall (C_modbus_free ctx)
                                       (log_warn (''libmodbus connect failed: '' @ env_strerror w4 (env_n w4)) w5)))
                                  else
                                    (0, g2\<lparr>ig_transport := copy_transport_label (Some want) (ig_transport g2) 8\<rparr>,
                                     log_info (''libmodbus connected: transport='' @ want @ '' slave='' @
                                       show_word (cfg_modbus_slave_id cfg)) w5)))))"

definition reg_at :: "nat list \<Rightarrow> nat \<Rightarrow> u16" where
  "reg_at regs i = of_nat (data_at regs i)"

definition reg_value :: "u16 \<Rightarrow> double" where
  "reg_value r = dmul (double_of_nat (unat r)) (round64 (1 / 10))"

definition map_registers_to_telemetry ::
    "nat list \<Rightarrow> telemetry_t list \<Rightarrow> nat \<Rightarrow> 'd env \<Rightarrow> int \<times> telemetry_t list \<times> 'd env" where
  "map_registers_to_telemetry regs out max_out w =
     (case edgeflow_now_ms w of
        (now, w1) \<Rightarrow>
          if max_out < 3 then (- 1, out, w1)
          else
            (3, put3 out
               (mk_telemetry now ''bms_001'' ''soc_percent'' (reg_value (reg_at regs 0)) ''%'' 2)
               (mk_telemetry now ''bms_001'' ''max_cell_temp_c'' (reg_value (reg_at regs 1)) ''C'' 2)
               (mk_telemetry now ''meter_001'' ''grid_power_kw'' (reg_value (reg_at regs 2)) ''kW'' 2), w1))"

definition modbus_libmodbus_poll ::
    "gateway_config_t option \<Rightarrow> telemetry_t list option \<Rightarrow> nat \<Rightarrow> ingress_t \<Rightarrow> 'd env \<Rightarrow>
     int \<times> telemetry_t list option \<times> ingress_t \<times> 'd env" where
  "modbus_libmodbus_poll cfg out max_out g w =
     (case (cfg, out) of
        (Some c, Some buf) \<Rightarrow>
          if max_out < 3 then (- 1, out, g, w)
          else
            (case ensure_context c g w of
               (rc, g1, w1) \<Rightarrow>
                 if rc \<noteq> 0 then (- 1, out, g1, w1)
                 else
                   (case syscall (C_modbus_read_registers (ig_ctx g1) 0 3) w1 of
                      (n, w2) \<Rightarrow>
                        if n < 0 then
                          (case modbus_libmodbus_shutdown g1
                                  (log_warn (''libmodbus read failed: '' @ env_strerror w1 (env_n w1)) w2) of
                             (g2, w3) \<Rightarrow> (- 1, out, g2, w3))
                        else
                          (case map_registers_to_telemetry (env_data w1 (env_n w1)) buf max_out w2 of
                             (m, buf', w3) \<Rightarrow> (m, Some buf', g1, w3))))
      | _ \<Rightarrow> (- 1, out, g, w))"

definition modbus_rtu_poll ::
    "gateway_config_t option \<Rightarrow> telemetry_t list option \<Rightarrow> nat \<Rightarrow> ingress_t \<Rightarrow> 'd env \<Rightarrow>
     int \<times> telemetry_t list option \<times> ingress_t \<times> 'd env" where
  "modbus_rtu_poll cfg out max_out g w =
     (case (cfg, out) of
        (Some c, Some _) \<Rightarrow>
          if max_out < 3 then (- 1, out, g, w)
          else if cfg_simulate c then modbus_poll_simulate out max_out g w
          else modbus_libmodbus_poll cfg out max_out g w
      | _ \<Rightarrow> (- 1, out, g, w))"

subsection \<open>The measurements\<close>

lemma fifth: "round64 (1 / 5) = Fin (3602879701896397 / 18014398509481984)"
  by (simp add: round_eval)

lemma steps_of_fifth:
  assumes n: "0 < n" "n \<le> 32"
  shows "\<exists>v. dmul (double_of_nat n) (round64 (1 / 5)) = Fin v \<and> 1 / 10 \<le> v \<and> \<bar>v - of_nat n / 5\<bar> \<le> 1 / 100"
proof -
  let ?r = "of_nat n * (3602879701896397 / 18014398509481984) :: rat"
  have nr: "1 \<le> (of_nat n :: rat)" "of_nat n \<le> (32 :: rat)" using n by linarith+
  have c: "\<bar>?r - of_nat n / 5\<bar> \<le> 1 / 1000" using nr by (simp add: field_simps)
  have "?r \<le> pow2 5" using nr by (simp add: pow2_def)
  then obtain v where v: "round64 ?r = Fin v" "\<bar>v - ?r\<bar> \<le> pow2 (5 - 52)"
    using round64_error [of ?r 5] by auto
  moreover have "pow2 (5 - 52) \<le> 1 / 1000" by (simp add: pow2_def)
  ultimately have "\<bar>v - of_nat n / 5\<bar> \<le> 1 / 100" using c by linarith
  moreover from this nr have "1 / 10 \<le> v" by linarith
  ultimately show ?thesis using v(1) n double_of_nat_exact [of n] by (auto simp: fifth dmul_def)
qed

lemma round64_near:
  assumes "0 \<le> r" "r \<le> 128"
  shows "\<exists>v \<ge> 0. round64 r = Fin v \<and> \<bar>v - r\<bar> \<le> 1 / 100"
proof -
  have "pow2 (7 - 52) \<le> 1 / 100" by (simp add: pow2_def)
  then show ?thesis using round64_error [of r 7] assms order_trans
    by (fastforce simp: pow2_def)
qed

lemma sim_soc_range: "dle (Fin 74) (sim_soc seq) \<and> dle (sim_soc seq) (Fin 80)"
proof (cases "unat (seq mod 30) = 0")
  case True
  then show ?thesis unfolding sim_soc_def by (simp add: double_eval)
next
  case False
  have lt: "unat (seq mod 30) < 30" by (simp add: unat_mod)
  then have n: "of_nat (unat (seq mod 30)) \<le> (29 :: rat)" by linarith
  obtain v where v: "dmul (double_of_nat (unat (seq mod 30))) (round64 (1 / 5)) = Fin v" "1 / 10 \<le> v"
    "\<bar>v - of_nat (unat (seq mod 30)) / 5\<bar> \<le> 1 / 100"
    using steps_of_fifth [of "unat (seq mod 30)"] False lt by auto
  have "0 \<le> 80 - v" "80 - v \<le> 128" using v n by linarith+
  then obtain z where "round64 (80 - v) = Fin z" "\<bar>z - (80 - v)\<bar> \<le> 1 / 100"
    using round64_near by blast
  moreover from this v n have "74 \<le> z" "z \<le> 80" "v \<noteq> 80" "v \<noteq> 0" by linarith+
  ultimately show ?thesis by (simp add: sim_soc_def v(1) dsub_def dadd_def dle_def)
qed

lemma sim_temp_range: "dle (Fin 28) (sim_temp seq) \<and> dle (sim_temp seq) (Fin 32)"
proof (cases "unat (seq mod 20) = 0")
  case True
  then show ?thesis unfolding sim_temp_def by (simp add: double_eval)
next
  case False
  have lt: "unat (seq mod 20) < 20" by (simp add: unat_mod)
  then have n: "of_nat (unat (seq mod 20)) \<le> (19 :: rat)" by linarith
  obtain v where v: "dmul (double_of_nat (unat (seq mod 20))) (round64 (1 / 5)) = Fin v" "1 / 10 \<le> v"
    "\<bar>v - of_nat (unat (seq mod 20)) / 5\<bar> \<le> 1 / 100"
    using steps_of_fifth [of "unat (seq mod 20)"] False lt by auto
  have "0 \<le> 28 + v" "28 + v \<le> 128" using v n by linarith+
  then obtain z where "round64 (28 + v) = Fin z" "\<bar>z - (28 + v)\<bar> \<le> 1 / 100"
    using round64_near by blast
  moreover from this v n have "28 \<le> z" "z \<le> 32" "28 + v \<noteq> 0" by linarith+
  ultimately show ?thesis by (simp add: sim_temp_def v(1) dadd_def dle_def)
qed

lemma sim_grid_exact: "sim_grid seq = Fin (90 + of_nat (unat (seq mod 80)))"
proof -
  have lt: "unat (seq mod 80) < 80" by (simp add: unat_mod)
  then have n: "double_of_nat (unat (seq mod 80)) = Fin (of_nat (unat (seq mod 80)))"
    by (intro double_of_nat_exact) simp
  have "round64 (of_nat (90 + unat (seq mod 80))) = Fin (of_nat (90 + unat (seq mod 80)))"
    using double_of_nat_exact [of "90 + unat (seq mod 80)"] lt by (simp add: double_of_nat_def)
  then show ?thesis by (simp add: sim_grid_def n dadd_def)
qed

lemma fits_points:
  "fits 64 ''soc_percent''" "fits 64 ''max_cell_temp_c''" "fits 64 ''grid_power_kw''"
  "fits 64 ''bms_001''" "fits 64 ''meter_001''" "fits 16 ''%''" "fits 16 ''C''" "fits 16 ''kW''"
  by (simp_all add: fits_def nul_def)

lemma put3_drop: "3 \<le> length out \<Longrightarrow> put3 out a b c = a # b # c # drop 3 out"
proof -
  assume "3 \<le> length out"
  then obtain x y z rest where "out = x # y # z # rest"
    by (metis (no_types, lifting) Suc_le_length_iff numeral_3_eq_3)
  then show ?thesis by (simp add: put3_def numeral_2_eq_2)
qed

lemma length_put3 [simp]: "length (put3 out a b c) = length out"
  by (simp add: put3_def)

text \<open>
  The simulator: with room for three records a poll delivers exactly three good, well-formed
  records at the front of the buffer and leaves the rest of it alone. The state of charge is
  between 74 and 80 percent and the temperature between 28 and 32 degrees for every value of
  the 32-bit sequence counter, in spite of rounding; the import is exactly 90 plus the
  counter modulo 80.
\<close>

theorem simulated_points:
  assumes "3 \<le> max_out" and "max_out \<le> length buf"
  shows "\<exists>now soc temp. modbus_poll_simulate (Some buf) max_out g w =
      (3, Some (mk_telemetry now ''bms_001'' ''soc_percent'' soc ''%'' 2 #
                mk_telemetry now ''bms_001'' ''max_cell_temp_c'' temp ''C'' 2 #
                mk_telemetry now ''meter_001'' ''grid_power_kw'' (Fin (90 + of_nat (unat (ig_sim_seq g mod 80)))) ''kW'' 2 #
                drop 3 buf),
       g\<lparr>ig_sim_seq := ig_sim_seq g + 1\<rparr>, snd (edgeflow_now_ms w)) \<and>
    dle (Fin 74) soc \<and> dle soc (Fin 80) \<and> dle (Fin 28) temp \<and> dle temp (Fin 32)"
  using assms sim_soc_range [of "ig_sim_seq g"] sim_temp_range [of "ig_sim_seq g"]
  by (auto simp: modbus_poll_simulate_def put3_drop sim_grid_exact split: prod.split)

lemma tenth: "round64 (1 / 10) = Fin (3602879701896397 / 36028797018963968)"
  by (simp add: round_eval)

lemma reg_value_near:
  "\<exists>v \<ge> 0. reg_value r = Fin v \<and> \<bar>v - of_nat (unat r) / 10\<bar> \<le> 1 / 1000000"
proof -
  have "unat r < 65536" using unsigned_less [of r, where ?'a = nat] by simp
  then have n: "of_nat (unat r) \<le> (65535 :: rat)" "0 \<le> (of_nat (unat r) :: rat)" by linarith+
  let ?x = "of_nat (unat r) * (3602879701896397 / 36028797018963968) :: rat"
  have "?x \<le> pow2 13" using n by (simp add: pow2_def)
  then obtain v where v: "0 \<le> v" "round64 ?x = Fin v" "\<bar>v - ?x\<bar> \<le> pow2 (13 - 52)"
    using round64_error [of ?x 13] n by auto
  have "pow2 (13 - 52) \<le> 1 / 2000000" by (simp add: pow2_def)
  moreover have "\<bar>?x - of_nat (unat r) / 10\<bar> \<le> 1 / 2000000" using n by (simp add: field_simps)
  ultimately have "\<bar>v - of_nat (unat r) / 10\<bar> \<le> 1 / 1000000" using v(3) by linarith
  moreover have "reg_value r = Fin v"
    using v(2) double_of_nat_exact [of "unat r"] \<open>unat r < 65536\<close>
    by (auto simp: reg_value_def tenth dmul_def round64_def [of 0])
  ultimately show ?thesis using v(1) by blast
qed

text \<open>
  Register scaling: for every 16-bit register the measurement is a finite, non-negative
  double that differs from a tenth of the register by at most one millionth.
\<close>

theorem register_value_accuracy:
  "\<exists>v \<ge> 0. reg_value r = Fin v \<and> \<bar>v - of_nat (unat r) / 10\<bar> \<le> 1 / 1000000"
  by (rule reg_value_near)

subsection \<open>Response time-out\<close>

lemma timeout_usec_small:
  assumes "unat (cfg_modbus_timeout_ms cfg) < 2147484"
  shows "timeout_usec cfg = int (unat (cfg_modbus_timeout_ms cfg)) * 1000"
proof -
  have "int (unat (cfg_modbus_timeout_ms cfg)) < 2147484" using assms by linarith
  then have "uint (cfg_modbus_timeout_ms cfg) < 2147484" by simp
  then have "signed_take_bit 31 (uint (cfg_modbus_timeout_ms cfg)) = uint (cfg_modbus_timeout_ms cfg)"
    using order_trans [OF _ uint_ge_0, of "- 2147483648" "cfg_modbus_timeout_ms cfg"]
    by (intro signed_take_bit_int_eq_self) simp_all
  then show ?thesis by (simp add: timeout_usec_def sint_uint)
qed



subsection \<open>The libmodbus handle\<close>

fun makes_context :: "call \<Rightarrow> bool" where
  "makes_context (C_modbus_new_tcp _ _) = True"
| "makes_context (C_modbus_new_rtu _ _ _ _ _) = True"
| "makes_context _ = False"

text \<open>Contexts created with handle \<open>h\<close> minus contexts freed with it.\<close>

fun mb_balance :: "int \<Rightarrow> (call \<times> int) list \<Rightarrow> int" where
  "mb_balance h [] = 0"
| "mb_balance h ((c, r) # cs) =
     (if makes_context c \<and> r = h \<and> r \<noteq> 0 then 1 else 0) - (if c = C_modbus_free h then 1 else 0) +
     mb_balance h cs"

lemma mb_balance_append [simp]: "mb_balance h (xs @ ys) = mb_balance h xs + mb_balance h ys"
  by (induction xs) auto

definition mb_held :: "ingress_t \<Rightarrow> int \<Rightarrow> int" where
  "mb_held g h = (if ig_ctx g = h \<and> h \<noteq> 0 then 1 else 0)"

definition mb_kept :: "ingress_t \<Rightarrow> 'd env \<Rightarrow> ingress_t \<Rightarrow> 'd env \<Rightarrow> bool" where
  "mb_kept g w g' w' \<longleftrightarrow>
     (\<forall>h. mb_balance h (env_calls w') - mb_held g' h = mb_balance h (env_calls w) - mb_held g h)"

lemma mb_kept_trans: "mb_kept a b c d \<Longrightarrow> mb_kept c d e f \<Longrightarrow> mb_kept a b e f"
  by (simp add: mb_kept_def)

lemma makes_context_new [simp]: "makes_context (modbus_new cfg)" "modbus_new cfg \<noteq> C_modbus_free h"
  by (simp_all add: modbus_new_def)

lemma shutdown_kept: "modbus_libmodbus_shutdown g w = (g', w') \<Longrightarrow> mb_kept g w g' w' \<and> ig_ctx g' = 0"
  by (auto simp: modbus_libmodbus_shutdown_def mb_kept_def mb_held_def frame_simps split: if_splits)

lemma ensure_context_kept:
  assumes "ensure_context cfg g w = (rc, g', w')"
  shows "mb_kept g w g' w'" and "rc = 0 \<longleftrightarrow> ig_ctx g' \<noteq> 0"
proof -
  obtain g1 w1 where s: "modbus_libmodbus_shutdown g w = (g1, w1)" by (metis prod.exhaust)
  have "(mb_kept g1 w1 g' w' \<or> g' = g \<and> w' = w) \<and> (rc = 0 \<longleftrightarrow> ig_ctx g' \<noteq> 0)"
    using assms shutdown_kept [OF s]
    by (auto simp: ensure_context_def s syscall_def mb_kept_def mb_held_def Let_def frame_simps split: if_splits)
  then show "mb_kept g w g' w'" and "rc = 0 \<longleftrightarrow> ig_ctx g' \<noteq> 0"
    using mb_kept_trans [of g w g1 w1 g' w'] shutdown_kept [OF s] by (auto simp: mb_kept_def)
qed

lemma mb_kept_call:
  "mb_kept g w g (snd (syscall (C_modbus_read_registers a b c) w))"
  "mb_kept g w g (log_warn m w)" "mb_kept g w g (snd (edgeflow_now_ms w))"
  by (simp_all add: mb_kept_def frame_simps)

lemma libmodbus_poll_kept:
  assumes "modbus_libmodbus_poll cfg out max_out g w = (n, out', g', w')"
  shows "mb_kept g w g' w'"
proof (cases cfg)
  case (Some c)
  obtain rc g1 w1 where e: "ensure_context c g w = (rc, g1, w1)" by (metis prod.exhaust)
  note k1 = ensure_context_kept(1) [OF e]
  let ?w2 = "snd (syscall (C_modbus_read_registers (ig_ctx g1) 0 3) w1)"
  obtain g2 w3 where s: "modbus_libmodbus_shutdown g1
      (log_warn (''libmodbus read failed: '' @ env_strerror w1 (env_n w1)) ?w2) = (g2, w3)"
    by (metis prod.exhaust)
  note k2 = mb_kept_trans [OF k1 mb_kept_trans [OF mb_kept_call(1) mb_kept_trans [OF mb_kept_call(2)
        conjunct1 [OF shutdown_kept [OF s]]]]]
  note k3 = mb_kept_trans [OF k1 mb_kept_trans [OF mb_kept_call(1) mb_kept_call(3)]]
  have "(g', w') \<in> {(g, w), (g1, w1), (g2, w3), (g1, snd (edgeflow_now_ms ?w2))}"
    using assms Some e s
    by (auto simp: modbus_libmodbus_poll_def map_registers_to_telemetry_def syscall_def
        split: option.splits if_splits prod.splits)
  then show ?thesis using k1 k2 k3 by (auto simp: mb_kept_def)
qed (use assms in \<open>simp add: modbus_libmodbus_poll_def mb_kept_def\<close>)

lemma simulate_kept:
  assumes "modbus_poll_simulate out max_out g w = (n, out', g', w')"
  shows "mb_kept g w g' w'"
proof -
  have "ig_ctx g' = ig_ctx g" "w' = w \<or> w' = snd (edgeflow_now_ms w)"
    using assms by (auto simp: modbus_poll_simulate_def split: option.splits if_splits prod.splits)
  then show ?thesis by (auto simp: mb_kept_def mb_held_def frame_simps)
qed

lemma rtu_poll_kept:
  assumes "modbus_rtu_poll cfg out max_out g w = (n, out', g', w')"
  shows "mb_kept g w g' w'"
proof -
  have "g' = g \<and> w' = w \<or> modbus_poll_simulate out max_out g w = (n, out', g', w') \<or>
      modbus_libmodbus_poll cfg out max_out g w = (n, out', g', w')"
    using assms by (simp add: modbus_rtu_poll_def split: option.splits if_splits)
  moreover have "mb_kept g w g w" by (simp add: mb_kept_def)
  ultimately show ?thesis using simulate_kept libmodbus_poll_kept by blast
qed

text \<open>A life of the back end: polls with any configuration and buffer, shutdowns in between.\<close>

datatype bus_op = Bus_Poll "gateway_config_t option" "telemetry_t list option" nat | Bus_Shutdown

fun bus_run :: "bus_op list \<Rightarrow> ingress_t \<times> 'd env \<Rightarrow> ingress_t \<times> 'd env" where
  "bus_run [] s = s"
| "bus_run (Bus_Poll cfg out max_out # ops) (g, w) =
     (case modbus_rtu_poll cfg out max_out g w of (n, out', g', w') \<Rightarrow> bus_run ops (g', w'))"
| "bus_run (Bus_Shutdown # ops) (g, w) = bus_run ops (modbus_libmodbus_shutdown g w)"

lemma bus_run_kept: "bus_run ops (g, w) = (g', w') \<Longrightarrow> mb_kept g w g' w'"
proof (induction ops "(g, w)" arbitrary: g w rule: bus_run.induct)
  case 1
  then show ?case by (simp add: mb_kept_def)
next
  case (2 cfg out max_out ops g w)
  obtain n out1 g1 w1 where p: "modbus_rtu_poll cfg out max_out g w = (n, out1, g1, w1)"
    by (metis prod.exhaust)
  show ?case
    using "2.hyps" [OF p [symmetric] refl refl] "2.prems" mb_kept_trans [OF rtu_poll_kept [OF p]] p by simp
next
  case (3 ops g w)
  obtain g1 w1 where s: "modbus_libmodbus_shutdown g w = (g1, w1)" by (metis prod.exhaust)
  show ?case
    using "3.hyps" [OF s] "3.prems" mb_kept_trans [OF conjunct1 [OF shutdown_kept [OF s]]] s by simp
qed

text \<open>
  C30. The libmodbus context is neither leaked nor freed twice: over any sequence of polls and
  shutdowns that starts without a context, whatever libmodbus returns, the contexts created
  and not yet freed are exactly the one the back end holds; after a final shutdown there is
  none.
\<close>

theorem modbus_context_no_leak:
  assumes "ig_ctx g = 0"
  shows "case bus_run ops (g, w) of (g', w') \<Rightarrow>
    (mb_balance h (env_calls w') - mb_balance h (env_calls w) = (if ig_ctx g' = h \<and> h \<noteq> 0 then 1 else 0)) \<and>
    (case modbus_libmodbus_shutdown g' w' of (g'', w'') \<Rightarrow>
       ig_ctx g'' = 0 \<and> mb_balance h (env_calls w'') = mb_balance h (env_calls w))"
proof -
  obtain g' w' where r: "bus_run ops (g, w) = (g', w')" by (metis prod.exhaust)
  obtain g'' w'' where s: "modbus_libmodbus_shutdown g' w' = (g'', w'')" by (metis prod.exhaust)
  have k: "mb_kept g w g' w'" "mb_kept g' w' g'' w'' \<and> ig_ctx g'' = 0"
    using bus_run_kept [OF r] shutdown_kept [OF s] by auto
  show ?thesis
    using assms k(1) [unfolded mb_kept_def, rule_format, of h]
      conjunct1 [OF k(2), unfolded mb_kept_def, rule_format, of h] k(2)
    unfolding r s prod.case by (simp add: mb_held_def split: if_splits)
qed

theorem modbus_context_no_leak_witness:
  "case bus_run [Bus_Poll (Some (gateway_config_defaults\<lparr>cfg_simulate := False\<rparr>)) (Some (replicate 8 telemetry_zero)) 8]
      (ingress_zero, demo_env (\<lambda>n. if n = 0 then 77 else 0)) of (g', w') \<Rightarrow>
    ig_ctx g' = 77 \<and> mb_balance 77 (env_calls w') = 1"
  using modbus_context_no_leak [where g = ingress_zero and h = 77 and
      ops = "[Bus_Poll (Some (gateway_config_defaults\<lparr>cfg_simulate := False\<rparr>)) (Some (replicate 8 telemetry_zero)) 8]"
      and w = "demo_env (\<lambda>n. if n = 0 then 77 else 0)"]
  by (simp add: modbus_rtu_poll_def modbus_libmodbus_poll_def ensure_context_def modbus_libmodbus_shutdown_def
      ingress_zero_def demo_env_def syscall_def map_registers_to_telemetry_def log_info_def log_vprint_def
      Let_def gateway_config_defaults_def edgeflow_now_ms_def)

end
