(* ===== verification/Adapter.thy ===== *)
theory Adapter
  imports Modbus_Source
begin

text \<open>
  Device adapters: the plug-in interface and registry of
  \<^verbatim>\<open>src/src/ingress/adapter.{h,c}\<close>, the demonstration plug-in
  \<^verbatim>\<open>stub_adapter.c\<close> and the Modbus plug-in \<^verbatim>\<open>modbus_adapter.c\<close>.

  A plug-in's function table is a record of optional functions over the static state of the
  ingress files and the environment; \<open>adapter_self\<close> holds the data members a callback sees
  through its \<^verbatim>\<open>self\<close> pointer, and \<open>da_ctx\<close> names the static context the pointer leads to.
  The out buffer of a poll is the list of its slots; a poll gets the rest of the buffer and
  returns it overwritten.

  The locale \<open>telemetry_plugin\<close> is the contract a poll function owes the registry; both
  plug-ins are instances, and the registry's aggregation is proved against the contract.
\<close>

datatype adapter_status_t = ADAPTER_OK | ADAPTER_ERR | ADAPTER_ERR_FULL | ADAPTER_ERR_NOT_FOUND

abbreviation ADAPTER_REGISTRY_MAX :: nat where "ADAPTER_REGISTRY_MAX \<equiv> 8"

datatype adapter_ctx = CTX_STUB | CTX_MODBUS

record adapter_self =
  da_name :: string
  da_protocol :: device_protocol_t
  da_source_id :: u16
  da_ctx :: "adapter_ctx option"

type_synonym 'd init_fn =
  "adapter_self option \<Rightarrow> gateway_config_t option \<Rightarrow> ingress_t \<Rightarrow> 'd env \<Rightarrow>
   int \<times> adapter_self option \<times> ingress_t \<times> 'd env"
type_synonym 'd shutdown_fn = "adapter_self option \<Rightarrow> ingress_t \<Rightarrow> 'd env \<Rightarrow> ingress_t \<times> 'd env"
type_synonym 'd poll_fn =
  "adapter_self option \<Rightarrow> telemetry_t list option \<Rightarrow> nat \<Rightarrow> ingress_t \<Rightarrow> 'd env \<Rightarrow>
   int \<times> telemetry_t list option \<times> ingress_t \<times> 'd env"
type_synonym 'd write_fn =
  "adapter_self option \<Rightarrow> command_t option \<Rightarrow> ingress_t \<Rightarrow> 'd env \<Rightarrow> int \<times> ingress_t \<times> 'd env"

record 'd device_adapter =
  da_self :: adapter_self
  da_init :: "'d init_fn option"
  da_shutdown :: "'d shutdown_fn option"
  da_poll :: "'d poll_fn option"
  da_write_command :: "'d write_fn option"

definition self_zero :: adapter_self where
  "self_zero = \<lparr>da_name = '''', da_protocol = DEVICE_PROTOCOL_MODBUS_RTU, da_source_id = 0, da_ctx = None\<rparr>"

subsection \<open>Stub plug-in\<close>

definition stub_init :: "'d init_fn" where
  "stub_init self cfg g w =
     (case (self, cfg) of
        (Some s, Some c) \<Rightarrow>
          if da_ctx s = None then (- 1, self, g, w)
          else
            (0, self, g\<lparr>ig_stub_seq := 0, ig_stub_cfg := Some c\<rparr>,
             log_info (''stub adapter init: name='' @ da_name s @ '' simulate='' @ show_bool (cfg_simulate c) @
               '' source_id='' @ show_word (da_source_id s)) w)
      | _ \<Rightarrow> (- 1, self, g, w))"

definition stub_shutdown :: "'d shutdown_fn" where
  "stub_shutdown self g w =
     (case self of None \<Rightarrow> (g, w) | Some s \<Rightarrow> (g, log_info (''stub adapter shutdown: name='' @ da_name s) w))"

definition stub_poll :: "'d poll_fn" where
  "stub_poll self out max_out g w =
     (case (self, out) of
        (Some s, Some buf) \<Rightarrow>
          if max_out < 3 then (- 1, out, g, w)
          else if da_ctx s = None then (- 1, out, g, w)
          else
            (case ig_stub_cfg g of
               None \<Rightarrow> (- 1, out, g, w)
             | Some c \<Rightarrow>
                 if \<not> cfg_simulate c then (0, out, g, w)
                 else
                   let seq = ig_stub_seq g; g1 = g\<lparr>ig_stub_seq := seq + 1\<rparr>
                   in (case edgeflow_now_ms w of
                         (now, w1) \<Rightarrow>
                           (3, Some (put3 buf
                              (mk_telemetry now ''bms_001'' ''soc_percent'' (sim_soc seq) ''%'' (da_source_id s))
                              (mk_telemetry now ''bms_001'' ''max_cell_temp_c'' (sim_temp seq) ''C'' (da_source_id s))
                              (mk_telemetry now ''meter_001'' ''grid_power_kw'' (sim_grid seq) ''kW'' (da_source_id s))),
                            g1, w1)))
      | _ \<Rightarrow> (- 1, out, g, w))"

definition stub_write_command :: "'d write_fn" where
  "stub_write_command self cmd g w = (- 1, g, w)"

definition stub_adapter_fill :: "'d device_adapter option \<Rightarrow> 'd device_adapter option" where
  "stub_adapter_fill out =
     map_option (\<lambda>_. \<lparr>da_self = self_zero\<lparr>da_name := snprintf EDGEFLOW_ID_MAX ''stub'',
         da_protocol := DEVICE_PROTOCOL_SIMULATOR, da_source_id := 1, da_ctx := Some CTX_STUB\<rparr>,
       da_init = Some stub_init, da_shutdown = Some stub_shutdown, da_poll = Some stub_poll,
       da_write_command = Some stub_write_command\<rparr>) out"

subsection \<open>Modbus plug-in\<close>

definition modbus_init :: "'d init_fn" where
  "modbus_init self cfg g w =
     (case (self, cfg) of
        (Some s, Some c) \<Rightarrow>
          if da_ctx s = None then (- 1, self, g, w)
          else
            (0, Some (s\<lparr>da_protocol := if cfg_modbus_transport c = ''tcp'' then DEVICE_PROTOCOL_MODBUS_TCP
                                      else DEVICE_PROTOCOL_MODBUS_RTU\<rparr>),
             g\<lparr>ig_modbus_cfg := Some c\<rparr>,
             log_info (''modbus adapter init: simulate='' @ show_bool (cfg_simulate c) @ '' transport='' @
               cfg_modbus_transport c @ '' serial='' @ cfg_serial_device c) w)
      | _ \<Rightarrow> (- 1, self, g, w))"

definition modbus_shutdown :: "'d shutdown_fn" where
  "modbus_shutdown self g w =
     (case modbus_libmodbus_shutdown g w of (g1, w1) \<Rightarrow> (g1, log_info ''modbus adapter shutdown'' w1))"

definition modbus_poll :: "'d poll_fn" where
  "modbus_poll self out max_out g w =
     (case self of
        None \<Rightarrow> (- 1, out, g, w)
      | Some s \<Rightarrow>
          if da_ctx s = None \<or> ig_modbus_cfg g = None then (- 1, out, g, w)
          else modbus_rtu_poll (ig_modbus_cfg g) out max_out g w)"

definition modbus_write_command :: "'d write_fn" where
  "modbus_write_command self cmd g w =
     (case cmd of
        None \<Rightarrow> (- 1, g, w)
      | Some c \<Rightarrow>
          (0, g, log_info (''modbus write_command simulate: target='' @ cmd_target_device_id c @ '' point='' @
             cmd_point_id c @ '' value='' @ show_fixed 2 (cmd_target_value c)) w))"

definition modbus_adapter_fill :: "'d device_adapter option \<Rightarrow> 'd device_adapter option" where
  "modbus_adapter_fill out =
     map_option (\<lambda>_. \<lparr>da_self = self_zero\<lparr>da_name := snprintf EDGEFLOW_ID_MAX ''modbus'',
         da_protocol := DEVICE_PROTOCOL_MODBUS_RTU, da_source_id := 2, da_ctx := Some CTX_MODBUS\<rparr>,
       da_init = Some modbus_init, da_shutdown = Some modbus_shutdown, da_poll = Some modbus_poll,
       da_write_command = Some modbus_write_command\<rparr>) out"

subsection \<open>Registry\<close>

text \<open>The used slots; \<^verbatim>\<open>count\<close> is the length of the list.\<close>

record 'd adapter_registry_t =
  reg_slots :: "'d device_adapter list"

definition adapter_registry_init :: "'d adapter_registry_t option \<Rightarrow> 'd adapter_registry_t option" where
  "adapter_registry_init reg = map_option (\<lambda>_. \<lparr>reg_slots = []\<rparr>) reg"

definition adapter_registry_register ::
    "'d adapter_registry_t option \<Rightarrow> 'd device_adapter option \<Rightarrow> adapter_status_t \<times> 'd adapter_registry_t option" where
  "adapter_registry_register reg adapter =
     (case (reg, adapter) of
        (Some r, Some a) \<Rightarrow>
          if ADAPTER_REGISTRY_MAX \<le> length (reg_slots r) then (ADAPTER_ERR_FULL, reg)
          else if da_poll a = None \<or> da_init a = None \<or> da_shutdown a = None then (ADAPTER_ERR, reg)
          else (ADAPTER_OK, Some (r\<lparr>reg_slots := reg_slots r @ [a]\<rparr>))
      | _ \<Rightarrow> (ADAPTER_ERR, reg))"

text \<open>The index of the slot the returned pointer leads to.\<close>

fun find_slot :: "'d device_adapter list \<Rightarrow> device_protocol_t \<Rightarrow> nat \<Rightarrow> nat option" where
  "find_slot [] protocol i = None"
| "find_slot (s # slots) protocol i =
     (if da_protocol (da_self s) = protocol then Some i else find_slot slots protocol (Suc i))"

definition adapter_registry_find :: "'d adapter_registry_t option \<Rightarrow> device_protocol_t \<Rightarrow> nat option" where
  "adapter_registry_find reg protocol =
     (case reg of None \<Rightarrow> None | Some r \<Rightarrow> find_slot (reg_slots r) protocol 0)"

fun init_slots ::
    "'d device_adapter list \<Rightarrow> gateway_config_t option \<Rightarrow> nat \<Rightarrow> ingress_t \<Rightarrow> 'd env \<Rightarrow>
     nat \<times> 'd device_adapter list \<times> ingress_t \<times> 'd env" where
  "init_slots [] cfg failures g w = (failures, [], g, w)"
| "init_slots (s # slots) cfg failures g w =
     (case da_init s of
        None \<Rightarrow>
          (case init_slots slots cfg failures g w of (f, slots', g', w') \<Rightarrow> (f, s # slots', g', w'))
      | Some init \<Rightarrow>
          (case init (Some (da_self s)) cfg g w of
             (rc, self', g1, w1) \<Rightarrow>
               (case init_slots slots cfg (if rc \<noteq> 0 then Suc failures else failures) g1 w1 of
                  (f, slots', g', w') \<Rightarrow>
                    (f, s\<lparr>da_self := case self' of Some x \<Rightarrow> x | None \<Rightarrow> da_self s\<rparr> # slots', g', w'))))"

definition adapter_registry_init_all ::
    "'d adapter_registry_t option \<Rightarrow> gateway_config_t option \<Rightarrow> ingress_t \<Rightarrow> 'd env \<Rightarrow>
     int \<times> 'd adapter_registry_t option \<times> ingress_t \<times> 'd env" where
  "adapter_registry_init_all reg cfg g w =
     (case (reg, cfg) of
        (Some r, Some _) \<Rightarrow>
          (case init_slots (reg_slots r) cfg 0 g w of
             (failures, slots, g1, w1) \<Rightarrow>
               (if 0 < failures then - 1 else 0, Some (r\<lparr>reg_slots := slots\<rparr>), g1, w1))
      | _ \<Rightarrow> (- 1, reg, g, w))"

fun poll_slots ::
    "'d device_adapter list \<Rightarrow> telemetry_t list \<Rightarrow> nat \<Rightarrow> nat \<Rightarrow> ingress_t \<Rightarrow> 'd env \<Rightarrow>
     nat \<times> telemetry_t list \<times> ingress_t \<times> 'd env" where
  "poll_slots [] out max_out tot g w = (tot, out, g, w)"
| "poll_slots (s # slots) out max_out tot g w =
     (case da_poll s of
        None \<Rightarrow> (tot, out, g, w)
      | Some poll \<Rightarrow>
          if max_out \<le> tot then (tot, out, g, w)
          else
            (case poll (Some (da_self s)) (Some (drop tot out)) (max_out - tot) g w of
               (n, part, g1, w1) \<Rightarrow>
                 poll_slots slots (case part of Some p \<Rightarrow> take tot out @ p | None \<Rightarrow> out) max_out
                   (if 0 < n then tot + nat n else tot) g1 w1))"

definition adapter_registry_poll_all ::
    "'d adapter_registry_t option \<Rightarrow> telemetry_t list option \<Rightarrow> nat \<Rightarrow> ingress_t \<Rightarrow> 'd env \<Rightarrow>
     int \<times> telemetry_t list option \<times> ingress_t \<times> 'd env" where
  "adapter_registry_poll_all reg out max_out g w =
     (case (reg, out) of
        (Some r, Some buf) \<Rightarrow>
          if max_out = 0 then (0, out, g, w)
          else
            (case poll_slots (reg_slots r) buf max_out 0 g w of
               (tot, buf', g1, w1) \<Rightarrow> (int tot, Some buf', g1, w1))
      | _ \<Rightarrow> (0, out, g, w))"

fun shutdown_slots :: "'d device_adapter list \<Rightarrow> ingress_t \<Rightarrow> 'd env \<Rightarrow> ingress_t \<times> 'd env" where
  "shutdown_slots [] g w = (g, w)"
| "shutdown_slots (s # slots) g w =
     (case da_shutdown s of
        None \<Rightarrow> shutdown_slots slots g w
      | Some shutdown \<Rightarrow>
          (case shutdown (Some (da_self s)) g w of (g1, w1) \<Rightarrow> shutdown_slots slots g1 w1))"

definition adapter_registry_shutdown_all :: "'d adapter_registry_t option \<Rightarrow> ingress_t \<Rightarrow> 'd env \<Rightarrow> ingress_t \<times> 'd env" where
  "adapter_registry_shutdown_all reg g w =
     (case reg of None \<Rightarrow> (g, w) | Some r \<Rightarrow> shutdown_slots (reg_slots r) g w)"

subsection \<open>The contract of a poll function\<close>

definition good_record :: "telemetry_t \<Rightarrow> bool" where
  "good_record t \<longleftrightarrow> telemetry_wf t \<and> tl_quality t = TELEMETRY_QUALITY_GOOD \<and> is_finite (tl_value t)"

text \<open>
  What a call may do to a buffer with room for \<open>m\<close> records: report at most \<open>m\<close> new ones, put
  good records in front, and leave the tail alone.
\<close>

definition filled :: "telemetry_t list \<Rightarrow> nat \<Rightarrow> int \<Rightarrow> telemetry_t list \<Rightarrow> bool" where
  "filled buf m n buf' \<longleftrightarrow> length buf' = length buf \<and> nat n \<le> m \<and>
     list_all good_record (take (nat n) buf') \<and> drop (nat n) buf' = drop (nat n) buf"

locale telemetry_plugin =
  fixes poll :: "'d poll_fn"
  assumes poll_filled:
    "m \<le> length buf \<Longrightarrow> poll self (Some buf) m g w = (n, out, g', w') \<Longrightarrow>
       \<exists>buf'. out = Some buf' \<and> filled buf m n buf'"
begin

text \<open>One turn of the registry's loop extends the batch.\<close>

lemma poll_turn:
  assumes "tot < m" "m \<le> length out" "filled buf m (int tot) out"
    and "poll self (Some (drop tot out)) (m - tot) g w = (n, part, g', w')"
  shows "filled buf m (int (if 0 < n then tot + nat n else tot))
    (case part of Some p \<Rightarrow> take tot out @ p | None \<Rightarrow> out)"
proof -
  obtain p where p: "part = Some p" "filled (drop tot out) (m - tot) n p"
    using poll_filled [OF _ assms(4)] diff_le_mono [OF assms(2), of tot] by auto
  have k: "nat n \<le> m - tot" "length p = length out - tot"
    using p(2) assms by (auto simp: filled_def)
  have "length (take tot out) = tot" using assms by simp
  then have "list_all good_record (take (tot + nat n) (take tot out @ p))"
    using p(2) assms(3) by (simp add: filled_def)
  moreover have "drop (tot + nat n) (take tot out @ p) = drop (tot + nat n) buf"
  proof -
    have "drop (tot + nat n) (take tot out @ p) = drop (nat n) p" using assms by simp
    also have "\<dots> = drop (tot + nat n) out" using p(2) by (simp add: filled_def add.commute)
    also have "\<dots> = drop (nat n) (drop tot out)" by (simp add: add.commute)
    also have "\<dots> = drop (nat n) (drop tot buf)" using assms(3) by (simp add: filled_def)
    finally show ?thesis by (simp add: add.commute)
  qed
  moreover have "length (take tot out @ p) = length buf" using k assms by (simp add: filled_def)
  ultimately show ?thesis
    using p(1) k assms(1) by (auto simp: filled_def nat_add_distrib)
qed

end

lemma filled_none [simp]: "n \<le> 0 \<Longrightarrow> filled buf m n buf"
  by (simp add: filled_def)

lemma filled_put3:
  assumes "3 \<le> m" "m \<le> length buf" "good_record a" "good_record b" "good_record c"
  shows "filled buf m 3 (put3 buf a b c)"
proof -
  have "put3 buf a b c = a # b # c # drop 3 buf" using assms by (intro put3_drop) simp
  then show ?thesis using assms by (simp add: filled_def numeral_3_eq_3)
qed

lemma good_record_mk: "is_finite v \<Longrightarrow> good_record (mk_telemetry ts d p v u s)"
  by (simp add: good_record_def)

lemma dle_finite: "dle (Fin a) v \<Longrightarrow> dle v (Fin b) \<Longrightarrow> is_finite v"
  by (cases v) (auto simp: dle_def)

lemma sim_finite: "is_finite (sim_soc seq)" "is_finite (sim_temp seq)" "is_finite (sim_grid seq)"
  using dle_finite sim_soc_range sim_temp_range by (blast, blast, simp add: sim_grid_exact)

lemma reg_value_finite: "is_finite (reg_value r)"
  using reg_value_near [of r] by auto

lemma stub_poll_filled:
  assumes "m \<le> length buf" "stub_poll self (Some buf) m g w = (n, out, g', w')"
  shows "\<exists>buf'. out = Some buf' \<and> filled buf m n buf'"
  using assms
  by (auto simp: stub_poll_def Let_def filled_put3 good_record_mk sim_finite
      split: option.splits if_splits prod.splits)

lemma rtu_poll_filled:
  assumes "m \<le> length buf" "modbus_rtu_poll cfg (Some buf) m g w = (n, out, g', w')"
  shows "\<exists>buf'. out = Some buf' \<and> filled buf m n buf'"
  using assms
  by (auto simp: modbus_rtu_poll_def modbus_poll_simulate_def modbus_libmodbus_poll_def
      map_registers_to_telemetry_def filled_put3 good_record_mk sim_finite reg_value_finite
      split: option.splits if_splits prod.splits)

lemma modbus_poll_filled:
  assumes "m \<le> length buf" "modbus_poll self (Some buf) m g w = (n, out, g', w')"
  shows "\<exists>buf'. out = Some buf' \<and> filled buf m n buf'"
  using assms rtu_poll_filled [OF assms(1)]
  by (auto simp: modbus_poll_def split: option.splits if_splits)

interpretation stub: telemetry_plugin stub_poll
  by unfold_locales (rule stub_poll_filled)

interpretation modbus: telemetry_plugin modbus_poll
  by unfold_locales (rule modbus_poll_filled)

subsection \<open>Aggregated polls\<close>

definition known_plugin :: "'d device_adapter \<Rightarrow> bool" where
  "known_plugin s \<longleftrightarrow> da_poll s = Some stub_poll \<or> da_poll s = Some modbus_poll"

lemma known_plugin_turn:
  assumes "known_plugin s" "da_poll s = Some poll" "tot < m" "m \<le> length out" "filled buf m (int tot) out"
    and "poll self (Some (drop tot out)) (m - tot) g w = (n, part, g', w')"
  shows "filled buf m (int (if 0 < n then tot + nat n else tot))
    (case part of Some p \<Rightarrow> take tot out @ p | None \<Rightarrow> out)"
proof (cases "poll = stub_poll")
  case True
  then show ?thesis using stub.poll_turn [OF assms(3-5)] assms(6) by blast
next
  case False
  then have "poll = modbus_poll" using assms(1,2) by (auto simp: known_plugin_def)
  then show ?thesis using modbus.poll_turn [OF assms(3-5)] assms(6) by blast
qed

lemma poll_slots_filled:
  assumes "list_all known_plugin slots" "m \<le> length buf" "filled buf m (int tot) out"
    and "poll_slots slots out m tot g w = (tot', out', g', w')"
  shows "filled buf m (int tot') out'"
  using assms
proof (induction slots out m tot g w rule: poll_slots.induct)
  case (2 s slots out m tot g w)
  obtain poll where pl: "da_poll s = Some poll" using "2.prems"(1) by (auto simp: known_plugin_def)
  show ?case
  proof (cases "m \<le> tot")
    case True
    then show ?thesis using "2.prems" pl by simp
  next
    case False
    obtain n part g1 w1 where c: "poll (Some (da_self s)) (Some (drop tot out)) (m - tot) g w = (n, part, g1, w1)"
      by (metis prod.exhaust)
    have len: "m \<le> length out" using "2.prems"(2,3) by (simp add: filled_def)
    note t = known_plugin_turn [OF _ pl _ len "2.prems"(3) c]
    show ?thesis
      using "2.IH" [OF pl False c [symmetric] refl refl] t False "2.prems" pl c by simp
  qed
qed simp

lemma poll_all_filled:
  assumes "list_all known_plugin (reg_slots reg)" and "max_out \<le> length buf"
    and "adapter_registry_poll_all (Some reg) (Some buf) max_out g w = (n, out, g', w')"
  shows "0 \<le> n \<and> n \<le> int max_out \<and>
    (\<exists>buf'. out = Some buf' \<and> length buf' = length buf \<and> list_all good_record (take (nat n) buf') \<and>
       drop (nat n) buf' = drop (nat n) buf)"
proof (cases "max_out = 0")
  case True
  then show ?thesis using assms by (simp add: adapter_registry_poll_all_def)
next
  case False
  obtain tot buf' g1 w1 where p: "poll_slots (reg_slots reg) buf max_out 0 g w = (tot, buf', g1, w1)"
    by (metis prod.exhaust)
  have "filled buf max_out (int tot) buf'"
    using poll_slots_filled [OF assms(1,2) _ p] by simp
  then show ?thesis using assms(3) p False
    by (auto simp: adapter_registry_poll_all_def filled_def)
qed

text \<open>
  C28. Aggregated polling stays inside the buffer: with any number of stub and Modbus plug-ins
  registered, and any behaviour of the clock and of libmodbus, polling all of them into a
  buffer of at least \<open>max_out\<close> slots reports between 0 and \<open>max_out\<close> records; the reported
  slots hold well-formed, finite records of good quality, and every slot behind them
  is unchanged.
\<close>

theorem poll_all_bounded:
  assumes "list_all known_plugin (reg_slots reg)" and "max_out \<le> length buf"
    and "adapter_registry_poll_all (Some reg) (Some buf) max_out g w = (n, out, g', w')"
  shows "0 \<le> n \<and> n \<le> int max_out \<and>
    (\<exists>buf'. out = Some buf' \<and> length buf' = length buf \<and> list_all good_record (take (nat n) buf') \<and>
       drop (nat n) buf' = drop (nat n) buf)"
  using assms by (rule poll_all_filled)

definition demo_registry :: "unit adapter_registry_t" where
  "demo_registry = \<lparr>reg_slots = [the (modbus_adapter_fill (Some undefined))]\<rparr>"

theorem poll_all_bounded_witness:
  "\<exists>n out g' w'. adapter_registry_poll_all (Some demo_registry) (Some (replicate 8 telemetry_zero)) 8
      (ingress_zero\<lparr>ig_modbus_cfg := Some gateway_config_defaults\<rparr>) (demo_env (\<lambda>_. 0)) = (n, out, g', w') \<and>
    0 \<le> n \<and> n \<le> 8"
proof -
  obtain n out g' w' where c: "adapter_registry_poll_all (Some demo_registry) (Some (replicate 8 telemetry_zero)) 8
      (ingress_zero\<lparr>ig_modbus_cfg := Some gateway_config_defaults\<rparr>) (demo_env (\<lambda>_. 0)) = (n, out, g', w')"
    by (metis prod.exhaust)
  show ?thesis
    using poll_all_bounded [OF _ _ c] c
    by (simp add: demo_registry_def modbus_adapter_fill_def known_plugin_def)
qed

subsection \<open>Registration and look-up\<close>

lemma find_slot_append:
  "find_slot (xs @ ys) p i =
     (case find_slot xs p i of Some j \<Rightarrow> Some j | None \<Rightarrow> find_slot ys p (i + length xs))"
  by (induction xs arbitrary: i) (auto split: option.split)

definition registrable :: "'d adapter_registry_t \<Rightarrow> 'd device_adapter \<Rightarrow> bool" where
  "registrable reg a \<longleftrightarrow> length (reg_slots reg) < ADAPTER_REGISTRY_MAX \<and>
     da_poll a \<noteq> None \<and> da_init a \<noteq> None \<and> da_shutdown a \<noteq> None"

text \<open>
  Registration: an adapter is accepted exactly when one of the eight slots is free and its
  three mandatory callbacks are there; otherwise the registry is unchanged. After an
  accepted registration every protocol that could be looked up before gives the same slot,
  and the new adapter's protocol gives the new slot if it gave none before.
\<close>

theorem register_then_find:
  "case adapter_registry_register (Some reg) (Some a) of (status, r) \<Rightarrow>
     (status = ADAPTER_OK \<longleftrightarrow> registrable reg a) \<and>
     (if registrable reg a
      then \<exists>reg'. r = Some reg' \<and> length (reg_slots reg') \<le> ADAPTER_REGISTRY_MAX \<and>
        reg_slots reg' ! length (reg_slots reg) = a \<and>
        (\<forall>p. adapter_registry_find (Some reg') p =
           (case adapter_registry_find (Some reg) p of
              Some i \<Rightarrow> Some i
            | None \<Rightarrow> if p = da_protocol (da_self a) then Some (length (reg_slots reg)) else None))
      else r = Some reg)"
  by (auto simp: adapter_registry_register_def adapter_registry_find_def registrable_def find_slot_append
      split: option.split)

end
