(* ===== verification/Command_Scheduler.thy ===== *)
theory Command_Scheduler
  imports Adapter Storage
begin

text \<open>
  The command scheduler, \<^verbatim>\<open>src/src/runtime/command_scheduler.{h,c}\<close>: a bounded queue of
  commands that one tick drains through a device adapter, recording every outcome.

  \<open>command_scheduler_submit\<close> and \<open>command_scheduler_tick\<close> are the whole functions; a tick threads
  the static state of the adapters and the environment through its loop. The lemmas show how
  identifiers are given out, that the queue stays within its 32 places, and that a tick empties
  the queue and records each command once, in order, in a final state.
\<close>

abbreviation COMMAND_QUEUE_MAX :: nat where "COMMAND_QUEUE_MAX \<equiv> 32"

text \<open>The queue is the list of its used places; \<^verbatim>\<open>count\<close> is its length.\<close>

record command_scheduler_t =
  cs_queue :: "command_t list"
  cs_next_command_id :: u64

definition command_scheduler_init :: "command_scheduler_t option \<Rightarrow> command_scheduler_t option" where
  "command_scheduler_init scheduler = map_option (\<lambda>_. \<lparr>cs_queue = [], cs_next_command_id = 1\<rparr>) scheduler"

definition command_scheduler_submit ::
    "command_scheduler_t option \<Rightarrow> command_t option \<Rightarrow> 'd env \<Rightarrow>
     int \<times> command_scheduler_t option \<times> command_t option \<times> 'd env" where
  "command_scheduler_submit scheduler command w =
     (case (scheduler, command) of
        (Some s, Some c) \<Rightarrow>
          if COMMAND_QUEUE_MAX \<le> length (cs_queue s) then
            (- 1, scheduler, command, log_warn ''command queue full, drop command'' w)
          else
            let (c1, s1) =
                  (if cmd_command_id c = 0 then
                     (c\<lparr>cmd_command_id := cs_next_command_id s\<rparr>,
                      s\<lparr>cs_next_command_id := cs_next_command_id s + 1\<rparr>)
                   else if cs_next_command_id s \<le> cmd_command_id c then
                     (c, s\<lparr>cs_next_command_id := cmd_command_id c + 1\<rparr>)
                   else (c, s));
                c2 = c1\<lparr>cmd_state := COMMAND_STATE_PENDING\<rparr>
            in (0, Some (s1\<lparr>cs_queue := cs_queue s1 @ [c2]\<rparr>), Some c2, w)
      | _ \<Rightarrow> (- 1, scheduler, command, w))"

text \<open>One turn of the second loop of a tick: write, judge, record, log.\<close>

definition dispatch_command ::
    "'d device_adapter \<Rightarrow> storage_ctx_t option \<Rightarrow> command_t \<Rightarrow> ingress_t \<Rightarrow> 'd env \<Rightarrow> command_t \<times> ingress_t \<times> 'd env" where
  "dispatch_command adapter storage cmd g w =
     (let c1 = cmd\<lparr>cmd_state := COMMAND_STATE_SENT\<rparr>;
          (rc, g1, w1) = (case da_write_command adapter of
             None \<Rightarrow> (0, g, w)
           | Some wr \<Rightarrow> wr (Some (da_self adapter)) (Some c1) g w);
          c2 = (if rc \<noteq> 0 then
                  c1\<lparr>cmd_state := COMMAND_STATE_FAILED,
                     cmd_result_message := snprintf EDGEFLOW_MESSAGE_MAX ''adapter write failed''\<rparr>
                else the (snd (command_mark_verified (Some (c1\<lparr>cmd_state := COMMAND_STATE_ACKED\<rparr>))
                       (Some ''simulator readback verified''))));
          w2 = (if storage \<noteq> None then snd (storage_append_command storage (Some c2) w1) else w1);
          w3 = log_info (''command '' @ command_state_to_string (cmd_state c2) @ '': id='' @
                 show_word (cmd_command_id c2) @ '' target='' @ cmd_target_device_id c2 @ '' value='' @
                 show_fixed 2 (cmd_target_value c2)) w2
      in (c2, g1, w3))"

fun dispatch_commands ::
    "'d device_adapter \<Rightarrow> storage_ctx_t option \<Rightarrow> command_t list \<Rightarrow> nat \<Rightarrow> ingress_t \<Rightarrow> 'd env \<Rightarrow> nat \<times> ingress_t \<times> 'd env" where
  "dispatch_commands adapter storage [] processed g w = (processed, g, w)"
| "dispatch_commands adapter storage (c # cs) processed g w =
     (case dispatch_command adapter storage c g w of
        (c', g1, w1) \<Rightarrow> dispatch_commands adapter storage cs (Suc processed) g1 w1)"

definition command_scheduler_tick ::
    "command_scheduler_t option \<Rightarrow> 'd device_adapter option \<Rightarrow> gateway_config_t option \<Rightarrow> storage_ctx_t option \<Rightarrow>
     ingress_t \<Rightarrow> 'd env \<Rightarrow> int \<times> command_scheduler_t option \<times> ingress_t \<times> 'd env" where
  "command_scheduler_tick scheduler adapter cfg storage g w =
     (case (scheduler, adapter, cfg) of
        (Some s, Some a, Some _) \<Rightarrow>
          let pending_cmds = filter (\<lambda>c. cmd_state c = COMMAND_STATE_PENDING) (cs_queue s)
          in (case dispatch_commands a storage pending_cmds 0 g w of
                (processed, g1, w1) \<Rightarrow> (int processed, Some (s\<lparr>cs_queue := []\<rparr>), g1, w1))
      | _ \<Rightarrow> (0, scheduler, g, w))"

subsection \<open>Submission\<close>

definition scheduler_wf :: "command_scheduler_t \<Rightarrow> bool" where
  "scheduler_wf s \<longleftrightarrow> length (cs_queue s) \<le> COMMAND_QUEUE_MAX \<and>
     list_all (\<lambda>c. cmd_state c = COMMAND_STATE_PENDING) (cs_queue s)"

text \<open>
  Submissions as the program makes them: the command carries either no identifier or, as the
  state engine does, the scheduler's next one. The result lists the accepted commands.
\<close>

fun submit_run :: "(bool \<times> command_t) list \<Rightarrow> command_scheduler_t \<Rightarrow> 'd env \<Rightarrow> command_scheduler_t \<times> command_t list" where
  "submit_run [] s w = (s, [])"
| "submit_run ((engine, c) # cs) s w =
     (case command_scheduler_submit (Some s)
             (Some (c\<lparr>cmd_command_id := if engine then cs_next_command_id s else 0\<rparr>)) w of
        (rc, s', c', w') \<Rightarrow>
          (case submit_run cs (the s') w' of
             (s'', acc) \<Rightarrow> (s'', (if rc = 0 then [the c'] else []) @ acc)))"

lemma submit_step:
  fixes w :: "'d env"
  assumes "command_scheduler_submit (Some s)
      (Some (c\<lparr>cmd_command_id := if engine then cs_next_command_id s else 0\<rparr>)) w = (rc, s', c', w')"
  shows "if length (cs_queue s) < COMMAND_QUEUE_MAX
    then \<exists>x. rc = 0 \<and> c' = Some x \<and> cmd_command_id x = cs_next_command_id s \<and>
      cmd_state x = COMMAND_STATE_PENDING \<and>
      s' = Some (s\<lparr>cs_queue := cs_queue s @ [x], cs_next_command_id := cs_next_command_id s + 1\<rparr>)
    else rc = - 1 \<and> s' = Some s"
  using assms by (auto simp: command_scheduler_submit_def Let_def split: if_splits)

lemma submit_run_spec:
  fixes w :: "'d env"
  assumes "submit_run cs s w = (s', acc)" and "scheduler_wf s"
  shows "cs_queue s' = cs_queue s @ acc \<and> scheduler_wf s' \<and>
    map cmd_command_id acc = map (\<lambda>k. cs_next_command_id s + of_nat k) [0..<length acc] \<and>
    length acc = min (length cs) (COMMAND_QUEUE_MAX - length (cs_queue s))"
  using assms
proof (induction cs s w arbitrary: s' acc rule: submit_run.induct)
  case (2 engine c cs s w)
  obtain rc s1 c1 w1 where st: "command_scheduler_submit (Some s)
      (Some (c\<lparr>cmd_command_id := if engine then cs_next_command_id s else 0\<rparr>)) w = (rc, s1, c1, w1)"
    by (metis prod.exhaust)
  note stp = submit_step [OF st]
  obtain acc1 where r: "submit_run cs (the s1) w1 = (s', acc1)"
    and acc: "acc = (if rc = 0 then [the c1] else []) @ acc1"
    using "2.prems"(1) st by (auto split: prod.splits)
  note IH = "2.IH" [OF st [symmetric] refl refl r]
  show ?case
  proof (cases "length (cs_queue s) < COMMAND_QUEUE_MAX")
    case True
    then obtain x where x: "rc = 0" "c1 = Some x" "cmd_command_id x = cs_next_command_id s"
      "cmd_state x = COMMAND_STATE_PENDING"
      "s1 = Some (s\<lparr>cs_queue := cs_queue s @ [x], cs_next_command_id := cs_next_command_id s + 1\<rparr>)"
      using stp by auto
    have "scheduler_wf (the s1)" using x True "2.prems"(2) by (simp add: scheduler_wf_def)
    note IH = IH [OF this]
    show ?thesis using IH x acc True by (auto simp: word_upt_Suc simp del: upt_Suc)
  next
    case False
    then show ?thesis using stp IH "2.prems"(2) acc by (auto simp: scheduler_wf_def)
  qed
qed simp

text \<open>
  Submission: of any sequence of commands, submitted without identifier or with the one the
  state engine takes from the scheduler, the first as many as there are free places are
  queued in order and the others are dropped; the queued ones are pending and carry
  consecutive identifiers from the scheduler's counter on, so no two are equal.
\<close>

theorem submit_identifiers:
  fixes w :: "'d env"
  assumes "scheduler_wf s" and "submit_run cs s w = (s', acc)"
  shows "cs_queue s' = cs_queue s @ acc \<and> scheduler_wf s' \<and>
    length acc = min (length cs) (COMMAND_QUEUE_MAX - length (cs_queue s)) \<and>
    map cmd_command_id acc = map (\<lambda>k. cs_next_command_id s + of_nat k) [0..<length acc] \<and>
    distinct (map cmd_command_id acc)"
proof -
  note sp = submit_run_spec [OF assms(2,1)]
  have len: "length acc \<le> 32" using sp by simp
  have "inj_on (\<lambda>k. cs_next_command_id s + word_of_nat k) {0..<length acc}"
  proof (rule inj_onI)
    fix a b assume ab: "a \<in> {0..<length acc}" "b \<in> {0..<length acc}"
      and "cs_next_command_id s + word_of_nat a = cs_next_command_id s + word_of_nat b"
    then have "(word_of_nat a :: u64) = word_of_nat b" by simp
    then have "unat (word_of_nat a :: u64) = unat (word_of_nat b :: u64)" by simp
    then show "a = b" using ab len by (simp add: unat_of_nat)
  qed
  then have "distinct (map cmd_command_id acc)"
    using sp by (simp add: distinct_map)
  then show ?thesis using sp by blast
qed

subsection \<open>Ticks\<close>

definition verified :: "command_t \<Rightarrow> command_t" where
  "verified c = c\<lparr>cmd_state := COMMAND_STATE_VERIFIED, cmd_result_message := ''simulator readback verified''\<rparr>"

definition only_fopen :: "(call \<times> int) list \<Rightarrow> bool" where
  "only_fopen cs = list_all (\<lambda>(c, r). case c of C_fopen _ _ \<Rightarrow> True | _ \<Rightarrow> False) cs"

lemma append_command_effect:
  assumes "\<And>n. env_ret w n \<noteq> 0" and "env_log_fp w \<noteq> Some (cfg_cache_path (st_cfg ctx))"
    and "storage_append_command (Some ctx) (Some c) w = (rc, w')"
  shows "env_files w' = (env_files w)(cfg_cache_path (st_cfg ctx) :=
      env_files w (cfg_cache_path (st_cfg ctx)) @ command_line c @ [CHR 0x0A])"
    and "env_ret w' = env_ret w" and "env_log_fp w' = env_log_fp w"
    and "\<exists>cs. env_calls w' = env_calls w @ cs \<and> only_fopen cs"
proof -
  let ?p = "cfg_cache_path (st_cfg ctx)"
  define w1 where "w1 = append_file ?p (command_line c @ [CHR 0x0A]) (snd (syscall (C_fopen ?p ''a'') w))"
  have j: "snd (append_jsonl_line ?p (command_line c) w) = w1"
    using assms(1) by (simp add: append_jsonl_line_def w1_def syscall_def)
  obtain d where d: "w' = w1\<lparr>env_db := d\<rparr>"
  proof (cases "sqlite_on ctx")
    case True
    then show ?thesis
      using that assms(3) db_modify_only [of SQL_INSERT_COMMAND "command_values c" w1]
      by (auto simp: storage_append_command_def Let_def j split: prod.splits)
  next
    case False
    then show ?thesis
      using that [of "env_db w1"] assms(3) by (simp add: storage_append_command_def Let_def j)
  qed
  show "env_files w' = (env_files w)(?p := env_files w ?p @ command_line c @ [CHR 0x0A])"
    by (simp add: d w1_def append_file_def syscall_def)
  show "env_ret w' = env_ret w" "env_log_fp w' = env_log_fp w" by (simp_all add: d w1_def frame_simps)
  show "\<exists>cs. env_calls w' = env_calls w @ cs \<and> only_fopen cs"
    by (simp add: d w1_def frame_simps only_fopen_def)
qed

lemma dispatch_modbus:
  assumes wr: "da_write_command a = Some modbus_write_command"
    and ok: "\<And>n. env_ret w n \<noteq> 0" "env_log_fp w \<noteq> Some (cfg_cache_path (st_cfg ctx))"
    and call: "dispatch_command a (Some ctx) c g w = (c', g', w')"
  shows "c' = verified c" and "g' = g"
    and "env_files w' (cfg_cache_path (st_cfg ctx)) =
      env_files w (cfg_cache_path (st_cfg ctx)) @ command_line (verified c) @ [CHR 0x0A]"
    and "env_ret w' = env_ret w" and "env_log_fp w' = env_log_fp w"
    and "\<exists>cs. env_calls w' = env_calls w @ cs \<and> only_fopen cs"
proof -
  have fit: "fits 128 ''simulator readback verified''" by (simp add: fits_def nul_def)
  obtain m where w1: "modbus_write_command (Some (da_self a)) (Some (c\<lparr>cmd_state := COMMAND_STATE_SENT\<rparr>)) g w =
      (0, g, log_info m w)"
    by (simp add: modbus_write_command_def)
  let ?w1 = "log_info m w" and ?p = "cfg_cache_path (st_cfg ctx)"
  have f1: "env_files ?w1 ?p = env_files w ?p"
    using ok(2) by (auto simp: log_info_def log_vprint_def Let_def frame_simps split: option.split)
  obtain rc w2 where ap: "storage_append_command (Some ctx) (Some (verified c)) ?w1 = (rc, w2)"
    by (metis prod.exhaust)
  have pre: "\<And>n. env_ret ?w1 n \<noteq> 0" "env_log_fp ?w1 \<noteq> Some ?p" using ok by (simp_all add: frame_simps)
  note eff = append_command_effect [OF pre ap]
  have v: "the (snd (command_mark_verified (Some (c\<lparr>cmd_state := COMMAND_STATE_ACKED\<rparr>))
      (Some ''simulator readback verified''))) = verified c"
    using fit by (simp add: command_mark_verified_def verified_def)
  obtain m2 where res: "c' = verified c" "g' = g" "w' = log_info m2 w2"
    using call w1 ap wr v by (auto simp: dispatch_command_def Let_def)
  have f2: "env_files w' ?p = env_files w2 ?p"
    using eff(3) pre(2) by (auto simp: res log_info_def log_vprint_def Let_def frame_simps split: option.split)
  show "c' = verified c" "g' = g" by (fact res)+
  show "env_files w' ?p = env_files w ?p @ command_line (verified c) @ [CHR 0x0A]"
    using f1 f2 eff(1) by simp
  show "env_ret w' = env_ret w" "env_log_fp w' = env_log_fp w" using eff(2,3) by (simp_all add: res frame_simps)
  show "\<exists>cs. env_calls w' = env_calls w @ cs \<and> only_fopen cs" using eff(4) by (simp add: res frame_simps)
qed

lemma dispatch_all_modbus:
  assumes "da_write_command a = Some modbus_write_command"
    and "\<And>n. env_ret w n \<noteq> 0" and "env_log_fp w \<noteq> Some (cfg_cache_path (st_cfg ctx))"
    and "dispatch_commands a (Some ctx) cs k g w = (k', g', w')"
  shows "k' = k + length cs \<and> g' = g \<and>
    env_files w' (cfg_cache_path (st_cfg ctx)) = env_files w (cfg_cache_path (st_cfg ctx)) @
      concat (map (\<lambda>c. command_line (verified c) @ [CHR 0x0A]) cs) \<and>
    (\<exists>calls. env_calls w' = env_calls w @ calls \<and> only_fopen calls)"
  using assms
proof (induction cs arbitrary: k g w)
  case Nil
  then show ?case by (simp add: only_fopen_def)
next
  case (Cons c cs)
  obtain c1 g1 w1 where d: "dispatch_command a (Some ctx) c g w = (c1, g1, w1)" by (metis prod.exhaust)
  note one = dispatch_modbus [OF Cons.prems(1-3) d]
  have "dispatch_commands a (Some ctx) cs (Suc k) g1 w1 = (k', g', w')" using Cons.prems(4) d by simp
  note IH = Cons.IH [OF Cons.prems(1) _ _ this]
  show ?case using IH one Cons.prems(2,3) by (force simp: only_fopen_def)
qed

text \<open>
  C29. A tick with the Modbus adapter: every queued command is recorded exactly once, in order, as
  VERIFIED, and the queue is empty afterwards; and although they are reported as verified, the
  only system calls made are those that open the audit file: nothing is sent to a device,
  whether or not the configuration asks for simulation.
\<close>

theorem tick_records_verified:
  assumes "scheduler_wf s" and "da_write_command a = Some modbus_write_command"
    and "\<forall>n. env_ret w n \<noteq> 0" and "env_log_fp w \<noteq> Some (cfg_cache_path (st_cfg ctx))"
    and "command_scheduler_tick (Some s) (Some a) (Some cfg) (Some ctx) g w = (n, s', g', w')"
  shows "n = int (length (cs_queue s)) \<and> s' = Some (s\<lparr>cs_queue := []\<rparr>) \<and>
    env_files w' (cfg_cache_path (st_cfg ctx)) = env_files w (cfg_cache_path (st_cfg ctx)) @
      concat (map (\<lambda>c. command_line (c\<lparr>cmd_state := COMMAND_STATE_VERIFIED,
        cmd_result_message := ''simulator readback verified''\<rparr>) @ [CHR 0x0A]) (cs_queue s)) \<and>
    (\<exists>calls. env_calls w' = env_calls w @ calls \<and> only_fopen calls)"
proof -
  obtain k g1 w1 where d: "dispatch_commands a (Some ctx) (cs_queue s) 0 g w = (k, g1, w1)" by (metis prod.exhaust)
  have "filter (\<lambda>c. cmd_state c = COMMAND_STATE_PENDING) (cs_queue s) = cs_queue s"
    using assms(1) by (simp add: scheduler_wf_def list_all_iff)
  then have "n = int k" "s' = Some (s\<lparr>cs_queue := []\<rparr>)" "w' = w1"
    using assms(5) d by (auto simp: command_scheduler_tick_def Let_def)
  then show ?thesis
    using dispatch_all_modbus [OF assms(2) _ assms(4) d] assms(3) by (auto simp: verified_def)
qed

theorem tick_records_verified_witness:
  "\<exists>n s' g' w'. command_scheduler_tick
      (Some \<lparr>cs_queue = [command_zero\<lparr>cmd_command_id := 7\<rparr>], cs_next_command_id = 8\<rparr>)
      (modbus_adapter_fill (Some undefined)) (Some gateway_config_defaults)
      (Some \<lparr>st_cfg = gateway_config_defaults, st_db = False\<rparr>) ingress_zero (demo_env (\<lambda>_. 1)) = (n, s', g', w') \<and>
    n = 1"
proof -
  let ?s = "\<lparr>cs_queue = [command_zero\<lparr>cmd_command_id := 7\<rparr>], cs_next_command_id = 8\<rparr>"
  let ?a = "the (modbus_adapter_fill (Some undefined)) :: unit device_adapter"
  let ?ctx = "\<lparr>st_cfg = gateway_config_defaults, st_db = False\<rparr>"
  obtain n s' g' w' where t: "command_scheduler_tick (Some ?s) (Some ?a) (Some gateway_config_defaults) (Some ?ctx)
      ingress_zero (demo_env (\<lambda>_. 1)) = (n, s', g', w')" by (metis prod.exhaust)
  have "n = 1"
    using tick_records_verified [OF _ _ _ _ t]
    by (simp add: scheduler_wf_def command_zero_def modbus_adapter_fill_def demo_env_def)
  moreover have "modbus_adapter_fill (Some undefined) = Some ?a" by (simp add: modbus_adapter_fill_def)
  ultimately show ?thesis using t by auto
qed

end
