(* ===== verification/Reactor.thy ===== *)
theory Reactor
  imports Platform
begin

text \<open>
  The epoll and timerfd reactor of the monitor thread,
  \<^verbatim>\<open>src/src/core/reactor.{h,c}\<close>. The callback acts on a state of the caller's choice and may
  fail to return, so a round of the reactor is an option. The lemmas show that no descriptor
  is leaked on any path of the constructor, that an accepted timer is armed with the exact
  interval, and how often a round runs the callback.
\<close>

type_synonym ('s, 'd) timer_cb = "'s \<Rightarrow> 'd env \<Rightarrow> ('s \<times> 'd env) option"

record ('s, 'd) reactor_t =
  re_epfd :: int
  re_timer_fd :: int
  re_cb :: "('s, 'd) timer_cb option"
  re_running :: bool

text \<open>The argument says whether the out pointer is non-NULL; the result is the new reactor.\<close>

definition reactor_init :: "bool \<Rightarrow> 'd env \<Rightarrow> int \<times> ('s, 'd) reactor_t option \<times> 'd env" where
  "reactor_init out w =
     (if \<not> out then (- 1, None, w)
      else
        (case syscall C_calloc w of
           (p, w1) \<Rightarrow>
             if p = 0 then (- 1, None, w1)
             else
               (case syscall C_epoll_create1 w1 of
                  (epfd, w2) \<Rightarrow>
                    if epfd < 0 then (- 1, None, w2)
                    else
                      (case syscall C_timerfd_create w2 of
                         (tfd, w3) \<Rightarrow>
                           if tfd < 0 then (- 1, None, snd (syscall (C_close epfd) w3))
                           else
                             (case syscall (C_epoll_ctl epfd tfd) w3 of
                                (r, w4) \<Rightarrow>
                                  if r \<noteq> 0 then
                                    (- 1, None, snd (syscall (C_close epfd) (snd (syscall (C_close tfd) w4))))
                                  else (0, Some \<lparr>re_epfd = epfd, re_timer_fd = tfd, re_cb = None,
                                               re_running = True\<rparr>, w4))))))"

definition reactor_destroy :: "('s, 'd) reactor_t option \<Rightarrow> 'd env \<Rightarrow> 'd env" where
  "reactor_destroy reactor w =
     (case reactor of
        None \<Rightarrow> w
      | Some r \<Rightarrow>
          (let w1 = (if 0 \<le> re_timer_fd r then snd (syscall (C_close (re_timer_fd r)) w) else w)
           in if 0 \<le> re_epfd r then snd (syscall (C_close (re_epfd r)) w1) else w1))"

definition reactor_add_timer_ms ::
    "('s, 'd) reactor_t option \<Rightarrow> u32 \<Rightarrow> ('s, 'd) timer_cb option \<Rightarrow> 'd env \<Rightarrow>
     int \<times> ('s, 'd) reactor_t option \<times> 'd env" where
  "reactor_add_timer_ms reactor interval_ms cb w =
     (case reactor of
        None \<Rightarrow> (- 1, None, w)
      | Some r \<Rightarrow>
          if cb = None \<or> interval_ms = 0 then (- 1, reactor, w)
          else
            (let r1 = r\<lparr>re_cb := cb\<rparr>
             in case syscall (C_timerfd_settime (re_timer_fd r) (unat (interval_ms div 1000))
                      (unat (interval_ms mod 1000) * 1000000)) w of
                  (rc, w1) \<Rightarrow> (if rc = 0 then 0 else - 1, Some r1, w1)))"

text \<open>The loop over the delivered events: one read and at most one callback per timer event.\<close>

fun reactor_dispatch :: "int \<Rightarrow> ('s, 'd) timer_cb option \<Rightarrow> int list \<Rightarrow> 's \<Rightarrow> 'd env \<Rightarrow> ('s \<times> 'd env) option" where
  "reactor_dispatch tfd cb [] s w = Some (s, w)"
| "reactor_dispatch tfd cb (fd # fds) s w =
     (if fd = tfd then
        (case syscall (C_read tfd 8) w of
           (n, w1) \<Rightarrow>
             (case cb of
                Some f \<Rightarrow>
                  if 0 < n then Option.bind (f s w1) (\<lambda>(s', w2). reactor_dispatch tfd cb fds s' w2)
                  else reactor_dispatch tfd cb fds s w1
              | None \<Rightarrow> reactor_dispatch tfd cb fds s w1))
      else reactor_dispatch tfd cb fds s w)"

definition delivered_fds :: "'d env \<Rightarrow> int \<Rightarrow> int list" where
  "delivered_fds w n = map (\<lambda>i. int (data_at (env_data w (env_n w)) i)) [0..<nat n]"

definition reactor_run_once ::
    "('s, 'd) reactor_t option \<Rightarrow> int \<Rightarrow> 's \<Rightarrow> 'd env \<Rightarrow> (int \<times> 's \<times> 'd env) option" where
  "reactor_run_once reactor timeout_ms s w =
     (case reactor of
        None \<Rightarrow> Some (- 1, s, w)
      | Some r \<Rightarrow>
          if \<not> re_running r then Some (- 1, s, w)
          else
            (case syscall (C_epoll_wait (re_epfd r) timeout_ms) w of
               (n, w1) \<Rightarrow>
                 if n < 0 then Some (if env_errno w (env_n w) = EINTR then 0 else - 1, s, w1)
                 else map_option (\<lambda>(s', w2). (0, s', w2))
                   (reactor_dispatch (re_timer_fd r) (re_cb r) (delivered_fds w n) s w1)))"

definition reactor_stop :: "('s, 'd) reactor_t option \<Rightarrow> ('s, 'd) reactor_t option" where
  "reactor_stop reactor = map_option (\<lambda>r. r\<lparr>re_running := False\<rparr>) reactor"

subsection \<open>Descriptors\<close>

definition reactor_held :: "('s, 'd) reactor_t option \<Rightarrow> int \<Rightarrow> int" where
  "reactor_held reactor fd =
     (case reactor of None \<Rightarrow> 0 | Some r \<Rightarrow> held (re_epfd r) fd + held (re_timer_fd r) fd)"

lemma reactor_init_balance:
  assumes "reactor_init out w = (rc, r, w')"
  shows "fd_balance fd (env_calls w') = fd_balance fd (env_calls w) + reactor_held r fd"
    and "rc = 0 \<longleftrightarrow> r \<noteq> None"
  using assms
  by (auto simp: reactor_init_def syscall_def reactor_held_def held_def split: if_splits)

lemma reactor_destroy_balance:
  "fd_balance fd (env_calls (reactor_destroy r w)) = fd_balance fd (env_calls w) - reactor_held r fd"
  by (auto simp: reactor_destroy_def reactor_held_def held_def frame_simps Let_def split: option.split)

lemma reactor_timer_held:
  "reactor_held (fst (snd (reactor_add_timer_ms r i cb w))) = reactor_held r"
  "fd_balance fd (env_calls (snd (snd (reactor_add_timer_ms r i cb w)))) = fd_balance fd (env_calls w)"
  by (auto simp: reactor_add_timer_ms_def reactor_held_def frame_simps Let_def syscall_def
      split: option.split prod.split)

text \<open>
  The reactor leaks no descriptor and closes none twice: whichever of the calls of
  the constructor or of the timer set-up fails, creating a reactor, adding a timer and
  destroying it leaves every descriptor with the balance of opens and closes it had before.
\<close>

theorem reactor_no_leak:
  fixes cb :: "('s, 'd) timer_cb option"
  shows "case (reactor_init out w :: int \<times> ('s, 'd) reactor_t option \<times> 'd env) of (rc, r, w1) \<Rightarrow>
     case reactor_add_timer_ms r interval_ms cb w1 of (rc2, r2, w2) \<Rightarrow>
       fd_balance fd (env_calls (reactor_destroy r2 w2)) = fd_balance fd (env_calls w)"
proof -
  obtain rc r w1 where i: "(reactor_init out w :: int \<times> ('s, 'd) reactor_t option \<times> 'd env) = (rc, r, w1)"
    by (metis prod.exhaust)
  obtain rc2 r2 w2 where a: "reactor_add_timer_ms r interval_ms cb w1 = (rc2, r2, w2)"
    by (metis prod.exhaust)
  show ?thesis
    using reactor_init_balance(1) [OF i, of fd] reactor_timer_held(1) [of r interval_ms cb w1]
      reactor_timer_held(2) [of fd r interval_ms cb w1]
    by (simp add: i a reactor_destroy_balance)
qed

subsection \<open>Arming the timer\<close>

text \<open>
  A timer is refused exactly for a missing reactor or callback, a zero interval or a
  refusing system call; otherwise the one system call made arms it with a valid, non-zero
  time specification (a zero one would disarm the timer) that amounts to the interval
  asked for, and installs the callback.
\<close>

theorem reactor_timer_armed:
  "case reactor_add_timer_ms (Some r) interval_ms cb w of (rc, r', w') \<Rightarrow>
     (rc = 0 \<longleftrightarrow> cb \<noteq> None \<and> interval_ms \<noteq> 0 \<and> env_ret w (env_n w) = 0) \<and>
     (if cb = None \<or> interval_ms = 0 then r' = Some r \<and> w' = w
      else map_option re_cb r' = Some cb \<and>
        (\<exists>s ns. env_calls w' = env_calls w @ [(C_timerfd_settime (re_timer_fd r) s ns, env_ret w (env_n w))] \<and>
           ns < 1000000000 \<and> 1000000 * (1000 * s) + ns = 1000000 * unat interval_ms \<and> 0 < s + ns))"
proof (cases "cb = None \<or> interval_ms = 0")
  case True
  then show ?thesis by (auto simp: reactor_add_timer_ms_def)
next
  case False
  have "unat (interval_ms mod 1000) * 1000000 < 1000000000"
    "1000000 * (1000 * unat (interval_ms div 1000)) + unat (interval_ms mod 1000) * 1000000 =
      1000000 * unat interval_ms"
    using ms_split [of interval_ms] by linarith+
  moreover have "0 < unat (interval_ms div 1000) + unat (interval_ms mod 1000) * 1000000"
    using ms_split(2) [of interval_ms] False by (auto simp: unat_eq_0 intro!: gr0I)
  ultimately show ?thesis using False
    by (auto simp: reactor_add_timer_ms_def syscall_def Let_def)
qed

subsection \<open>Callbacks of one round\<close>

definition reads_ok :: "'d env \<Rightarrow> nat \<Rightarrow> nat" where
  "reads_ok w m = length [j \<leftarrow> [0..<m]. 0 < env_ret w (env_n w + j)]"

lemma reads_ok_simps:
  "reads_ok w 0 = 0"
  "reads_ok w (Suc m) = (if 0 < env_ret w (env_n w) then 1 else 0) + reads_ok (snd (syscall c w)) m"
proof -
  have "[j \<leftarrow> [0..<Suc m]. P j] = (if P 0 then [0] else []) @ map Suc [j \<leftarrow> [0..<m]. P (Suc j)]"
    for P :: "nat \<Rightarrow> bool"
    by (induction m) auto
  from this [of "\<lambda>j. 0 < env_ret w (env_n w + j)"]
  show "reads_ok w (Suc m) = (if 0 < env_ret w (env_n w) then 1 else 0) + reads_ok (snd (syscall c w)) m"
    by (simp add: reads_ok_def frame_simps del: upt_Suc)
qed (simp add: reads_ok_def)

lemma reactor_dispatch_count:
  "\<exists>w'. reactor_dispatch tfd (Some (\<lambda>s w. Some (f s, w))) fds s w =
     Some ((f ^^ reads_ok w (length [fd \<leftarrow> fds. fd = tfd])) s, w')"
proof (induction fds arbitrary: s w)
  case Nil
  then show ?case by (simp add: reads_ok_simps(1))
next
  case (Cons fd fds)
  show ?case
  proof (cases "fd = tfd")
    case True
    then show ?thesis
      using Cons.IH [of s "snd (syscall (C_read tfd 8) w)"] Cons.IH [of "f s" "snd (syscall (C_read tfd 8) w)"]
      by (auto simp: reads_ok_simps(2) [where c = "C_read tfd 8"] funpow_swap1 split: prod.split)
        (auto simp: syscall_def)
  next
    case False
    then show ?thesis using Cons.IH by simp
  qed
qed

text \<open>
  A round of a running reactor runs the callback exactly once for every delivered event
  of its timer whose expiration count could be read, and for no other event.
\<close>

theorem reactor_round_callbacks:
  fixes f :: "'s \<Rightarrow> 's" and w :: "'d env"
  assumes "re_running r" and "re_cb r = Some (\<lambda>s w. Some (f s, w))" and "0 \<le> env_ret w (env_n w)"
  shows "\<exists>w'. reactor_run_once (Some r) timeout_ms s w =
    Some (0, (f ^^ length [j \<leftarrow> [0..<length [fd \<leftarrow> delivered_fds w (env_ret w (env_n w)). fd = re_timer_fd r]].
                0 < env_ret w (Suc (env_n w + j))]) s, w')"
proof -
  let ?w = "snd (syscall (C_epoll_wait (re_epfd r) timeout_ms) w)"
  have "reactor_run_once (Some r) timeout_ms s w = map_option (\<lambda>(s', w2). (0, s', w2))
      (reactor_dispatch (re_timer_fd r) (Some (\<lambda>s w. Some (f s, w)))
         (delivered_fds w (env_ret w (env_n w))) s ?w)"
    using assms by (simp add: reactor_run_once_def syscall_def)
  moreover obtain w' where "reactor_dispatch (re_timer_fd r) (Some (\<lambda>s w. Some (f s, w)))
      (delivered_fds w (env_ret w (env_n w))) s ?w =
    Some ((f ^^ reads_ok ?w (length [fd \<leftarrow> delivered_fds w (env_ret w (env_n w)). fd = re_timer_fd r])) s, w')"
    using reactor_dispatch_count [of "re_timer_fd r" f "delivered_fds w (env_ret w (env_n w))" s ?w] by blast
  ultimately show ?thesis by (simp add: reads_ok_def frame_simps)
qed

end
