(* ===== verification/Gateway_App.thy ===== *)
theory Gateway_App
  imports Mqtt_Replay Spsc_Ring State_Engine Command_Scheduler Reactor
begin

text \<open>
  The gateway runtime, \<^verbatim>\<open>src/src/runtime/app.{h,c}\<close>: the three threads around the ring, the
  store, the state engine, the command scheduler and the MQTT session, and their start and stop.

  \<open>gateway_app_t\<close> is the struct without the thread handles; the file-level state of the ingress
  files and of the watchdog, which the application reaches through their functions, is the record
  \<open>statics\<close>. A thread's loop is cut into its turns. How often \<^verbatim>\<open>atomic_load(&app->running)\<close> gives
  true before it gives false is decided by another thread, so it is an argument of the thread
  functions, and the interleaving of the threads is here a list of turns; \<open>Gateway_Steps\<close> cuts the turns
  into their statements, and \<open>Ring_Concurrent\<close> the ring's operations into their memory accesses.
  A turn is an option because sleeping and writing to a socket may not return.
\<close>

record 'd gateway_app_t =
  app_cfg :: gateway_config_t
  app_registry :: "'d adapter_registry_t"
  app_ring :: spsc_ring_t
  app_state_engine :: state_engine_t
  app_command_scheduler :: command_scheduler_t
  app_metrics :: gateway_metrics_t
  app_storage :: "storage_ctx_t option"
  app_mqtt :: mqtt_session_t
  app_heartbeat :: heartbeat_registry_t
  app_running :: bool

record statics =
  sg_ingress :: ingress_t
  sg_watchdog :: watchdog_t

type_synonym 'd machine = "'d gateway_app_t \<times> statics \<times> 'd env"

subsection \<open>Helpers of the threads\<close>

definition apply_quality_rules :: "gateway_config_t \<Rightarrow> telemetry_t \<Rightarrow> telemetry_t" where
  "apply_quality_rules cfg point =
     (if tl_point_id point = ''max_cell_temp_c'' \<and> dlt (cfg_temp_high cfg) (tl_value point)
      then point\<lparr>tl_quality := TELEMETRY_QUALITY_BAD\<rparr> else point)"

definition update_heartbeat_metrics :: "'d gateway_app_t \<Rightarrow> 'd env \<Rightarrow> 'd gateway_app_t \<times> 'd env" where
  "update_heartbeat_metrics app w =
     (let hb = Some (app_heartbeat app);
          (i, w1) = heartbeat_age_ms hb HEARTBEAT_THREAD_INGRESS w;
          (k, w2) = heartbeat_age_ms hb HEARTBEAT_THREAD_WORKER w1;
          (m, w3) = heartbeat_age_ms hb HEARTBEAT_THREAD_MONITOR w2
      in (app\<lparr>app_metrics := (app_metrics app)\<lparr>gm_heartbeat_ingress_age_ms := ucast i,
            gm_heartbeat_worker_age_ms := ucast k, gm_heartbeat_monitor_age_ms := ucast m\<rparr>\<rparr>, w3))"

definition touch :: "heartbeat_thread_t \<Rightarrow> 'd gateway_app_t \<Rightarrow> 'd env \<Rightarrow> 'd gateway_app_t \<times> 'd env" where
  "touch t app w =
     (case heartbeat_touch (Some (app_heartbeat app)) t w of (hb, w1) \<Rightarrow> (app\<lparr>app_heartbeat := the hb\<rparr>, w1))"

definition store_queue_metrics :: "'d gateway_app_t \<Rightarrow> 'd gateway_app_t" where
  "store_queue_metrics app =
     app\<lparr>app_metrics := (app_metrics app)\<lparr>gm_queue_depth := spsc_ring_count (Some (app_ring app)),
       gm_queue_dropped := spsc_ring_dropped (Some (app_ring app))\<rparr>\<rparr>"

definition write_metrics :: "'d gateway_app_t \<Rightarrow> 'd env \<Rightarrow> 'd gateway_app_t \<times> 'd env" where
  "write_metrics app w =
     (case update_heartbeat_metrics app w of
        (app1, w1) \<Rightarrow> (app1, snd (metrics_write_file (Some (cfg_metrics_path (app_cfg app1))) (Some (app_metrics app1)) w1)))"

subsection \<open>Ingress thread\<close>

text \<open>The points of one poll go into the ring one by one; the counter counts the accepted ones.\<close>

fun push_points :: "telemetry_t list \<Rightarrow> 'd gateway_app_t \<Rightarrow> 'd gateway_app_t" where
  "push_points [] app = app"
| "push_points (p # ps) app =
     (case spsc_ring_push (Some (app_ring app)) (Some p) of
        (ok, r) \<Rightarrow>
          push_points ps
            (if ok then app\<lparr>app_ring := the r,
               app_metrics := (app_metrics app)\<lparr>gm_ingress_points := gm_ingress_points (app_metrics app) + 1\<rparr>\<rparr>
             else app\<lparr>app_ring := the r\<rparr>))"

definition ingress_turn :: "'d machine \<Rightarrow> 'd machine option" where
  "ingress_turn = (\<lambda>(app, g, w).
     case adapter_registry_poll_all (Some (app_registry app)) (Some (replicate 8 telemetry_zero)) 8 (sg_ingress g) w of
       (n, points, ig, w1) \<Rightarrow>
         let app1 = (if 0 < n then push_points (take (nat n) (the points)) app else app);
             (app2, w2) = touch HEARTBEAT_THREAD_INGRESS app1 w1;
             app3 = store_queue_metrics app2
         in map_option (\<lambda>w3. (app3, g\<lparr>sg_ingress := ig\<rparr>, w3)) (edgeflow_sleep_ms (cfg_poll_interval_ms (app_cfg app3)) w2))"

fun ingress_main :: "nat \<Rightarrow> 'd machine \<Rightarrow> 'd machine option" where
  "ingress_main 0 s = Some s"
| "ingress_main (Suc k) s = Option.bind (ingress_turn s) (ingress_main k)"

subsection \<open>Worker thread\<close>

definition find_modbus_adapter :: "'d gateway_app_t \<Rightarrow> nat option" where
  "find_modbus_adapter app =
     (case adapter_registry_find (Some (app_registry app)) DEVICE_PROTOCOL_MODBUS_RTU of
        Some i \<Rightarrow> Some i
      | None \<Rightarrow> adapter_registry_find (Some (app_registry app)) DEVICE_PROTOCOL_MODBUS_TCP)"

text \<open>Store the point and count it: the new row's key is 0 when there is none.\<close>

definition worker_store :: "telemetry_t \<Rightarrow> 'd gateway_app_t \<Rightarrow> 'd env \<Rightarrow> int \<times> 'd gateway_app_t \<times> 'd env" where
  "worker_store point app w =
     (case storage_append_telemetry (app_storage app) (Some point) (Some 0) w of
        (rc, row_id, w1) \<Rightarrow>
          let w2 = (if rc \<noteq> 0 then log_warn ''storage append telemetry failed'' w1 else w1)
          in (the row_id,
              app\<lparr>app_metrics := (app_metrics app)\<lparr>gm_processed_points := gm_processed_points (app_metrics app) + 1\<rparr>\<rparr>, w2))"

text \<open>Submit a command and, if accepted, run the scheduler on the Modbus adapter.\<close>

definition worker_command :: "command_t \<Rightarrow> 'd machine \<Rightarrow> 'd machine" where
  "worker_command command = (\<lambda>(app, g, w).
     case command_scheduler_submit (Some (app_command_scheduler app)) (Some command) w of
       (rc, s, _, w1) \<Rightarrow>
         let app1 = app\<lparr>app_command_scheduler := the s\<rparr>
         in if rc \<noteq> 0 then (app1, g, w1)
            else
              (case find_modbus_adapter app1 of
                 None \<Rightarrow> (app1, g, w1)
               | Some i \<Rightarrow>
                   (case command_scheduler_tick (Some (app_command_scheduler app1)) (Some (reg_slots (app_registry app1) ! i))
                           (Some (app_cfg app1)) (app_storage app1) (sg_ingress g) w1 of
                      (_, s2, ig, w2) \<Rightarrow> (app1\<lparr>app_command_scheduler := the s2\<rparr>, g\<lparr>sg_ingress := ig\<rparr>, w2))))"

definition worker_decide :: "telemetry_t \<Rightarrow> 'd machine \<Rightarrow> 'd machine" where
  "worker_decide point = (\<lambda>(app, g, w).
     case state_engine_process_telemetry (Some (app_state_engine app)) (Some (app_cfg app)) (Some point)
            (Some alarm_zero) (Some command_zero) (cs_next_command_id (app_command_scheduler app)) (tl_ts_ms point) of
       (changed, e, alarm, command) \<Rightarrow>
         let app1 = app\<lparr>app_state_engine := the e\<rparr>
         in if \<not> changed then (app1, g, w)
            else
              let w1 = (if al_alarm_id (the alarm) \<noteq> 0
                        then log_warn (''alarm: '' @ al_code (the alarm) @ '' '' @ al_message (the alarm))
                               (snd (storage_append_alarm (app_storage app1) alarm w))
                        else w)
              in if cmd_point_id (the command) \<noteq> [] then worker_command (the command) (app1, g, w1)
                 else (app1, g, w1))"

definition worker_publish :: "telemetry_t \<Rightarrow> int \<Rightarrow> 'd machine \<Rightarrow> 'd machine option" where
  "worker_publish point row_id = (\<lambda>(app, g, w).
     Option.bind (mqtt_session_publish_telemetry (Some (app_mqtt app)) (Some point) w) (\<lambda>(rc, s, w1).
       let app1 = app\<lparr>app_mqtt := the s\<rparr>; m = app_metrics app1
       in if rc = 0 then
            Some (app1\<lparr>app_metrics := m\<lparr>gm_mqtt_publish_ok := gm_mqtt_publish_ok m + 1\<rparr>\<rparr>, g,
              if 0 < row_id then snd (storage_mark_telemetry_uploaded (app_storage app1) row_id w1) else w1)
          else Some (app1\<lparr>app_metrics := m\<lparr>gm_mqtt_publish_fail := gm_mqtt_publish_fail m + 1\<rparr>\<rparr>, g, w1)))"

text \<open>The end of a turn: heartbeat, gauges, and once a second the metrics file.\<close>

definition worker_report :: "u64 \<Rightarrow> 'd machine \<Rightarrow> u64 \<times> 'd machine" where
  "worker_report last_metrics_ms = (\<lambda>(app, g, w).
     let (app1, w1) = touch HEARTBEAT_THREAD_WORKER app w;
         app2 = store_queue_metrics app1;
         (n, w2) = storage_pending_telemetry_count (app_storage app2) w1;
         app3 = app2\<lparr>app_metrics := (app_metrics app2)\<lparr>gm_storage_pending_count := ucast n\<rparr>\<rparr>;
         (now, w3) = edgeflow_now_ms w2
     in if 1000 < now - last_metrics_ms then
          let (app4, w4) = write_metrics app3 w3; (now2, w5) = edgeflow_now_ms w4 in (now2, app4, g, w5)
        else (last_metrics_ms, app3, g, w3))"

definition worker_turn :: "u64 \<Rightarrow> 'd machine \<Rightarrow> (u64 \<times> 'd machine) option" where
  "worker_turn last_metrics_ms = (\<lambda>(app, g, w).
     case spsc_ring_pop (Some (app_ring app)) (Some telemetry_zero) of
       (ok, popped, r) \<Rightarrow>
         let app1 = app\<lparr>app_ring := the r\<rparr>
         in if \<not> ok then
              (case touch HEARTBEAT_THREAD_WORKER app1 w of
                 (app2, w1) \<Rightarrow> map_option (\<lambda>w2. (last_metrics_ms, app2, g, w2)) (edgeflow_sleep_ms 20 w1))
            else
              let point = apply_quality_rules (app_cfg app1) (the popped);
                  (row_id, app2, w1) = worker_store point app1 w
              in map_option (worker_report last_metrics_ms)
                   (worker_publish point row_id (worker_decide point (app2, g, w1))))"

fun worker_loop :: "nat \<Rightarrow> u64 \<Rightarrow> 'd machine \<Rightarrow> 'd machine option" where
  "worker_loop 0 last_metrics_ms s = Some s"
| "worker_loop (Suc k) last_metrics_ms s =
     Option.bind (worker_turn last_metrics_ms s) (\<lambda>(t, s1). worker_loop k t s1)"

definition worker_main :: "nat \<Rightarrow> 'd machine \<Rightarrow> 'd machine option" where
  "worker_main k s =
     map_option (\<lambda>(app, g, w). case write_metrics app w of (app1, w1) \<Rightarrow> (app1, g, w1)) (worker_loop k 0 s)"

subsection \<open>Monitor thread\<close>

definition heartbeat_json :: "string \<Rightarrow> u64 \<Rightarrow> u32 \<Rightarrow> string" where
  \<open>heartbeat_json device_id ts_ms pending_n =
     ''{"device_id":"'' @ device_id @ ''","ts_ms":'' @ show_word ts_ms @ '',"pending":'' @ show_word pending_n @ ''}''\<close>

text \<open>The interval is a 32-bit unsigned number, and so is three times it.\<close>

definition stale_limit :: "gateway_config_t \<Rightarrow> u64" where
  "stale_limit cfg = ucast (cfg_heartbeat_interval_ms cfg * 3)"

definition warn_stale :: "string \<Rightarrow> gateway_config_t \<Rightarrow> u64 \<Rightarrow> 'd env \<Rightarrow> 'd env" where
  "warn_stale who cfg age w =
     (if stale_limit cfg < age then log_warn (who @ '' heartbeat stale: age_ms='' @ show_word age) w else w)"

definition monitor_on_timer :: "'d gateway_app_t \<times> statics \<Rightarrow> 'd env \<Rightarrow> (('d gateway_app_t \<times> statics) \<times> 'd env) option" where
  "monitor_on_timer = (\<lambda>(app, g) w.
     if \<not> app_running app then Some ((app, g), w)
     else
       let (app1, w1) = touch HEARTBEAT_THREAD_MONITOR app w;
           w2 = watchdog_notify_alive (sg_watchdog g) w1;
           (ingress_age, w3) = heartbeat_age_ms (Some (app_heartbeat app1)) HEARTBEAT_THREAD_INGRESS w2;
           (worker_age, w4) = heartbeat_age_ms (Some (app_heartbeat app1)) HEARTBEAT_THREAD_WORKER w3;
           w5 = warn_stale ''ingress'' (app_cfg app1) ingress_age w4;
           w6 = warn_stale ''worker'' (app_cfg app1) worker_age w5
       in Option.bind (mqtt_session_replay_pending (Some (app_mqtt app1)) (app_storage app1) (Some (app_metrics app1)) w6)
            (\<lambda>(_, s1, m1, w7).
               Option.bind (mqtt_session_ping s1 w7) (\<lambda>(_, s2, w8).
                 let (n, w9) = storage_pending_telemetry_count (app_storage app1) w8;
                     (now, w10) = edgeflow_now_ms w9;
                     hb_payload = snprintf 128 (heartbeat_json (cfg_device_id (app_cfg app1)) now (ucast n))
                 in Option.bind (mqtt_session_publish_heartbeat s2 (Some hb_payload) w10) (\<lambda>(_, s3, w11).
                      let (app2, w12) = write_metrics (app1\<lparr>app_mqtt := the s3, app_metrics := the m1\<rparr>) w11
                      in Some ((app2, g), w12)))))"

text \<open>The loop without a reactor: one call and one sleep per turn.\<close>

definition monitor_sleep_turn :: "'d machine \<Rightarrow> 'd machine option" where
  "monitor_sleep_turn = (\<lambda>(app, g, w).
     Option.bind (monitor_on_timer (app, g) w) (\<lambda>((app1, g1), w1).
       map_option (\<lambda>w2. (app1, g1, w2)) (edgeflow_sleep_ms (cfg_watchdog_interval_ms (app_cfg app1)) w1)))"

fun monitor_sleep_loop :: "nat \<Rightarrow> 'd machine \<Rightarrow> 'd machine option" where
  "monitor_sleep_loop 0 s = Some s"
| "monitor_sleep_loop (Suc k) s = Option.bind (monitor_sleep_turn s) (monitor_sleep_loop k)"

type_synonym 'd monitor_reactor = "('d gateway_app_t \<times> statics, 'd) reactor_t"

fun monitor_reactor_loop :: "nat \<Rightarrow> 'd monitor_reactor option \<Rightarrow> 'd machine \<Rightarrow> 'd machine option" where
  "monitor_reactor_loop 0 reactor s = Some s"
| "monitor_reactor_loop (Suc k) reactor (app, g, w) =
     Option.bind (reactor_run_once reactor 500 (app, g) w) (\<lambda>(rc, (app1, g1), w1).
       if rc \<noteq> 0 then Some (app1, g1, w1) else monitor_reactor_loop k reactor (app1, g1, w1))"

definition monitor_main :: "nat \<Rightarrow> 'd machine \<Rightarrow> 'd machine option" where
  "monitor_main k = (\<lambda>(app, g, w).
     case reactor_init True w of
       (rc, reactor, w1) \<Rightarrow>
         if rc \<noteq> 0 then
           monitor_sleep_loop k (app, g, log_warn ''reactor init failed, monitor thread fallback sleep loop'' w1)
         else
           (case reactor_add_timer_ms reactor (cfg_watchdog_interval_ms (app_cfg app)) (Some monitor_on_timer) w1 of
              (rc2, reactor1, w2) \<Rightarrow>
                if rc2 \<noteq> 0 then
                  monitor_sleep_loop k (app, g, reactor_destroy reactor1 (log_warn ''reactor timer setup failed'' w2))
                else
                  map_option (\<lambda>(app1, g1, w3). (app1, g1, reactor_destroy (reactor_stop reactor1) w3))
                    (monitor_reactor_loop k reactor1 (app, g, w2))))"

subsection \<open>Start and stop\<close>

definition gateway_app_zero :: "'d gateway_app_t" where
  "gateway_app_zero = \<lparr>app_cfg = gateway_config_zero, app_registry = \<lparr>reg_slots = []\<rparr>,
     app_ring = \<lparr>rg_buf = None, rg_size = 0, rg_head = 0, rg_tail = 0, rg_dropped = 0\<rparr>,
     app_state_engine = \<lparr>se_state = SYSTEM_STATE_INIT, se_soc_percent = Fin 0, se_max_cell_temp_c = Fin 0,
       se_grid_power_kw = Fin 0, se_next_alarm_id = 0\<rparr>,
     app_command_scheduler = \<lparr>cs_queue = [], cs_next_command_id = 0\<rparr>, app_metrics = metrics_zero, app_storage = None,
     app_mqtt = \<lparr>ms_cfg = gateway_config_zero, ms_fd = 0, ms_connected = False\<rparr>,
     app_heartbeat = \<lparr>hb_last_ms = replicate 3 0\<rparr>, app_running = False\<rparr>"

text \<open>The members set before the first step that can fail.\<close>

definition app_cleared :: "gateway_config_t \<Rightarrow> 'd env \<Rightarrow> 'd gateway_app_t \<times> 'd env" where
  "app_cleared cfg w =
     (let app = gateway_app_zero\<lparr>app_cfg := cfg,
            app_state_engine := the (state_engine_init (Some (app_state_engine (gateway_app_zero :: 'd gateway_app_t)))),
            app_command_scheduler := the (command_scheduler_init (Some (app_command_scheduler (gateway_app_zero :: 'd gateway_app_t)))),
            app_metrics := the (metrics_init (Some metrics_zero))\<rparr>;
          (hb, w1) = heartbeat_registry_init (Some (app_heartbeat app)) w
      in (app\<lparr>app_heartbeat := the hb, app_mqtt := the (mqtt_session_init (Some (app_mqtt app)) (Some cfg)),
            app_running := False\<rparr>, w1))"

definition ring_setup :: "u32 \<Rightarrow> spsc_ring_t \<Rightarrow> 'd env \<Rightarrow> int \<times> spsc_ring_t \<times> 'd env" where
  "ring_setup sz r w =
     (if sz < 2 then (case spsc_ring_init True (Some r) sz of (rc, r1) \<Rightarrow> (rc, the r1, w))
      else (case syscall C_calloc w of (p, w1) \<Rightarrow>
              (case spsc_ring_init (p \<noteq> 0) (Some r) sz of (rc, r1) \<Rightarrow> (rc, the r1, w1))))"

definition adapter_blank :: "'d device_adapter" where
  "adapter_blank = \<lparr>da_self = self_zero, da_init = None, da_shutdown = None, da_poll = None, da_write_command = None\<rparr>"

definition gateway_app_init ::
    "'d gateway_app_t option \<Rightarrow> gateway_config_t option \<Rightarrow> statics \<Rightarrow> 'd env \<Rightarrow>
     int \<times> 'd gateway_app_t option \<times> statics \<times> 'd env" where
  "gateway_app_init app cfg g w =
     (case (app, cfg) of
        (Some _, Some c) \<Rightarrow>
          let (app0, w0) = app_cleared c w;
              (rc, st, w1) = storage_open True (Some c) w0;
              app1 = app0\<lparr>app_storage := st\<rparr>
          in if rc \<noteq> 0 then (- 1, Some app1, g, log_error ''storage_open failed'' w1)
             else
               (case adapter_registry_register (adapter_registry_init (Some (app_registry app1)))
                       (modbus_adapter_fill (Some adapter_blank)) of
                  (status, reg) \<Rightarrow>
                    let app2 = app1\<lparr>app_registry := the reg\<rparr>
                    in if status \<noteq> ADAPTER_OK then (- 1, Some (app2\<lparr>app_storage := None\<rparr>), g, storage_close st w1)
                       else
                         (case adapter_registry_init_all (Some (app_registry app2)) (Some c) (sg_ingress g) w1 of
                            (irc, reg2, ig, w2) \<Rightarrow>
                              let app3 = app2\<lparr>app_registry := the reg2\<rparr>;
                                  g1 = g\<lparr>sg_ingress := ig\<rparr>;
                                  w3 = (if irc \<noteq> 0 then log_warn ''adapter init reported failures'' w2 else w2);
                                  (rrc, ring, w4) = ring_setup (cfg_queue_size c) (app_ring app3) w3;
                                  app4 = app3\<lparr>app_ring := ring\<rparr>
                              in if rrc \<noteq> 0 then
                                   (case adapter_registry_shutdown_all (Some (app_registry app4)) (sg_ingress g1) w4 of
                                      (ig2, w5) \<Rightarrow>
                                        (- 1, Some (app4\<lparr>app_storage := None\<rparr>), g1\<lparr>sg_ingress := ig2\<rparr>, storage_close st w5))
                                 else
                                   (case watchdog_init (cfg_watchdog_interval_ms c) (sg_watchdog g1) w4 of
                                      (wd, w5) \<Rightarrow> (0, Some app4, g1\<lparr>sg_watchdog := wd\<rparr>, w5))))
      | _ \<Rightarrow> (- 1, app, g, w))"

definition gateway_app_run :: "'d gateway_app_t option \<Rightarrow> statics \<Rightarrow> 'd env \<Rightarrow> int \<times> 'd gateway_app_t option \<times> 'd env" where
  "gateway_app_run app g w =
     (case app of
        None \<Rightarrow> (- 1, None, w)
      | Some a \<Rightarrow>
          let on = a\<lparr>app_running := True\<rparr>; off = a\<lparr>app_running := False\<rparr>
          in case syscall (C_pthread_create ''ingress'') w of
               (r1, w1) \<Rightarrow>
                 if r1 \<noteq> 0 then (- 1, Some off, w1)
                 else
                   (case syscall (C_pthread_create ''worker'') w1 of
                      (r2, w2) \<Rightarrow>
                        if r2 \<noteq> 0 then (- 1, Some off, snd (syscall (C_pthread_join ''ingress'') w2))
                        else
                          (case syscall (C_pthread_create ''monitor'') w2 of
                             (r3, w3) \<Rightarrow>
                               if r3 \<noteq> 0 then
                                 (- 1, Some off, snd (syscall (C_pthread_join ''worker'') (snd (syscall (C_pthread_join ''ingress'') w3))))
                               else
                                 (0, Some on,
                                  log_info (''edgeflow running (advanced): device_id='' @ cfg_device_id (app_cfg a) @
                                    '' simulate='' @ show_bool (cfg_simulate (app_cfg a)) @ '' sqlite='' @
                                    (if cfg_use_sqlite (app_cfg a) then cfg_sqlite_path (app_cfg a) else ''disabled''))
                                    (watchdog_notify_ready (sg_watchdog g) w3)))))"

definition join_all :: "'d env \<Rightarrow> 'd env" where
  "join_all w = snd (syscall (C_pthread_join ''monitor'') (snd (syscall (C_pthread_join ''worker'')
     (snd (syscall (C_pthread_join ''ingress'') w)))))"

definition gateway_app_stop :: "'d gateway_app_t option \<Rightarrow> statics \<Rightarrow> 'd env \<Rightarrow> 'd gateway_app_t option \<times> statics \<times> 'd env" where
  "gateway_app_stop app g w =
     (case app of
        None \<Rightarrow> (None, g, w)
      | Some a \<Rightarrow>
          (case mqtt_session_shutdown (Some (app_mqtt a)) (join_all w) of
             (s, w1) \<Rightarrow>
               (case watchdog_shutdown (sg_watchdog g) w1 of
                  (wd, w2) \<Rightarrow>
                    (Some (a\<lparr>app_running := False, app_mqtt := the s\<rparr>), g\<lparr>sg_watchdog := wd\<rparr>,
                     log_info ''edgeflow stopped'' w2))))"

definition gateway_app_destroy :: "'d gateway_app_t option \<Rightarrow> statics \<Rightarrow> 'd env \<Rightarrow> 'd gateway_app_t option \<times> statics \<times> 'd env" where
  "gateway_app_destroy app g w =
     (case app of
        None \<Rightarrow> (None, g, w)
      | Some a \<Rightarrow>
          (case adapter_registry_shutdown_all (Some (app_registry a)) (sg_ingress g) w of
             (ig, w1) \<Rightarrow>
               let a1 = a\<lparr>app_ring := the (spsc_ring_destroy (Some (app_ring a)))\<rparr>
               in (Some (a1\<lparr>app_storage := None\<rparr>), g\<lparr>sg_ingress := ig\<rparr>,
                   if app_storage a1 \<noteq> None then storage_close (app_storage a1) w1 else w1)))"

subsection \<open>Interleavings\<close>

text \<open>
  A run of the started application: turns of the three threads in any order. The monitor's turn is a
  timer tick (\<open>T_monitor\<close>); the worker's local variable is part of the state.
\<close>

datatype turn = T_ingress | T_worker | T_monitor

fun app_turn :: "turn \<Rightarrow> u64 \<times> 'd machine \<Rightarrow> (u64 \<times> 'd machine) option" where
  "app_turn T_ingress (t, s) = map_option (Pair t) (ingress_turn s)"
| "app_turn T_worker (t, s) = worker_turn t s"
| "app_turn T_monitor (t, app, g, w) = map_option (\<lambda>((app1, g1), w1). (t, app1, g1, w1)) (monitor_on_timer (app, g) w)"

fun app_turns :: "turn list \<Rightarrow> u64 \<times> 'd machine \<Rightarrow> (u64 \<times> 'd machine) option" where
  "app_turns [] s = Some s"
| "app_turns (t # ts) s = Option.bind (app_turn t s) (app_turns ts)"

subsection \<open>Frames\<close>

text \<open>The counters the threads share, and which members each helper leaves alone.\<close>

definition counts :: "gateway_metrics_t \<Rightarrow> u64 \<times> u64 \<times> u64 \<times> u64" where
  "counts m = (gm_ingress_points m, gm_processed_points m, gm_mqtt_publish_ok m, gm_mqtt_publish_fail m)"

lemma touch_frame [frame_simps]:
  "app_cfg (fst (touch t app w)) = app_cfg app"
  "app_registry (fst (touch t app w)) = app_registry app"
  "app_ring (fst (touch t app w)) = app_ring app"
  "app_state_engine (fst (touch t app w)) = app_state_engine app"
  "app_command_scheduler (fst (touch t app w)) = app_command_scheduler app"
  "app_metrics (fst (touch t app w)) = app_metrics app"
  "app_storage (fst (touch t app w)) = app_storage app"
  "app_mqtt (fst (touch t app w)) = app_mqtt app"
  "app_running (fst (touch t app w)) = app_running app"
  by (simp_all add: touch_def split_beta)

lemma store_queue_frame [frame_simps]:
  "app_cfg (store_queue_metrics app) = app_cfg app"
  "app_registry (store_queue_metrics app) = app_registry app"
  "app_ring (store_queue_metrics app) = app_ring app"
  "app_state_engine (store_queue_metrics app) = app_state_engine app"
  "app_command_scheduler (store_queue_metrics app) = app_command_scheduler app"
  "app_storage (store_queue_metrics app) = app_storage app"
  "app_mqtt (store_queue_metrics app) = app_mqtt app"
  "app_heartbeat (store_queue_metrics app) = app_heartbeat app"
  "app_running (store_queue_metrics app) = app_running app"
  "counts (app_metrics (store_queue_metrics app)) = counts (app_metrics app)"
  by (simp_all add: store_queue_metrics_def counts_def)

lemma update_heartbeat_frame [frame_simps]:
  "app_cfg (fst (update_heartbeat_metrics app w)) = app_cfg app"
  "app_registry (fst (update_heartbeat_metrics app w)) = app_registry app"
  "app_ring (fst (update_heartbeat_metrics app w)) = app_ring app"
  "app_state_engine (fst (update_heartbeat_metrics app w)) = app_state_engine app"
  "app_command_scheduler (fst (update_heartbeat_metrics app w)) = app_command_scheduler app"
  "app_storage (fst (update_heartbeat_metrics app w)) = app_storage app"
  "app_mqtt (fst (update_heartbeat_metrics app w)) = app_mqtt app"
  "app_heartbeat (fst (update_heartbeat_metrics app w)) = app_heartbeat app"
  "app_running (fst (update_heartbeat_metrics app w)) = app_running app"
  "counts (app_metrics (fst (update_heartbeat_metrics app w))) = counts (app_metrics app)"
  by (simp_all add: update_heartbeat_metrics_def counts_def Let_def split_beta)

lemma write_metrics_frame [frame_simps]:
  "app_cfg (fst (write_metrics app w)) = app_cfg app"
  "app_registry (fst (write_metrics app w)) = app_registry app"
  "app_ring (fst (write_metrics app w)) = app_ring app"
  "app_state_engine (fst (write_metrics app w)) = app_state_engine app"
  "app_command_scheduler (fst (write_metrics app w)) = app_command_scheduler app"
  "app_storage (fst (write_metrics app w)) = app_storage app"
  "app_mqtt (fst (write_metrics app w)) = app_mqtt app"
  "app_heartbeat (fst (write_metrics app w)) = app_heartbeat app"
  "app_running (fst (write_metrics app w)) = app_running app"
  "counts (app_metrics (fst (write_metrics app w))) = counts (app_metrics app)"
  by (simp_all add: write_metrics_def split_beta frame_simps)

lemma worker_store_frame [frame_simps]:
  "app_cfg (fst (snd (worker_store p app w))) = app_cfg app"
  "app_registry (fst (snd (worker_store p app w))) = app_registry app"
  "app_ring (fst (snd (worker_store p app w))) = app_ring app"
  "app_state_engine (fst (snd (worker_store p app w))) = app_state_engine app"
  "app_command_scheduler (fst (snd (worker_store p app w))) = app_command_scheduler app"
  "app_storage (fst (snd (worker_store p app w))) = app_storage app"
  "app_mqtt (fst (snd (worker_store p app w))) = app_mqtt app"
  "app_heartbeat (fst (snd (worker_store p app w))) = app_heartbeat app"
  "app_running (fst (snd (worker_store p app w))) = app_running app"
  by (simp_all add: worker_store_def Let_def split_beta)

lemma worker_command_frame [frame_simps]:
  "app_cfg (fst (worker_command c (app, g, w))) = app_cfg app"
  "app_registry (fst (worker_command c (app, g, w))) = app_registry app"
  "app_ring (fst (worker_command c (app, g, w))) = app_ring app"
  "app_state_engine (fst (worker_command c (app, g, w))) = app_state_engine app"
  "app_metrics (fst (worker_command c (app, g, w))) = app_metrics app"
  "app_storage (fst (worker_command c (app, g, w))) = app_storage app"
  "app_mqtt (fst (worker_command c (app, g, w))) = app_mqtt app"
  "app_heartbeat (fst (worker_command c (app, g, w))) = app_heartbeat app"
  "app_running (fst (worker_command c (app, g, w))) = app_running app"
  by (simp_all add: worker_command_def Let_def split_beta split: option.split)

lemma worker_decide_frame [frame_simps]:
  "app_cfg (fst (worker_decide p (app, g, w))) = app_cfg app"
  "app_registry (fst (worker_decide p (app, g, w))) = app_registry app"
  "app_ring (fst (worker_decide p (app, g, w))) = app_ring app"
  "app_metrics (fst (worker_decide p (app, g, w))) = app_metrics app"
  "app_storage (fst (worker_decide p (app, g, w))) = app_storage app"
  "app_mqtt (fst (worker_decide p (app, g, w))) = app_mqtt app"
  "app_heartbeat (fst (worker_decide p (app, g, w))) = app_heartbeat app"
  "app_running (fst (worker_decide p (app, g, w))) = app_running app"
  by (simp_all add: worker_decide_def Let_def split_beta frame_simps)

lemma push_points_frame [frame_simps]:
  "app_cfg (push_points ps app) = app_cfg app"
  "app_registry (push_points ps app) = app_registry app"
  "app_state_engine (push_points ps app) = app_state_engine app"
  "app_command_scheduler (push_points ps app) = app_command_scheduler app"
  "app_storage (push_points ps app) = app_storage app"
  "app_mqtt (push_points ps app) = app_mqtt app"
  "app_heartbeat (push_points ps app) = app_heartbeat app"
  "app_running (push_points ps app) = app_running app"
  by (induction ps arbitrary: app) (simp_all add: split_beta)

lemma worker_store_counts [frame_simps]:
  "counts (app_metrics (fst (snd (worker_store p app w)))) =
     (case counts (app_metrics app) of (i, n, ok, fail) \<Rightarrow> (i, n + 1, ok, fail))"
  by (simp add: worker_store_def Let_def split_beta counts_def)

lemma worker_report_frame [frame_simps]:
  "app_cfg (fst (snd (worker_report t (app, g, w)))) = app_cfg app"
  "app_registry (fst (snd (worker_report t (app, g, w)))) = app_registry app"
  "app_ring (fst (snd (worker_report t (app, g, w)))) = app_ring app"
  "app_state_engine (fst (snd (worker_report t (app, g, w)))) = app_state_engine app"
  "app_command_scheduler (fst (snd (worker_report t (app, g, w)))) = app_command_scheduler app"
  "app_storage (fst (snd (worker_report t (app, g, w)))) = app_storage app"
  "app_mqtt (fst (snd (worker_report t (app, g, w)))) = app_mqtt app"
  "app_running (fst (snd (worker_report t (app, g, w)))) = app_running app"
  "counts (app_metrics (fst (snd (worker_report t (app, g, w))))) = counts (app_metrics app)"
  "fst (snd (snd (worker_report t (app, g, w)))) = g"
  by (simp_all add: worker_report_def Let_def split_beta frame_simps)
    (simp_all add: counts_def store_queue_metrics_def touch_def split_beta)

subsection \<open>What a turn does\<close>

lemma worker_publish_effect:
  assumes "worker_publish p i (app, g, w) = Some (app', g', w')"
  shows "g' = g" "app_cfg app' = app_cfg app" "app_registry app' = app_registry app" "app_ring app' = app_ring app"
    "app_state_engine app' = app_state_engine app" "app_storage app' = app_storage app" "app_running app' = app_running app"
    "app_command_scheduler app' = app_command_scheduler app"
    "case counts (app_metrics app) of (a, b, ok, fail) \<Rightarrow>
       counts (app_metrics app') \<in> {(a, b, ok + 1, fail), (a, b, ok, fail + 1)}"
  using assms by (auto simp: worker_publish_def bind_eq_Some_conv Let_def counts_def split: if_splits)

definition engine_after :: "gateway_config_t \<Rightarrow> state_engine_t \<Rightarrow> telemetry_t \<Rightarrow> u64 \<Rightarrow> state_engine_t" where
  "engine_after cfg e p i = the (fst (snd (state_engine_process_telemetry (Some e) (Some cfg) (Some p)
     (Some alarm_zero) (Some command_zero) i (tl_ts_ms p))))"

lemma worker_decide_engine:
  "app_state_engine (fst (worker_decide p (app, g, w))) =
     engine_after (app_cfg app) (app_state_engine app) p (cs_next_command_id (app_command_scheduler app))"
  by (simp add: worker_decide_def Let_def split_beta frame_simps engine_after_def)

lemma ring_pop_some:
  "spsc_ring_pop (Some r) (Some telemetry_zero) = (ok, x, r') \<Longrightarrow>
     fst (ring_pop r) = (if ok then x else None) \<and> snd (ring_pop r) = the r'"
  by (simp add: ring_pop_def)

lemma ring_pop_x: "spsc_ring_pop (Some r) (Some telemetry_zero) = (ok, x, r') \<Longrightarrow> x \<noteq> None"
  by (auto simp: spsc_ring_pop_def Let_def split: option.splits if_splits)

text \<open>A worker's turn is a nap on an empty ring, or one point through store, engine, broker and report.\<close>

lemma worker_turn_cases:
  assumes "worker_turn t (app, g, w) = Some (t', app', g', w')"
  obtains (idle) r where "fst (ring_pop (app_ring app)) = None" "snd (ring_pop (app_ring app)) = r"
      "app' = fst (touch HEARTBEAT_THREAD_WORKER (app\<lparr>app_ring := r\<rparr>) w)" "g' = g" "t' = t"
      "edgeflow_sleep_ms 20 (snd (touch HEARTBEAT_THREAD_WORKER (app\<lparr>app_ring := r\<rparr>) w)) = Some w'"
  | (point) p q r row app2 w2 app3 g3 w3 app4 g4 w4 where "fst (ring_pop (app_ring app)) = Some p"
      "snd (ring_pop (app_ring app)) = r" "q = apply_quality_rules (app_cfg app) p"
      "worker_store q (app\<lparr>app_ring := r\<rparr>) w = (row, app2, w2)" "worker_decide q (app2, g, w2) = (app3, g3, w3)"
      "worker_publish q row (app3, g3, w3) = Some (app4, g4, w4)" "worker_report t (app4, g4, w4) = (t', app', g', w')"
proof -
  obtain ok x r where pop: "spsc_ring_pop (Some (app_ring app)) (Some telemetry_zero) = (ok, x, r)" by (metis prod_cases3)
  note rp = ring_pop_some [OF pop]
  note d = assms [unfolded worker_turn_def Let_def prod.case pop]
  show ?thesis
  proof (cases ok)
    case False
    then show ?thesis using d idle [of "the r"] rp by (auto simp: split_beta)
  next
    case True
    obtain p where x: "x = Some p" using ring_pop_x [OF pop] by blast
    let ?q = "apply_quality_rules (app_cfg app) p"
    obtain row app2 w2 where st: "worker_store ?q (app\<lparr>app_ring := the r\<rparr>) w = (row, app2, w2)" by (metis prod_cases3)
    obtain app3 g3 w3 where de: "worker_decide ?q (app2, g, w2) = (app3, g3, w3)" by (metis prod_cases3)
    obtain app4 g4 w4 where "worker_publish ?q row (app3, g3, w3) = Some (app4, g4, w4)"
      "worker_report t (app4, g4, w4) = (t', app', g', w')"
      using d True x st de by auto
    then show ?thesis using point [OF _ _ refl st de] rp True x by simp
  qed
qed

text \<open>
  The worker's turn either finds the ring empty and only shows that it is alive, or takes one point,
  which is counted as processed, judged by the engine, and counted as published or failed.
\<close>

lemma worker_turn_effect:
  assumes "worker_turn t (app, g, w) = Some (t', app', g', w')"
  shows "app_cfg app' = app_cfg app \<and> app_registry app' = app_registry app \<and> app_storage app' = app_storage app \<and>
    app_running app' = app_running app \<and> app_ring app' = snd (ring_pop (app_ring app)) \<and>
    (case fst (ring_pop (app_ring app)) of
       None \<Rightarrow> app_state_engine app' = app_state_engine app \<and> counts (app_metrics app') = counts (app_metrics app)
     | Some p \<Rightarrow>
         app_state_engine app' = engine_after (app_cfg app) (app_state_engine app) (apply_quality_rules (app_cfg app) p)
           (cs_next_command_id (app_command_scheduler app)) \<and>
         (case counts (app_metrics app) of (a, b, ok, fail) \<Rightarrow>
           counts (app_metrics app') \<in> {(a, b + 1, ok + 1, fail), (a, b + 1, ok, fail + 1)}))"
  using assms
proof (cases rule: worker_turn_cases)
  case (idle r)
  then show ?thesis by (simp add: frame_simps)
next
  case (point p q r row app2 w2 app3 g3 w3 app4 g4 w4)
  note f2 = worker_store_frame [of q "app\<lparr>app_ring := r\<rparr>" w, unfolded point(4), simplified]
    worker_store_counts [of q "app\<lparr>app_ring := r\<rparr>" w, unfolded point(4), simplified]
  note f3 = worker_decide_frame [of q app2 g w2, unfolded point(5), simplified]
    worker_decide_engine [of q app2 g w2, unfolded point(5), simplified]
  note f5 = worker_report_frame [of t app4 g4 w4, unfolded point(7), simplified]
  show ?thesis using point(1-3) f2 f3 worker_publish_effect [OF point(6)] f5 by (auto split: prod.splits)
qed

lemma ingress_turn_effect:
  assumes "ingress_turn (app, g, w) = Some (app', g', w')"
  shows "app_cfg app' = app_cfg app" "app_registry app' = app_registry app" "app_storage app' = app_storage app"
    "app_running app' = app_running app" "app_state_engine app' = app_state_engine app" "app_mqtt app' = app_mqtt app"
    "\<exists>ps. app_ring app' = app_ring (push_points ps app) \<and> counts (app_metrics app') = counts (app_metrics (push_points ps app))"
proof -
  obtain n points ig w1 where po: "adapter_registry_poll_all (Some (app_registry app)) (Some (replicate 8 telemetry_zero)) 8
      (sg_ingress g) w = (n, points, ig, w1)" by (metis prod_cases4)
  define ps where "ps = (if 0 < n then take (nat n) (the points) else [])"
  have "app' = store_queue_metrics (fst (touch HEARTBEAT_THREAD_INGRESS (push_points ps app) w1))"
    using assms po by (auto simp: ingress_turn_def Let_def split_beta ps_def split: if_splits)
  then show "app_cfg app' = app_cfg app" "app_registry app' = app_registry app" "app_storage app' = app_storage app"
    "app_running app' = app_running app" "app_state_engine app' = app_state_engine app" "app_mqtt app' = app_mqtt app"
    "\<exists>ps. app_ring app' = app_ring (push_points ps app) \<and> counts (app_metrics app') = counts (app_metrics (push_points ps app))"
    by (auto simp: frame_simps)
qed

lemma replay_rows_metrics:
  assumes "replay_rows st rows k m s w = Some (k', m', s', w')"
  shows "map_option counts m' = map_option counts m"
  using assms
proof (induction st rows k m s w rule: replay_rows.induct)
  case (2 st r rows k m s w)
  obtain rc w1 where p: "mqtt_send_publish (ms_fd s) (cfg_mqtt_topic (ms_cfg s)) (telemetry_to_json (sr_point r) 384) w = Some (rc, w1)"
    using "2.prems" by (auto simp: bind_eq_Some_conv)
  obtain mrc w2 where mk: "storage_mark_telemetry_uploaded st (sr_row_id r) w1 = (mrc, w2)" by (metis prod.exhaust)
  have "map_option counts (map_option (\<lambda>m. m\<lparr>gm_mqtt_replay_total := gm_mqtt_replay_total m + 1\<rparr>) m) = map_option counts m"
    by (cases m) (simp_all add: counts_def)
  then show ?case
    using "2.IH"(1) [OF p refl _ mk [symmetric]] "2.IH"(2) [OF p refl _ mk [symmetric]] "2.prems" p mk
    by (auto split: if_splits prod.splits)
qed simp

lemma replay_metrics:
  assumes "mqtt_session_replay_pending (Some s) st (Some m) w = Some (k, s', m', w')"
  shows "\<exists>m1. m' = Some m1 \<and> counts m1 = counts m"
proof (cases st)
  case None
  then show ?thesis using assms by (auto simp: mqtt_session_replay_pending_def)
next
  case (Some c)
  show ?thesis
    using assms unfolding Some
  proof (cases rule: replay_pending_cases)
    case (fetched frc rows cnt w1 rc s1 w2 m1 s2 w3 x w4)
    have "map_option counts m1 = Some (counts m)" using fetched(3) replay_rows_metrics by (fastforce split: if_splits)
    then show ?thesis using fetched(6) by (auto simp: counts_def)
  qed auto
qed

lemma monitor_effect:
  assumes "monitor_on_timer (app, g) w = Some ((app', g'), w')"
  shows "g' = g" "app_cfg app' = app_cfg app" "app_registry app' = app_registry app" "app_storage app' = app_storage app"
    "app_running app' = app_running app" "app_state_engine app' = app_state_engine app" "app_ring app' = app_ring app"
    "app_command_scheduler app' = app_command_scheduler app"
    "counts (app_metrics app') = counts (app_metrics app)"
proof -
  let ?a = "fst (touch HEARTBEAT_THREAD_MONITOR app w)"
  have "g' = g \<and> (app' = app \<or> (\<exists>s m u. counts m = counts (app_metrics app) \<and>
      app' = fst (write_metrics (?a\<lparr>app_mqtt := s, app_metrics := m\<rparr>) u)))"
    using assms replay_metrics(1)
    by (fastforce simp: monitor_on_timer_def Let_def split_beta bind_eq_Some_conv frame_simps split: if_splits)
  then show "g' = g" "app_cfg app' = app_cfg app" "app_registry app' = app_registry app" "app_storage app' = app_storage app"
    "app_running app' = app_running app" "app_state_engine app' = app_state_engine app" "app_ring app' = app_ring app"
    "app_command_scheduler app' = app_command_scheduler app"
    "counts (app_metrics app') = counts (app_metrics app)"
    by (auto simp: frame_simps)
qed

subsection \<open>Invariants of all interleavings\<close>

locale turn_invariant =
  fixes I :: "'d gateway_app_t \<Rightarrow> statics \<Rightarrow> 'd env \<Rightarrow> bool"
  assumes ingress: "I app g w \<Longrightarrow> ingress_turn (app, g, w) = Some (app', g', w') \<Longrightarrow> I app' g' w'"
    and worker: "I app g w \<Longrightarrow> worker_turn t (app, g, w) = Some (t', app', g', w') \<Longrightarrow> I app' g' w'"
    and monitor: "I app g w \<Longrightarrow> monitor_on_timer (app, g) w = Some ((app', g'), w') \<Longrightarrow> I app' g' w'"
begin

lemma turn: "I app g w \<Longrightarrow> app_turn u (t, app, g, w) = Some (t', app', g', w') \<Longrightarrow> I app' g' w'"
proof (cases u)
  case T_ingress
  then show "I app g w \<Longrightarrow> app_turn u (t, app, g, w) = Some (t', app', g', w') \<Longrightarrow> I app' g' w'"
    using ingress by simp
next
  case T_worker
  then show "I app g w \<Longrightarrow> app_turn u (t, app, g, w) = Some (t', app', g', w') \<Longrightarrow> I app' g' w'"
    using worker by simp
next
  case T_monitor
  then show "I app g w \<Longrightarrow> app_turn u (t, app, g, w) = Some (t', app', g', w') \<Longrightarrow> I app' g' w'"
    using monitor by (auto split: prod.splits)
qed

lemma turns: "I app g w \<Longrightarrow> app_turns us (t, app, g, w) = Some (t', app', g', w') \<Longrightarrow> I app' g' w'"
proof (induction us arbitrary: t app g w)
  case (Cons u us)
  then obtain t1 app1 g1 w1 where "app_turn u (t, app, g, w) = Some (t1, app1, g1, w1)"
    "app_turns us (t1, app1, g1, w1) = Some (t', app', g', w')" by (auto simp: bind_eq_Some_conv)
  then show ?case using Cons.IH turn [OF Cons.prems(1)] by blast
qed simp

end

text \<open>
  The engine never sees an over-temperature: its snapshot stays at or below the limit.
\<close>

definition engine_cool :: "gateway_config_t \<Rightarrow> 'd gateway_app_t \<Rightarrow> statics \<Rightarrow> 'd env \<Rightarrow> bool" where
  "engine_cool cfg app g w \<longleftrightarrow> app_cfg app = cfg \<and> se_state (app_state_engine app) \<noteq> SYSTEM_STATE_FAULT \<and>
     \<not> dlt (cfg_temp_high cfg) (se_max_cell_temp_c (app_state_engine app))"

lemma engine_after_cool:
  assumes "se_state e \<noteq> SYSTEM_STATE_FAULT" "\<not> dlt (cfg_temp_high cfg) (se_max_cell_temp_c e)"
  shows "se_state (engine_after cfg e (apply_quality_rules cfg p) i) \<noteq> SYSTEM_STATE_FAULT \<and>
    \<not> dlt (cfg_temp_high cfg) (se_max_cell_temp_c (engine_after cfg e (apply_quality_rules cfg p) i))"
proof (cases "tl_quality (apply_quality_rules cfg p) = TELEMETRY_QUALITY_GOOD")
  case False
  then show ?thesis using assms by (simp add: engine_after_def state_engine_process_telemetry_def)
next
  case True
  let ?p = "apply_quality_rules cfg p"
  have "\<not> (tl_point_id ?p = ''max_cell_temp_c'' \<and> dlt (cfg_temp_high cfg) (tl_value ?p))"
    using True by (auto simp: apply_quality_rules_def split: if_splits)
  then have cool: "\<not> dlt (cfg_temp_high cfg) (se_max_cell_temp_c (snd (update_snapshot e ?p)))"
    "se_state (snd (update_snapshot e ?p)) \<noteq> SYSTEM_STATE_FAULT"
    using assms by (auto simp: update_snapshot_def)
  show ?thesis using cool True
    by (auto simp: engine_after_def state_engine_process_telemetry_def Let_def split: prod.splits)
qed

subsection \<open>Initialisation\<close>

text \<open>The one registered adapter, after its own initialisation.\<close>

definition modbus_slot :: "gateway_config_t \<Rightarrow> 'd device_adapter" where
  "modbus_slot c = (let a = the (modbus_adapter_fill (Some adapter_blank))
     in a\<lparr>da_self := (da_self a)\<lparr>da_protocol := if cfg_modbus_transport c = ''tcp'' then DEVICE_PROTOCOL_MODBUS_TCP
       else DEVICE_PROTOCOL_MODBUS_RTU\<rparr>\<rparr>)"

lemma register_modbus:
  "adapter_registry_register (adapter_registry_init (Some r)) (modbus_adapter_fill (Some adapter_blank)) =
     (ADAPTER_OK, Some \<lparr>reg_slots = [the (modbus_adapter_fill (Some adapter_blank))]\<rparr>)"
  by (simp add: adapter_registry_register_def adapter_registry_init_def modbus_adapter_fill_def)

lemma init_modbus:
  "\<exists>m. \<forall>ig w. adapter_registry_init_all (Some \<lparr>reg_slots = [the (modbus_adapter_fill (Some adapter_blank))]\<rparr>) (Some c) ig w =
     (0, Some \<lparr>reg_slots = [modbus_slot c]\<rparr>, ig\<lparr>ig_modbus_cfg := Some c\<rparr>, log_info m w)"
  by (rule exI [of _ "''modbus adapter init: simulate='' @ show_bool (cfg_simulate c) @ '' transport='' @
      cfg_modbus_transport c @ '' serial='' @ cfg_serial_device c"])
    (simp add: adapter_registry_init_all_def modbus_adapter_fill_def modbus_init_def modbus_slot_def)

lemma modbus_slot_simps [simp]:
  "da_poll (modbus_slot c) = Some modbus_poll" "da_shutdown (modbus_slot c) = Some modbus_shutdown"
  "da_write_command (modbus_slot c) = Some modbus_write_command"
  by (simp_all add: modbus_slot_def modbus_adapter_fill_def)

text \<open>
  The branches of \<^verbatim>\<open>gateway_app_init\<close>: the store may fail to open, the ring may be refused or
  have no memory; registration and initialisation of the adapter cannot fail.
\<close>

lemma gateway_app_init_cases:
  fixes w :: "'d env"
  assumes "gateway_app_init (Some a) (Some c) g w = (rc, app, g', w')" "app_cleared c w = (app0, w0)"
    "storage_open True (Some c) w0 = (src, st, w1)"
  obtains "src \<noteq> 0" "rc = - 1" "app = Some (app0\<lparr>app_storage := st\<rparr>)" "g' = g" "w' = log_error ''storage_open failed'' w1"
  | m rrc ring w4 ig w5 where "src = 0" "ring_setup (cfg_queue_size c) (app_ring app0) (log_info m w1) = (rrc, ring, w4)"
      "rrc \<noteq> 0" "shutdown_slots [modbus_slot c] ((sg_ingress g)\<lparr>ig_modbus_cfg := Some c\<rparr>) w4 = (ig, w5)"
      "rc = - 1" "g' = g\<lparr>sg_ingress := ig\<rparr>" "w' = storage_close st w5"
      "app = Some (app0\<lparr>app_storage := None, app_registry := \<lparr>reg_slots = [modbus_slot c]\<rparr>, app_ring := ring\<rparr>)"
  | m ring w4 wd where "src = 0" "ring_setup (cfg_queue_size c) (app_ring app0) (log_info m w1) = (0, ring, w4)"
      "watchdog_init (cfg_watchdog_interval_ms c) (sg_watchdog g) w4 = (wd, w')" "rc = 0"
      "g' = g\<lparr>sg_ingress := (sg_ingress g)\<lparr>ig_modbus_cfg := Some c\<rparr>, sg_watchdog := wd\<rparr>"
      "app = Some (app0\<lparr>app_storage := st, app_registry := \<lparr>reg_slots = [modbus_slot c]\<rparr>, app_ring := ring\<rparr>)"
proof (cases "src = 0")
  case False
  then show ?thesis using assms that(1) by (auto simp: gateway_app_init_def)
next
  case True
  obtain m where m: "\<And>ig w. adapter_registry_init_all (Some \<lparr>reg_slots = [the (modbus_adapter_fill (Some adapter_blank))]\<rparr>) (Some c) ig w =
     (0, Some \<lparr>reg_slots = [modbus_slot c]\<rparr>, ig\<lparr>ig_modbus_cfg := Some c\<rparr>, log_info m (w :: 'd env))"
    using init_modbus [of c] by blast
  obtain rrc ring w4 where r: "ring_setup (cfg_queue_size c) (app_ring app0) (log_info m w1) = (rrc, ring, w4)"
    by (metis prod_cases3)
  obtain ig w5 where sh: "shutdown_slots [modbus_slot c] ((sg_ingress g)\<lparr>ig_modbus_cfg := Some c\<rparr>) w4 = (ig, w5)"
    by (metis prod.exhaust)
  obtain wd w6 where wd: "watchdog_init (cfg_watchdog_interval_ms c) (sg_watchdog g) w4 = (wd, w6)" by (metis prod.exhaust)
  have eq: "gateway_app_init (Some a) (Some c) g w = (if rrc \<noteq> 0
      then (- 1, Some (app0\<lparr>app_storage := None, app_registry := \<lparr>reg_slots = [modbus_slot c]\<rparr>, app_ring := ring\<rparr>),
        g\<lparr>sg_ingress := ig\<rparr>, storage_close st w5)
      else (0, Some (app0\<lparr>app_storage := st, app_registry := \<lparr>reg_slots = [modbus_slot c]\<rparr>, app_ring := ring\<rparr>),
        g\<lparr>sg_ingress := (sg_ingress g)\<lparr>ig_modbus_cfg := Some c\<rparr>, sg_watchdog := wd\<rparr>, w6))"
    using assms(2,3) True r sh wd
    by (simp add: gateway_app_init_def register_modbus m adapter_registry_shutdown_all_def del: shutdown_slots.simps)
  show ?thesis
  proof (cases "rrc = 0")
    case False
    then show ?thesis using that(2) [OF True r False sh] eq assms(1) by simp
  next
    case rrc: True
    then show ?thesis using that(3) [OF True] r wd eq assms(1) by simp
  qed
qed

lemma app_cleared_simps:
  assumes "app_cleared c w = (app, w')"
  shows "app_cfg app = c" "se_state (app_state_engine app) = SYSTEM_STATE_INIT" "se_max_cell_temp_c (app_state_engine app) = Fin 0"
    "counts (app_metrics app) = (0, 0, 0, 0)" "app_mqtt app = \<lparr>ms_cfg = c, ms_fd = - 1, ms_connected = False\<rparr>"
    "\<not> app_running app" "w' = snd (edgeflow_now_ms w)" "app_storage app = None"
  using assms
  by (auto simp: app_cleared_def Let_def state_engine_init_def metrics_init_def metrics_zero_def counts_def mqtt_session_init_def
      heartbeat_registry_init_def gateway_app_zero_def split: prod.splits)

lemma ring_setup_wf: "ring_setup sz r w = (0, ring, w') \<Longrightarrow> ring_wf ring \<and> ring_items ring = []"
  using ring_init_wf [of True r sz] ring_init_wf [of False r sz]
  by (auto simp: ring_setup_def spsc_ring_init_def split: if_splits prod.splits)

lemma app_init_started:
  assumes "gateway_app_init (Some a) (Some c) g w = (0, Some app, g', w')"
  shows "app_cfg app = c" "engine_cool c app g2 w2 \<longleftrightarrow> \<not> dlt (cfg_temp_high c) (Fin 0)"
    "app_registry app = \<lparr>reg_slots = [modbus_slot c]\<rparr>" "app_mqtt app = \<lparr>ms_cfg = c, ms_fd = - 1, ms_connected = False\<rparr>"
proof -
  obtain app0 w0 where c0: "app_cleared c w = (app0, w0)" by (metis prod.exhaust)
  obtain src st w1 where so: "storage_open True (Some c) w0 = (src, st, w1)" by (metis prod_cases3)
  note s = app_cleared_simps [OF c0]
  have "app_cfg app = c \<and> (engine_cool c app g2 w2 \<longleftrightarrow> \<not> dlt (cfg_temp_high c) (Fin 0)) \<and>
    app_registry app = \<lparr>reg_slots = [modbus_slot c]\<rparr> \<and> app_mqtt app = \<lparr>ms_cfg = c, ms_fd = - 1, ms_connected = False\<rparr>"
  proof (cases rule: gateway_app_init_cases [OF assms c0 so])
    case (3 m ring w4 wd)
    then show ?thesis using s by (auto simp: engine_cool_def)
  qed simp_all
  then show "app_cfg app = c" "engine_cool c app g2 w2 \<longleftrightarrow> \<not> dlt (cfg_temp_high c) (Fin 0)"
    "app_registry app = \<lparr>reg_slots = [modbus_slot c]\<rparr>" "app_mqtt app = \<lparr>ms_cfg = c, ms_fd = - 1, ms_connected = False\<rparr>" by blast+
qed

lemma app_run_started:
  assumes "gateway_app_run (Some app) g w = (0, Some app', w')"
  shows "app' = app\<lparr>app_running := True\<rparr>"
  using assms by (auto simp: gateway_app_run_def Let_def split: if_splits prod.splits)

lemma started_cool:
  assumes "gateway_app_init (Some a) (Some c) g w = (0, Some app0, g1, w1)" "gateway_app_run (Some app0) g1 w1 = (0, Some app, w2)"
  shows "\<not> dlt (cfg_temp_high c) (Fin 0) \<Longrightarrow> engine_cool c app g2 w3"
  using app_init_started(2) [OF assms(1)] app_run_started [OF assms(2)] by (simp add: engine_cool_def)

subsection \<open>A gateway that starts\<close>

text \<open>Memory is there, SQLite works, threads start, sleeps finish at once; there is no service manager.\<close>

definition demo_host :: "mem_db env" where
  "demo_host = demo_storage_env\<lparr>env_ret := (\<lambda>k. if k < 3 then 1 else 0)\<rparr>"

definition demo_statics :: statics where
  "demo_statics = \<lparr>sg_ingress = ingress_zero, sg_watchdog = watchdog_initial\<rparr>"

lemma demo_host_simps [simp]:
  "env_ret demo_host = (\<lambda>k. if k < 3 then 1 else 0)" "env_n demo_host = 0" "env_getenv demo_host = (\<lambda>_. None)"
  "env_sqlite demo_host = mem_api"
  by (simp_all add: demo_host_def demo_storage_env_def)

definition host_ready :: "mem_db env \<Rightarrow> bool" where
  "host_ready w \<longleftrightarrow> (\<forall>k. (k < 3 \<longrightarrow> env_ret w (env_n w + k) = 1) \<and> (3 \<le> k \<and> k < 8 \<longrightarrow> env_ret w (env_n w + k) = 0)) \<and>
     (\<forall>m. \<exists>k\<ge>m. env_ret w k = 0) \<and> env_getenv w = (\<lambda>_. None) \<and> env_sqlite w = mem_api"

lemma host_ready_ret:
  assumes "host_ready h"
  shows "env_ret h (env_n h) = 1" "env_ret h (Suc (env_n h)) = 1" "env_ret h (Suc (Suc (env_n h))) = 1"
    "env_ret h (env_n h + 3) = 0" "env_ret h (4 + env_n h) = 0" "env_ret h (5 + env_n h) = 0" "env_ret h (6 + env_n h) = 0"
proof -
  have r: "(k < 3 \<longrightarrow> env_ret h (env_n h + k) = 1) \<and> (3 \<le> k \<and> k < 8 \<longrightarrow> env_ret h (env_n h + k) = 0)" for k
    using assms by (simp add: host_ready_def)
  show "env_ret h (env_n h) = 1" "env_ret h (Suc (env_n h)) = 1" "env_ret h (Suc (Suc (env_n h))) = 1"
    "env_ret h (env_n h + 3) = 0" "env_ret h (4 + env_n h) = 0" "env_ret h (5 + env_n h) = 0" "env_ret h (6 + env_n h) = 0"
    using r [of 0] r [of 1] r [of 2] r [of 3] r [of 4] r [of 5] r [of 6] by (simp_all add: add.commute)
qed

lemma demo_host_ready [simp]: "host_ready demo_host"
proof -
  have "\<exists>k\<ge>m. env_ret demo_host k = 0" for m by (rule exI [of _ "m + 3"]) simp
  then show ?thesis by (simp add: host_ready_def)
qed

lemma init_ready:
  assumes ready: "host_ready h"
  shows "\<exists>app g w. gateway_app_init (Some gateway_app_zero) (Some gateway_config_defaults) demo_statics h = (0, Some app, g, w) \<and>
     env_ret w = env_ret h \<and> env_sqlite w = mem_api \<and> env_n w = env_n h + 3 \<and> sg_ingress g = ingress_zero\<lparr>ig_modbus_cfg := Some gateway_config_defaults\<rparr>"
proof -
  note h = ready [unfolded host_ready_def, THEN conjunct2, THEN conjunct2] host_ready_ret [OF ready]
  let ?c = gateway_config_defaults
  obtain app0 w0 where c0: "app_cleared ?c h = (app0, w0)" by (metis prod.exhaust)
  have w0: "w0 = snd (edgeflow_now_ms h)" using app_cleared_simps(7) [OF c0] .
  have cfg: "cfg_use_sqlite ?c" "\<not> cfg_queue_size ?c < 2" by (simp_all add: gateway_config_defaults_def)
  obtain src st w1 where so: "storage_open True (Some ?c) w0 = (src, st, w1)" by (metis prod_cases3)
  have s: "src = 0" "env_ret w1 = env_ret h" "env_n w1 = env_n h + 2" "env_getenv w1 = env_getenv h" "env_sqlite w1 = mem_api"
    using so cfg h
    by (auto simp: storage_open_def w0 frame_simps split_beta db_open_def mem_api_def sqlite_exec_schema_def db_exec_def db_close_def
        split: if_splits)
  obtain rc app g w where init: "gateway_app_init (Some gateway_app_zero) (Some ?c) demo_statics h = (rc, app, g, w)"
    by (metis prod_cases4)
  have ring: "fst (ring_setup (cfg_queue_size ?c) r (log_info m w1)) = 0" "env_ret (snd (snd (ring_setup (cfg_queue_size ?c) r (log_info m w1)))) = env_ret h"
    "env_n (snd (snd (ring_setup (cfg_queue_size ?c) r (log_info m w1)))) = env_n h + 3"
    "env_getenv (snd (snd (ring_setup (cfg_queue_size ?c) r (log_info m w1)))) = env_getenv h"
    "env_sqlite (snd (snd (ring_setup (cfg_queue_size ?c) r (log_info m w1)))) = mem_api" for r m
    using cfg(2) s h by (simp_all add: ring_setup_def spsc_ring_init_def split_beta frame_simps)
  show ?thesis
  proof (cases rule: gateway_app_init_cases [OF init c0 so])
    case 1
    then show ?thesis using s by simp
  next
    case (2 m rrc ring w4 ig w5)
    then show ?thesis using ring(1) [of "app_ring app0" m] by simp
  next
    case (3 m ring' w4 wd)
    have "env_ret w4 = env_ret h" "env_n w4 = env_n h + 3" "env_getenv w4 = env_getenv h" "env_sqlite w4 = mem_api"
      using ring(2-5) [of "app_ring app0" m] 3(2) by simp_all
    then have "w = w4" using 3(3) h by (simp add: watchdog_init_def open_notify_socket_def)
    then show ?thesis using 3 init \<open>env_ret w4 = _\<close> \<open>env_n w4 = env_n h + 3\<close> \<open>env_sqlite w4 = mem_api\<close> by (auto simp: demo_statics_def)
  qed
qed

lemma start_ready:
  assumes ready: "host_ready h"
  shows "\<exists>app0 g1 w1 app1 w2 app2 g2 w3. gateway_app_init (Some gateway_app_zero) (Some gateway_config_defaults) demo_statics h =
      (0, Some app0, g1, w1) \<and> gateway_app_run (Some app0) g1 w1 = (0, Some app1, w2) \<and>
     app_turns [T_ingress] (0, app1, g1, w2) = Some (0, app2, g2, w3) \<and> env_ret w2 = env_ret h \<and> env_sqlite w2 = mem_api"
proof -
  let ?c = gateway_config_defaults
  obtain app0 g1 w1 where i: "gateway_app_init (Some gateway_app_zero) (Some ?c) demo_statics h = (0, Some app0, g1, w1)"
    "env_ret w1 = env_ret h" "env_n w1 = env_n h + 3" "env_sqlite w1 = mem_api" "sg_ingress g1 = ingress_zero\<lparr>ig_modbus_cfg := Some ?c\<rparr>" using init_ready [OF ready] by blast
  note h = ready [unfolded host_ready_def, THEN conjunct2, THEN conjunct2] host_ready_ret [OF ready]
  obtain w2 where r: "gateway_app_run (Some app0) g1 w1 = (0, Some (app0\<lparr>app_running := True\<rparr>), w2)" "env_ret w2 = env_ret h" "env_sqlite w2 = mem_api"
    using i h by (auto simp: gateway_app_run_def Let_def frame_simps split_beta watchdog_notify_ready_def send_notify_def)
  let ?app = "app0\<lparr>app_running := True\<rparr>"
  obtain n points ig w3 where po: "adapter_registry_poll_all (Some (app_registry ?app)) (Some (replicate 8 telemetry_zero)) 8
      (sg_ingress g1) w2 = (n, points, ig, w3)" by (metis prod_cases4)
  have "env_ret w3 = env_ret h"
    using po r(2) i(5) app_init_started(3) [OF i(1)]
    by (auto simp: adapter_registry_poll_all_def modbus_poll_def modbus_rtu_poll_def modbus_slot_def modbus_adapter_fill_def
        modbus_poll_simulate_def gateway_config_defaults_def Let_def split_beta frame_simps)
  then have "\<exists>w'. edgeflow_sleep_ms ms (snd (touch HEARTBEAT_THREAD_INGRESS a w3)) = Some w'" for ms a
  proof -
    let ?w = "snd (touch HEARTBEAT_THREAD_INGRESS a w3)"
    obtain k where "env_n ?w \<le> k" "env_ret h k = 0" using ready by (auto simp: host_ready_def)
    moreover have "env_ret ?w = env_ret h" using \<open>env_ret w3 = env_ret h\<close> by (simp add: touch_def heartbeat_touch_def split_beta frame_simps)
    ultimately show ?thesis unfolding edgeflow_sleep_ms_def by (intro nanosleep_loop_returns [where k = "k - env_n ?w"]) simp
  qed
  then obtain app2 g2 w4 where "ingress_turn (?app, g1, w2) = Some (app2, g2, w4)"
    using po by (auto simp: ingress_turn_def Let_def split_beta)
  then show ?thesis using i r by auto
qed

lemmas demo_start = start_ready [OF demo_host_ready]
lemmas demo_init = init_ready [OF demo_host_ready]

end
