(* ===== verification/Gateway_Lifecycle.thy ===== *)
theory Gateway_Lifecycle
  imports Gateway_App
begin

text \<open>
  The gateway runtime against its surroundings: which parts of a turn leave descriptors and
  telemetry rows alone, what a worker's turn does to the pending list, and that starting,
  running and stopping the gateway leaks no descriptor on any path.
\<close>

subsection \<open>Tame steps\<close>

text \<open>
  A step is tame when it only adds to the calls made, opens and closes no descriptor and, if SQLite keeps the
  telemetry rows apart from its other work, changes no row. With \<open>rows\<close> constant the last part is empty.
\<close>

definition quiet_sql :: "'d sqlite_api \<Rightarrow> ('d \<Rightarrow> 'r) \<Rightarrow> bool" where
  "quiet_sql api rows \<longleftrightarrow> (\<forall>d sql. rows (snd (sq_prepare api d sql)) = rows d) \<and>
     (\<forall>d vals. rows (snd (sq_step api d SQL_INSERT_ALARM vals)) = rows d) \<and>
     (\<forall>d vals. rows (snd (sq_step api d SQL_INSERT_COMMAND vals)) = rows d) \<and>
     (\<forall>d. rows (snd (sq_rows api d SQL_COUNT_PENDING [])) = rows d)"

lemma quiet_sql_laws: "sqlite_laws api rows \<Longrightarrow> quiet_sql api rows"
  by (auto simp: sqlite_laws_def law_other_def law_count_def quiet_sql_def) (metis prod.collapse)

definition tame :: "('d \<Rightarrow> 'r) \<Rightarrow> 'd env \<Rightarrow> 'd env \<Rightarrow> bool" where
  "tame rows w w' \<longleftrightarrow> env_sqlite w' = env_sqlite w \<and> env_ret w' = env_ret w \<and> env_errno w' = env_errno w \<and> (\<forall>fd. fd_balance fd (env_calls w') = fd_balance fd (env_calls w)) \<and>
     (\<exists>cs. env_calls w' = env_calls w @ cs) \<and> (quiet_sql (env_sqlite w) rows \<longrightarrow> rows (env_db w') = rows (env_db w))"

lemma tame_refl [simp, intro]: "tame rows w w"
  by (simp add: tame_def)

lemma tame_trans [trans]: "tame rows a b \<Longrightarrow> tame rows b c \<Longrightarrow> tame rows a c"
  by (auto simp: tame_def)

lemma tame_after: "tame rows b c \<Longrightarrow> tame rows a b \<Longrightarrow> tame rows a c"
  by (rule tame_trans)

lemma tame_syscall: "\<not> opens c \<Longrightarrow> (\<And>f. c \<noteq> C_close f) \<Longrightarrow> tame rows w (snd (syscall c w))"
  by (simp add: tame_def frame_simps)

lemma tame_log [simp]: "tame rows w (log_info m w)" "tame rows w (log_warn m w)" "tame rows w (log_error m w)"
  by (simp_all add: tame_def frame_simps)

lemma tame_now [simp]: "tame rows w (snd (edgeflow_now_ms w))"
  by (simp add: tame_def frame_simps)

lemma tame_file [simp]: "tame rows w (append_file p t w)" "tame rows w (truncate_file p w)"
  by (simp_all add: tame_def frame_simps)

lemma nanosleep_balance:
  assumes "nanosleep_loop s ns w = Some w'"
  shows "tame rows w w'"
proof (rule nanosleep_loop.raw_induct [OF _ assms])
  fix f s ns and w w' :: "'a env"
  assume IH: "\<And>s ns (w :: 'a env) w'. f s ns w = Some w' \<Longrightarrow> tame rows w w'"
    and body: "(case syscall (C_nanosleep s ns) w of (r, w') \<Rightarrow>
        if r \<noteq> 0 then f (data_at (env_data w (env_n w)) 0) (data_at (env_data w (env_n w)) 1) w'
        else Some w') = Some w'"
  have t: "tame rows w (snd (syscall (C_nanosleep s ns) w))" by (rule tame_syscall) simp_all
  show "tame rows w w'"
    using body t by (auto simp: split_beta split: if_splits intro: tame_trans [OF t IH])
qed

lemma tame_sleep: "edgeflow_sleep_ms ms w = Some w' \<Longrightarrow> tame rows w w'"
  unfolding edgeflow_sleep_ms_def by (rule nanosleep_balance)

lemma tame_heartbeat [simp]:
  "tame rows w (snd (heartbeat_age_ms hb t w))" "tame rows w (snd (heartbeat_touch hb t w))"
  by (cases hb; simp add: heartbeat_age_ms_def heartbeat_touch_def split_beta)+

lemma tame_touch [simp]: "tame rows w (snd (touch t app w))"
  by (simp add: touch_def split_beta)

lemma tame_metrics_file [simp]: "tame rows w (snd (metrics_write_file p m w))"
proof -
  have "tame rows w (snd (syscall (C_fopen q ''w'') w))" for q by (rule tame_syscall) simp_all
  then show ?thesis
    by (auto simp: metrics_write_file_def split_beta split: option.split intro: tame_trans [OF tame_trans] tame_file)
qed

lemma tame_write_metrics [simp]: "tame rows w (snd (write_metrics app w))"
proof -
  have "tame rows w (snd (update_heartbeat_metrics app w))"
    by (simp add: update_heartbeat_metrics_def Let_def split_beta) (blast intro: tame_trans tame_heartbeat)
  then show ?thesis by (auto simp: write_metrics_def split_beta intro: tame_trans)
qed

subsection \<open>The store\<close>

lemma tame_modify:
  assumes "sql \<in> {SQL_INSERT_ALARM, SQL_INSERT_COMMAND}"
  shows "tame rows w (snd (db_modify sql vals w))"
  using assms by (auto simp: tame_def db_modify_def db_prepare_def db_step_def split_beta quiet_sql_def)

lemma tame_jsonl [simp]: "tame rows w (snd (append_jsonl_line p l w))"
proof -
  have "tame rows w (snd (syscall (C_fopen p ''a'') w))" by (rule tame_syscall) simp_all
  then show ?thesis by (auto simp: append_jsonl_line_def split_beta intro: tame_trans)
qed

lemma tame_append_alarm [simp]: "tame rows w (snd (storage_append_alarm st a w))"
  by (cases st; cases a)
    (auto simp: storage_append_alarm_def Let_def split_beta intro: tame_trans [OF tame_jsonl tame_modify])

lemma tame_append_command [simp]: "tame rows w (snd (storage_append_command st a w))"
  by (cases st; cases a)
    (auto simp: storage_append_command_def Let_def split_beta intro: tame_trans [OF tame_jsonl tame_modify])

lemma tame_count [simp]: "tame rows w (snd (storage_pending_telemetry_count st w))"
  by (cases st) (auto simp: storage_pending_telemetry_count_def tame_def db_prepare_def db_rows_def split_beta quiet_sql_def
      split: list.split)

subsection \<open>Adapter and scheduler\<close>

lemma tame_dispatch:
  assumes "da_write_command a = Some modbus_write_command"
  shows "tame rows w (snd (snd (dispatch_command a st c g w)))"
  using assms
  by (auto simp: dispatch_command_def Let_def split_beta modbus_write_command_def intro!: tame_after [OF tame_log(1)] tame_after [OF tame_append_command])

lemma tame_dispatch_all:
  "da_write_command a = Some modbus_write_command \<Longrightarrow> tame rows w (snd (snd (dispatch_commands a st cs k g w)))"
proof (induction cs arbitrary: k g w)
  case (Cons c cs)
  then show ?case using tame_trans [OF tame_dispatch [OF Cons.prems] Cons.IH [OF Cons.prems]] by (simp add: split_beta)
qed simp

lemma tame_tick:
  "da_write_command a = Some modbus_write_command \<Longrightarrow> tame rows w (snd (snd (snd (command_scheduler_tick s (Some a) cfg st g w))))"
  by (cases s; cases cfg) (auto simp: command_scheduler_tick_def Let_def split_beta tame_dispatch_all)

lemma tame_submit: "tame rows w (snd (snd (snd (command_scheduler_submit s c w))))"
  by (cases s; cases c) (auto simp: command_scheduler_submit_def Let_def)

lemma find_modbus:
  assumes "app_registry app = \<lparr>reg_slots = [modbus_slot c]\<rparr>" "find_modbus_adapter app = Some i"
  shows "i = 0"
  using assms by (auto simp: find_modbus_adapter_def adapter_registry_find_def split: option.splits if_splits)

lemma tame_worker_command:
  assumes "app_registry app = \<lparr>reg_slots = [modbus_slot c]\<rparr>"
  shows "tame rows w (snd (snd (worker_command cmd (app, g, w))))"
proof -
  note t = tame_submit [of rows w "Some (app_command_scheduler app)" "Some cmd"]
  show ?thesis
    using assms t tame_trans [OF t tame_tick] find_modbus
    by (auto simp: worker_command_def Let_def split_beta find_modbus_adapter_def adapter_registry_find_def split: option.splits)
qed

lemma tame_worker_decide:
  assumes "app_registry app = \<lparr>reg_slots = [modbus_slot c]\<rparr>"
  shows "tame rows w (snd (snd (worker_decide p (app, g, w))))"
proof -
  have a: "tame rows w (if b then log_warn m (snd (storage_append_alarm st al w)) else w)" for b m st al
    using tame_trans [OF tame_append_alarm tame_log(2)] by auto
  show ?thesis
    using assms a tame_trans [OF a tame_worker_command]
    by (auto simp: worker_decide_def Let_def split_beta)
qed

lemma tame_worker_report: "tame rows w (snd (snd (snd (worker_report t (app, g, w)))))"
  by (auto simp: worker_report_def Let_def split_beta intro!: tame_after [OF tame_now] tame_after [OF tame_write_metrics]
      tame_after [OF tame_count] tame_touch)

lemma tame_bus:
  "tame rows w (snd (syscall (modbus_new c) w))" "tame rows w (snd (syscall (C_modbus_set_slave h s) w))"
  "tame rows w (snd (syscall (C_modbus_set_response_timeout h s u) w))" "tame rows w (snd (syscall (C_modbus_connect h) w))"
  "tame rows w (snd (syscall (C_modbus_read_registers h a n) w))" "tame rows w (snd (syscall (C_modbus_close h) w))"
  "tame rows w (snd (syscall (C_modbus_free h) w))"
  by (rule tame_syscall; simp add: modbus_new_def)+

lemma tame_modbus_shutdown [simp]: "tame rows w (snd (modbus_libmodbus_shutdown g w))"
  by (auto simp: modbus_libmodbus_shutdown_def intro: tame_trans tame_bus)

lemma tame_ensure_context: "tame rows w (snd (snd (ensure_context c g w)))"
proof -
  let ?w1 = "snd (modbus_libmodbus_shutdown g w)"
  let ?w2 = "snd (syscall (modbus_new c) ?w1)" and ?h = "fst (syscall (modbus_new c) ?w1)"
  let ?w3 = "snd (syscall (C_modbus_set_slave ?h (int (unat (cfg_modbus_slave_id c)))) ?w2)"
  let ?w4 = "snd (syscall (C_modbus_set_response_timeout ?h 0 (timeout_usec c)) ?w3)"
  let ?w5 = "snd (syscall (C_modbus_connect ?h) ?w4)"
  have t2: "tame rows w ?w2" by (rule tame_trans [OF tame_modbus_shutdown tame_bus(1)])
  also have "tame rows ?w2 ?w3" by (rule tame_bus)
  also have "tame rows ?w3 ?w4" by (rule tame_bus)
  also have "tame rows ?w4 ?w5" by (rule tame_bus)
  finally have t5: "tame rows w ?w5" .
  show ?thesis
    using tame_trans [OF t2 tame_log(3)] tame_trans [OF t5 tame_log(1)] tame_trans [OF tame_trans [OF t5 tame_log(2)] tame_bus(7)]
    by (auto simp: ensure_context_def Let_def split_beta)
qed

lemma tame_map_registers: "tame rows w (snd (snd (map_registers_to_telemetry r out k w)))"
  by (simp add: map_registers_to_telemetry_def split_beta)

lemma tame_libmodbus_poll: "tame rows w (snd (snd (snd (modbus_libmodbus_poll c out k g w))))"
proof -
  have t: "tame rows w (snd (syscall (C_modbus_read_registers h a n) (snd (snd (ensure_context x g w)))))" for h a n x
    by (rule tame_trans [OF tame_ensure_context tame_bus(5)])
  show ?thesis
    by (cases c; cases out)
      (auto simp: modbus_libmodbus_poll_def split_beta intro: tame_ensure_context
        tame_trans [OF t tame_map_registers] tame_trans [OF tame_trans [OF t tame_log(2)] tame_modbus_shutdown])
qed

lemma tame_modbus_poll: "tame rows w (snd (snd (snd (modbus_poll self out k g w))))"
proof -
  have "tame rows w (snd (snd (snd (modbus_poll_simulate out k g w))))"
    by (cases out) (auto simp: modbus_poll_simulate_def split_beta Let_def)
  then show ?thesis
    by (cases self; cases out; cases "ig_modbus_cfg g")
      (auto simp: modbus_poll_def modbus_rtu_poll_def tame_libmodbus_poll)
qed

lemma tame_poll_all:
  "tame rows w (snd (snd (snd (adapter_registry_poll_all (Some \<lparr>reg_slots = [modbus_slot c]\<rparr>) out k g w))))"
  using tame_modbus_poll by (cases out) (auto simp: adapter_registry_poll_all_def split_beta)

lemma tame_shutdown_slots: "tame rows w (snd (shutdown_slots [modbus_slot c] g w))"
  by (auto simp: modbus_shutdown_def split_beta intro: tame_trans [OF tame_modbus_shutdown tame_log(1)])

subsection \<open>The worker and the pending list\<close>

lemma publish_telemetry_frame:
  assumes "mqtt_session_publish_telemetry (Some s) (Some p) w = Some (rc, s', w')"
  shows "\<exists>t. s' = Some t \<and> fd_kept s w t w'" "calls_only w w'"
proof -
  obtain t where pl: "publish_locked s (cfg_mqtt_topic (ms_cfg s)) (telemetry_to_json p 384) w = Some (rc, t, w')" "s' = Some t"
    using assms by (auto simp: mqtt_session_publish_telemetry_def)
  then show "\<exists>t. s' = Some t \<and> fd_kept s w t w'" using descriptors.R_publish_locked by blast
  show "calls_only w w'" using publish_calls_only pl(1) by blast
qed

lemma worker_publish_rows:
  assumes laws: "sqlite_laws (env_sqlite w) rows" and st: "app_storage app = Some ctx"
    and call: "worker_publish p i (app, g, w) = Some (app', g', w')"
  shows "env_sqlite w' = env_sqlite w" "\<exists>b. pending (rows (env_db w')) =
      (if b then filter (\<lambda>r. tr_id r \<noteq> i) (pending (rows (env_db w))) else pending (rows (env_db w))) \<and>
      (b \<longrightarrow> 0 < i \<and> gm_mqtt_publish_ok (app_metrics app') = gm_mqtt_publish_ok (app_metrics app) + 1 \<and>
        gm_mqtt_publish_fail (app_metrics app') = gm_mqtt_publish_fail (app_metrics app))"
proof -
  obtain rc s w1 where pt: "mqtt_session_publish_telemetry (Some (app_mqtt app)) (Some p) w = Some (rc, s, w1)"
    using call by (auto simp: worker_publish_def bind_eq_Some_conv)
  note f = calls_only_frame [OF publish_telemetry_frame(2) [OF pt]]
  obtain mrc w2 where mk: "storage_mark_telemetry_uploaded (Some ctx) i w1 = (mrc, w2)" by (metis prod.exhaust)
  have laws1: "sqlite_laws (env_sqlite w1) rows" using laws f by simp
  obtain d where d: "w2 = w1\<lparr>env_db := d\<rparr>" "rows d = (if mrc = 0 then map (mark_row i) (rows (env_db w)) else rows (env_db w))"
    using mark_uploaded_rows [OF laws1 mk] f by auto
  have w': "w' = (if rc = 0 \<and> 0 < i then w2 else w1)"
    using call pt mk st by (auto simp: worker_publish_def Let_def split: if_splits)
  then show "env_sqlite w' = env_sqlite w" using d f by simp
  show "\<exists>b. pending (rows (env_db w')) =
      (if b then filter (\<lambda>r. tr_id r \<noteq> i) (pending (rows (env_db w))) else pending (rows (env_db w))) \<and>
      (b \<longrightarrow> 0 < i \<and> gm_mqtt_publish_ok (app_metrics app') = gm_mqtt_publish_ok (app_metrics app) + 1 \<and>
        gm_mqtt_publish_fail (app_metrics app') = gm_mqtt_publish_fail (app_metrics app))"
    using w' d f call pt pending_mark [of i "rows (env_db w)"]
    by (intro exI [of _ "rc = 0 \<and> 0 < i \<and> mrc = 0"]) (auto simp: worker_publish_def Let_def)
qed

text \<open>What follows the append in a turn: the row just stored stays, or is published and marked.\<close>

lemma worker_rest_rows:
  assumes laws: "sqlite_laws (env_sqlite w1) rows" and st: "app_storage app = Some ctx"
    and reg: "app_registry app = \<lparr>reg_slots = [modbus_slot c]\<rparr>" and t12: "tame rows w1 w2"
    and de: "worker_decide p (app, g, w2) = (app3, g3, w3)" and pu: "worker_publish p row (app3, g3, w3) = Some (app4, g4, w4)"
    and re: "worker_report t (app4, g4, w4) = (t', app', g', w')"
  shows "pending (rows (env_db w')) = pending (rows (env_db w1)) \<or>
    pending (rows (env_db w')) = filter (\<lambda>r. tr_id r \<noteq> row) (pending (rows (env_db w1))) \<and>
    gm_mqtt_publish_ok (app_metrics app') = gm_mqtt_publish_ok (app_metrics app) + 1 \<and>
    gm_mqtt_publish_fail (app_metrics app') = gm_mqtt_publish_fail (app_metrics app) \<and> 0 < row"
proof -
  note f3 = worker_decide_frame [of p app g w2, unfolded de, simplified]
  note f5 = worker_report_frame [of t app4 g4 w4, unfolded re, simplified]
  note t12
  also have "tame rows w2 w3" using tame_worker_decide [of app c rows w2 p g] de reg by simp
  finally have t13: "tame rows w1 w3" .
  have laws3: "sqlite_laws (env_sqlite w3) rows" using laws t13 by (simp add: tame_def)
  have r3: "rows (env_db w3) = rows (env_db w1)" using t13 quiet_sql_laws [OF laws] by (simp add: tame_def)
  have st3: "app_storage app3 = Some ctx" using f3 st by simp
  have r5: "rows (env_db w') = rows (env_db w4)"
    using tame_worker_report [of rows w4 t app4 g4, unfolded re] quiet_sql_laws [OF laws3]
      worker_publish_rows(1) [OF laws3 st3 pu] by (simp add: tame_def)
  have "gm_mqtt_publish_ok (app_metrics app') = gm_mqtt_publish_ok (app_metrics app4)"
    "gm_mqtt_publish_fail (app_metrics app') = gm_mqtt_publish_fail (app_metrics app4)"
    "gm_mqtt_publish_ok (app_metrics app3) = gm_mqtt_publish_ok (app_metrics app)"
    "gm_mqtt_publish_fail (app_metrics app3) = gm_mqtt_publish_fail (app_metrics app)"
    using f5(9) f3(4) by (auto simp: counts_def)
  then show ?thesis using worker_publish_rows(2) [OF laws3 st3 pu, unfolded r3] r5 by (auto split: if_splits)
qed

text \<open>
  C15. No point is forgotten: with SQLite obeying its laws, when a worker's turn takes a point from the ring
  and the store accepts it, then afterwards the pending list is as before with this point's row
  appended, unless the publication was counted as successful; older pending rows are never
  touched. When the store refuses the point the pending list is unchanged.
\<close>

theorem worker_keeps_pending:
  assumes laws: "sqlite_laws (env_sqlite w) rows" and st: "app_storage app = Some ctx" and on: "sqlite_on ctx"
    and reg: "app_registry app = \<lparr>reg_slots = [modbus_slot c]\<rparr>"
    and turn: "worker_turn t (app, g, w) = Some (t', app', g', w')" and pop: "fst (ring_pop (app_ring app)) = Some p"
    and append: "storage_append_telemetry (Some ctx) (Some (apply_quality_rules (app_cfg app) p)) (Some 0) w = (rc, i, w1)"
  shows "if rc = 0 then \<exists>k. i = Some k \<and>
      (pending (rows (env_db w')) = pending (rows (env_db w)) @ [stored_row k (apply_quality_rules (app_cfg app) p)] \<or>
       pending (rows (env_db w')) = pending (rows (env_db w)) \<and>
         gm_mqtt_publish_ok (app_metrics app') = gm_mqtt_publish_ok (app_metrics app) + 1 \<and>
         gm_mqtt_publish_fail (app_metrics app') = gm_mqtt_publish_fail (app_metrics app))
    else pending (rows (env_db w')) = pending (rows (env_db w))"
  using turn
proof (cases rule: worker_turn_cases)
  case idle
  then show ?thesis using pop by simp
next
  case (point p' q r row app2 w2 app3 g3 w3 app4 g4 w4)
  let ?p = "apply_quality_rules (app_cfg app) p"
  have q: "q = ?p" using point(1,3) pop by simp
  note f2 = worker_store_frame [of q "app\<lparr>app_ring := r\<rparr>" w, unfolded point(4), simplified]
  have sq: "env_sqlite w1 = env_sqlite w" using append on append_telemetry_sqlite by metis
  have t12: "tame rows w1 w2" and row: "row = the i"
    using point(4) append st q by (auto simp: worker_store_def Let_def split: if_splits)
  have cnt: "gm_mqtt_publish_ok (app_metrics app2) = gm_mqtt_publish_ok (app_metrics app)"
    "gm_mqtt_publish_fail (app_metrics app2) = gm_mqtt_publish_fail (app_metrics app)"
    using worker_store_counts [of q "app\<lparr>app_ring := r\<rparr>" w, unfolded point(4)] by (auto simp: counts_def)
  have rest: "pending (rows (env_db w')) = pending (rows (env_db w1)) \<or>
      pending (rows (env_db w')) = filter (\<lambda>r. tr_id r \<noteq> row) (pending (rows (env_db w1))) \<and>
      gm_mqtt_publish_ok (app_metrics app') = gm_mqtt_publish_ok (app_metrics app) + 1 \<and>
      gm_mqtt_publish_fail (app_metrics app') = gm_mqtt_publish_fail (app_metrics app) \<and> 0 < row"
    using worker_rest_rows [OF _ _ _ t12 point(5-7)] laws sq f2 st reg cnt by simp
  note ap = append_telemetry_rows [OF laws on append]
  show ?thesis
  proof (cases "rc = 0")
    case False
    then show ?thesis using ap rest row by auto
  next
    case True
    then obtain k where k: "i = Some k" "\<forall>r \<in> set (rows (env_db w)). tr_id r < k"
      "pending (rows (env_db w1)) = pending (rows (env_db w)) @ [stored_row k ?p]" using ap by auto
    have "filter (\<lambda>r. tr_id r \<noteq> k) (pending (rows (env_db w))) = pending (rows (env_db w))"
      using k(2) by (intro filter_True) (auto simp: pending_def)
    then show ?thesis using True k rest row by (auto simp: stored_row_def)
  qed
qed

subsection \<open>Descriptors over the life of the gateway\<close>

text \<open>
  While the gateway runs, the descriptors open beyond those of the start are the broker socket and
  the notification socket.
\<close>

definition fds_held :: "(int \<Rightarrow> int) \<Rightarrow> gateway_config_t \<Rightarrow> 'd gateway_app_t \<Rightarrow> statics \<Rightarrow> 'd env \<Rightarrow> bool" where
  "fds_held base c app g w \<longleftrightarrow> app_registry app = \<lparr>reg_slots = [modbus_slot c]\<rparr> \<and>
     (\<forall>fd. fd_balance fd (env_calls w) = base fd + held (ms_fd (app_mqtt app)) fd + held (wd_notify_fd (sg_watchdog g)) fd)"

abbreviation calm :: "'d env \<Rightarrow> 'd env \<Rightarrow> bool" where
  "calm w w' \<equiv> tame (\<lambda>_. ()) w w'"

lemma calm_balance: "calm w w' \<Longrightarrow> fd_balance fd (env_calls w') = fd_balance fd (env_calls w)"
  by (simp add: tame_def)

lemma calm_db: "\<exists>d. w' = w\<lparr>env_db := d\<rparr> \<Longrightarrow> calm w w'"
  by (auto simp: tame_def)

lemma calm_mark: "calm w (snd (storage_mark_telemetry_uploaded st i w))"
  using calm_db [OF mark_only] .

lemma calm_append: "calm w (snd (snd (storage_append_telemetry st p i w)))"
proof (cases st; cases p)
  fix c q
  assume c: "st = Some c" "p = Some q"
  let ?w = "snd (jsonl_append_telemetry (cfg_cache_path (st_cfg c)) q w)"
  have j: "calm w ?w" by (simp add: jsonl_append_telemetry_def)
  have "calm w (snd (db_modify SQL_INSERT_TELEMETRY (telemetry_values q) ?w))"
    by (rule tame_trans [OF j calm_db [OF db_modify_only]])
  then show ?thesis using j c by (auto simp: storage_append_telemetry_def Let_def split_beta)
qed (auto simp: storage_append_telemetry_def)

lemma calm_store: "calm w (snd (snd (worker_store p app w)))"
  using calm_append [of w "app_storage app" "Some p" "Some 0"]
    tame_trans [OF calm_append [of w "app_storage app" "Some p" "Some 0"] tame_log(2)]
  by (auto simp: worker_store_def Let_def split_beta)

lemma calm_held:
  assumes "fds_held base c app g w" "calm w w'" "app_registry app' = app_registry app" "app_mqtt app' = app_mqtt app"
    "sg_watchdog g' = sg_watchdog g"
  shows "fds_held base c app' g' w'"
  using assms calm_balance [OF assms(2)] by (simp add: fds_held_def)

lemma session_held:
  assumes "fds_held base c app g w" "fd_kept (app_mqtt app) w u w'"
  shows "fds_held base c (app\<lparr>app_mqtt := u\<rparr>) g w'"
proof -
  have "fd_balance fd (env_calls w') - held (ms_fd u) fd = fd_balance fd (env_calls w) - held (ms_fd (app_mqtt app)) fd" for fd
    using assms(2) by (simp add: fd_kept_def)
  then show ?thesis using assms(1) by (simp add: fds_held_def algebra_simps)
qed

lemma publish_held:
  assumes "worker_publish p i (app, g, w) = Some (app', g', w')" "fds_held base c app g w"
  shows "fds_held base c app' g' w'"
proof -
  obtain rc s w1 where pt: "mqtt_session_publish_telemetry (Some (app_mqtt app)) (Some p) w = Some (rc, s, w1)"
    using assms(1) by (auto simp: worker_publish_def bind_eq_Some_conv)
  obtain t where t: "s = Some t" "fd_kept (app_mqtt app) w t w1" using publish_telemetry_frame(1) [OF pt] by blast
  have e: "calm w1 w'" "g' = g" "app_mqtt app' = t" "app_registry app' = app_registry app"
    using assms(1) pt t(1) calm_mark by (auto simp: worker_publish_def Let_def split: if_splits)
  have "fds_held base c (app\<lparr>app_mqtt := t\<rparr>) g w1" by (rule session_held [OF assms(2) t(2)])
  then show ?thesis by (rule calm_held) (use e in simp_all)
qed

lemma worker_decide_statics: "sg_watchdog (fst (snd (worker_decide p (app, g, w)))) = sg_watchdog g"
  by (auto simp: worker_decide_def worker_command_def Let_def split_beta split: option.split)

lemma calm_stale: "calm w (warn_stale who cfg age w)"
  by (simp add: warn_stale_def)

text \<open>What the monitor does to the session and the world: quiet work around three session operations.\<close>

lemma monitor_prelude_calm:
  assumes "touch HEARTBEAT_THREAD_MONITOR app w = (app1, w1)"
    "heartbeat_age_ms hb a (watchdog_notify_alive wd w1) = (i, w3)" "heartbeat_age_ms hb b w3 = (k, w4)"
  shows "fd_balance fd (env_calls (warn_stale x cfg k (warn_stale y cfg i w4))) = fd_balance fd (env_calls w)"
proof -
  have "calm w w1" using tame_touch assms(1) by (metis snd_conv)
  moreover have "calm (watchdog_notify_alive wd w1) w3" "calm w3 w4" using tame_heartbeat(1) assms(2,3) by (metis snd_conv)+
  moreover have "calm w4 (warn_stale x cfg k (warn_stale y cfg i w4))" by (rule tame_trans [OF calm_stale calm_stale])
  ultimately show ?thesis using calm_balance by (metis notify_balance(2))
qed

lemma monitor_held:
  assumes I: "fds_held base c app g w" and step: "monitor_on_timer (app, g) w = Some ((app', g'), w')"
  shows "fds_held base c app' g' w'"
proof (cases "app_running app")
  case False
  then show ?thesis using assms by (simp add: monitor_on_timer_def)
next
  case True
  let ?s = "app_mqtt app"
  obtain app1 w1 where to: "touch HEARTBEAT_THREAD_MONITOR app w = (app1, w1)" by (metis prod.exhaust)
  have a1: "app_mqtt app1 = ?s" "app_registry app1 = app_registry app"
    using touch_frame [of HEARTBEAT_THREAD_MONITOR app w] to by simp_all
  obtain i w3 where hi: "heartbeat_age_ms (Some (app_heartbeat app1)) HEARTBEAT_THREAD_INGRESS
      (watchdog_notify_alive (sg_watchdog g) w1) = (i, w3)" by (metis prod.exhaust)
  obtain k w4 where hk: "heartbeat_age_ms (Some (app_heartbeat app1)) HEARTBEAT_THREAD_WORKER w3 = (k, w4)" by (metis prod.exhaust)
  define w6 where "w6 = warn_stale ''worker'' (app_cfg app1) k (warn_stale ''ingress'' (app_cfg app1) i w4)"
  note d = step [unfolded monitor_on_timer_def Let_def prod.case to hi hk, folded w6_def]
  obtain n1 s1 m1 w7 where rp: "mqtt_session_replay_pending (Some ?s) (app_storage app1) (Some (app_metrics app1)) w6 = Some (n1, s1, m1, w7)"
    using d True a1 by (auto simp: bind_eq_Some_conv)
  obtain u1 where u1: "s1 = Some u1" "fd_kept ?s w6 u1 w7" using descriptors.R_replay_pending [OF rp] by blast
  obtain r2 s2 w8 where pg: "mqtt_session_ping (Some u1) w7 = Some (r2, s2, w8)"
    using d True a1 rp u1 by (auto simp: bind_eq_Some_conv)
  obtain u2 where u2: "s2 = Some u2" "fd_kept u1 w7 u2 w8" using descriptors.R_ping [OF pg] by blast
  obtain n w9 where ct: "storage_pending_telemetry_count (app_storage app1) w8 = (n, w9)" by (metis prod.exhaust)
  obtain now w10 where no: "edgeflow_now_ms w9 = (now, w10)" by (metis prod.exhaust)
  have c10: "calm w8 w10" using tame_trans [OF tame_count tame_now] ct no by (metis snd_conv)
  obtain pl where d2: "Option.bind (mqtt_session_publish_heartbeat (Some u2) (Some pl) w10) (\<lambda>(_, s3, w11).
      case write_metrics (app1\<lparr>app_mqtt := the s3, app_metrics := the m1\<rparr>) w11 of (app2, w12) \<Rightarrow> Some ((app2, g), w12)) =
      Some ((app', g'), w')"
    using d True a1 rp u1(1) pg u2(1) ct no by simp
  then obtain r3 u3 w11 where ph: "publish_locked u2 (cfg_mqtt_heartbeat_topic (ms_cfg u2)) pl w10 = Some (r3, u3, w11)"
    by (auto simp: bind_eq_Some_conv mqtt_session_publish_heartbeat_def)
  then have w': "write_metrics (app1\<lparr>app_mqtt := u3, app_metrics := the m1\<rparr>) w11 = (app', w')" "g' = g"
    using d2 by (auto simp: mqtt_session_publish_heartbeat_def split: prod.splits)
  have "calm w11 w'" using tame_write_metrics w'(1) by (metis snd_conv)
  moreover have "app_mqtt app' = u3" "app_registry app' = app_registry app"
    using write_metrics_frame [of "app1\<lparr>app_mqtt := u3, app_metrics := the m1\<rparr>" w11] w'(1) a1 by simp_all
  ultimately show ?thesis
    using I monitor_prelude_calm [OF to hi hk, where x = "''worker''" and y = "''ingress''" and cfg = "app_cfg app1", folded w6_def]
      u1(2) u2(2) descriptors.R_publish_locked [OF ph] calm_balance [OF c10] calm_balance [of w11 w'] w'(2)
    unfolding fds_held_def fd_kept_def by (auto simp: algebra_simps)
qed

lemma ingress_held:
  assumes I: "fds_held base c app g w" and step: "ingress_turn (app, g, w) = Some (app', g', w')"
  shows "fds_held base c app' g' w'"
proof -
  obtain n points ig w1 where po: "adapter_registry_poll_all (Some (app_registry app)) (Some (replicate 8 telemetry_zero)) 8
      (sg_ingress g) w = (n, points, ig, w1)" by (metis prod_cases4)
  obtain a where a: "edgeflow_sleep_ms (cfg_poll_interval_ms (app_cfg app')) (snd (touch HEARTBEAT_THREAD_INGRESS a w1)) = Some w'"
    and g': "g' = g\<lparr>sg_ingress := ig\<rparr>"
    using step po by (auto simp: ingress_turn_def Let_def split_beta)
  have "app_registry app = \<lparr>reg_slots = [modbus_slot c]\<rparr>" using I by (simp add: fds_held_def)
  then have "calm w w1" using tame_poll_all [of "\<lambda>_. ()" w c] po by (metis snd_conv)
  then have "calm w w'" using tame_trans [OF tame_trans [OF _ tame_touch] tame_sleep [OF a]] by blast
  then show ?thesis using calm_held [OF I] ingress_turn_effect [OF step] g' by simp
qed

lemma worker_held:
  assumes I: "fds_held base c app g w" and step: "worker_turn t (app, g, w) = Some (t', app', g', w')"
  shows "fds_held base c app' g' w'"
  using step
proof (cases rule: worker_turn_cases)
  case (idle r)
  then show ?thesis using calm_held [OF I tame_trans [OF tame_touch tame_sleep]] by (simp add: frame_simps)
next
  case (point p q r row app2 w2 app3 g3 w3 app4 g4 w4)
  note f2 = worker_store_frame [of q "app\<lparr>app_ring := r\<rparr>" w, unfolded point(4), simplified]
  note f3 = worker_decide_frame [of q app2 g w2, unfolded point(5), simplified]
  note f5 = worker_report_frame [of t app4 g4 w4, unfolded point(7), simplified]
  have reg: "app_registry app = \<lparr>reg_slots = [modbus_slot c]\<rparr>" using I by (simp add: fds_held_def)
  have c2: "calm w w2" using calm_store [of w q "app\<lparr>app_ring := r\<rparr>"] point(4) by simp
  have c3: "calm w2 w3" using tame_worker_decide [of app2 c "\<lambda>_. ()" w2 q g] point(5) f2 reg by simp
  have "fds_held base c app3 g3 w3"
    using calm_held [OF I tame_trans [OF c2 c3]] f2 f3 worker_decide_statics [of q app2 g w2] point(5) by simp
  then have "fds_held base c app4 g4 w4" by (rule publish_held [OF point(6)])
  then show ?thesis using calm_held [of base c app4 g4 w4 w' app' g'] tame_worker_report [of "\<lambda>_. ()" w4 t app4 g4] point(7) f5 by simp
qed

interpretation held: turn_invariant "fds_held base c"
  by unfold_locales (fact ingress_held worker_held monitor_held)+

lemma calm_storage_open: "calm w (snd (snd (storage_open b cfg w)))"
proof -
  have c: "calm w (snd (syscall C_calloc w))" by (rule tame_syscall) simp_all
  have d: "calm u (snd (db_open p u))" "calm u (snd (sqlite_exec_schema u))" "calm u (db_close u)" for u :: "'a env" and p
    by (auto simp: tame_def db_open_def sqlite_exec_schema_def db_exec_def db_close_def split: prod.split)
  show ?thesis
    by (cases cfg) (auto simp: storage_open_def split_beta intro: c tame_trans [OF c d(1)]
        tame_trans [OF tame_trans [OF c d(1)] d(2)] tame_trans [OF tame_trans [OF tame_trans [OF c d(1)] d(2)] d(3)])
qed

lemma storage_open_result: "storage_open b cfg w = (rc, st, w') \<Longrightarrow> (rc = 0 \<and> st \<noteq> None \<or> rc = - 1 \<and> st = None)"
  by (auto simp: storage_open_def split: option.splits if_splits prod.splits)

lemma calm_storage_close: "calm w (storage_close st w)"
  by (auto simp: storage_close_def db_close_def tame_def split: option.split)

lemma calm_ring_setup: "calm w (snd (snd (ring_setup sz r w)))"
proof -
  have "calm w (snd (syscall C_calloc w))" by (rule tame_syscall) simp_all
  then show ?thesis by (simp add: ring_setup_def split_beta)
qed

lemma ring_setup_result:
  "ring_setup sz r w = (rc, ring, w') \<Longrightarrow> rc = 0 \<and> 2 \<le> sz \<and> ring_wf ring \<and> ring_items ring = [] \<or>
     rc = - 1 \<and> (ring = r \<or> rg_buf ring = None)"
  using ring_setup_wf [of sz r w ring w']
  by (auto simp: ring_setup_def spsc_ring_init_def split: if_splits prod.splits)

lemma watchdog_init_fds:
  assumes "watchdog_init i watchdog_initial w = (g, w')"
  shows "fd_balance fd (env_calls w') = fd_balance fd (env_calls w) + held (wd_notify_fd g) fd"
  using watchdog_init_balance(1) [OF assms] .

lemma gateway_init_held:
  assumes init: "gateway_app_init (Some a) (Some c) g w = (0, Some app, g', w')" and wd: "sg_watchdog g = watchdog_initial"
  shows "fds_held (\<lambda>fd. fd_balance fd (env_calls w)) c app g' w'"
proof -
  obtain app0 w0 where c0: "app_cleared c w = (app0, w0)" by (metis prod.exhaust)
  obtain src st w1 where so: "storage_open True (Some c) w0 = (src, st, w1)" by (metis prod_cases3)
  have "calm w w0" using app_cleared_simps(7) [OF c0] by simp
  then have t1: "calm w w1" using tame_trans calm_storage_open [of w0 True "Some c"] so by (metis snd_conv)
  show ?thesis
  proof (cases rule: gateway_app_init_cases [OF init c0 so])
    case (3 m ring w4 wd')
    have "calm w w4" using tame_trans [OF tame_trans [OF t1 tame_log(1)] calm_ring_setup] 3(2) by (metis snd_conv)
    then have b: "fd_balance fd (env_calls w4) = fd_balance fd (env_calls w)" for fd by (rule calm_balance)
    have "fd_balance fd (env_calls w') = fd_balance fd (env_calls w) + held (wd_notify_fd wd') fd" for fd
      using watchdog_init_fds [of "cfg_watchdog_interval_ms c" w4 wd' w' fd] 3(3) wd b by simp
    then show ?thesis using 3 app_cleared_simps(5) [OF c0] by (simp add: fds_held_def held_def)
  qed simp_all
qed


lemma gateway_run_held:
  assumes "gateway_app_run (Some app) g w = (0, Some app', w')" "fds_held base c app g w"
  shows "fds_held base c app' g w'"
  using assms
  by (auto simp: gateway_app_run_def Let_def fds_held_def frame_simps split_beta split: if_splits)

lemma watchdog_shutdown_closed: "watchdog_shutdown wd w = (wd', w') \<Longrightarrow> wd_notify_fd wd' < 0"
  by (auto simp: watchdog_shutdown_def Let_def split: if_splits)

lemma stop_closes:
  assumes h: "fds_held base c app g w" and sh: "mqtt_shutdown_locked (app_mqtt app) (join_all w) = (u, w1)"
    and ws: "watchdog_shutdown (sg_watchdog g) w1 = (wd, w2)"
  shows "fds_held base c (app\<lparr>app_running := False, app_mqtt := u\<rparr>) (g\<lparr>sg_watchdog := wd\<rparr>) (log_info ''edgeflow stopped'' w2) \<and>
    ms_fd u < 0 \<and> wd_notify_fd wd < 0"
proof -
  have u: "ms_fd u < 0" using shutdown_result [OF sh] by simp
  have wd: "wd_notify_fd wd < 0" by (rule watchdog_shutdown_closed [OF ws])
  have "fd_balance fd (env_calls w1) = fd_balance fd (env_calls w) - held (ms_fd (app_mqtt app)) fd" for fd
    using session_shutdown_kept [OF sh] u by (simp add: fd_kept_def held_def join_all_def frame_simps)
  moreover have "fd_balance fd (env_calls w2) = fd_balance fd (env_calls w1) - held (wd_notify_fd (sg_watchdog g)) fd" for fd
    using watchdog_shutdown_balance [of fd "sg_watchdog g" w1] ws by simp
  ultimately have "fd_balance fd (env_calls (log_info ''edgeflow stopped'' w2)) = base fd" for fd
    using h by (simp add: fds_held_def frame_simps)
  then show ?thesis using h u wd by (simp add: fds_held_def held_def)
qed

lemma destroy_closes:
  assumes h: "fds_held base c app g w" and closed: "ms_fd (app_mqtt app) < 0" "wd_notify_fd (sg_watchdog g) < 0"
    and destroy: "gateway_app_destroy (Some app) g w = (app', g', w')"
  shows "fd_balance fd (env_calls w') = base fd \<and>
    (\<exists>a. app' = Some a \<and> app_running a = app_running app \<and> app_storage a = None \<and> rg_buf (app_ring a) = None)"
proof -
  have reg: "app_registry app = \<lparr>reg_slots = [modbus_slot c]\<rparr>" using h by (simp add: fds_held_def)
  obtain ig w1 where sd: "shutdown_slots [modbus_slot c] (sg_ingress g) w = (ig, w1)" by (metis prod.exhaust)
  then have "calm w w1" using tame_shutdown_slots by (metis snd_conv)
  moreover have "calm w1 w'" "\<exists>a. app' = Some a \<and> app_running a = app_running app \<and> app_storage a = None \<and> rg_buf (app_ring a) = None"
    using destroy sd reg calm_storage_close
    by (auto simp: gateway_app_destroy_def adapter_registry_shutdown_all_def spsc_ring_destroy_def Let_def
        simp del: shutdown_slots.simps split: if_splits)
  ultimately show ?thesis using h closed calm_balance [of w w1 fd] calm_balance [of w1 w' fd] by (simp add: fds_held_def held_def)
qed

lemma stop_destroy:
  assumes h: "fds_held base c app2 g2 w3" and stop: "gateway_app_stop (Some app2) g2 w3 = (Some app3, g3, w4)"
    and destroy: "gateway_app_destroy (Some app3) g3 w4 = (Some app4, g4, w5)"
  shows "fd_balance fd (env_calls w5) = base fd \<and> \<not> app_running app4 \<and> app_storage app4 = None \<and> rg_buf (app_ring app4) = None"
proof -
  obtain u wm where sh: "mqtt_shutdown_locked (app_mqtt app2) (join_all w3) = (u, wm)" by (metis prod.exhaust)
  obtain wd ww where ws: "watchdog_shutdown (sg_watchdog g2) wm = (wd, ww)" by (metis prod.exhaust)
  have s: "app3 = app2\<lparr>app_running := False, app_mqtt := u\<rparr>" "g3 = g2\<lparr>sg_watchdog := wd\<rparr>" "w4 = log_info ''edgeflow stopped'' ww"
    using stop sh ws by (auto simp: gateway_app_stop_def mqtt_session_shutdown_def)
  then show ?thesis using stop_closes [OF h sh ws] destroy_closes [of base c app3 g3 w4 "Some app4" g4 w5 fd] destroy by auto
qed

lemmas stop_destroy_fds = stop_destroy [THEN conjunct1]

text \<open>
  The life of the gateway: started from a process with no notification socket, run through any
  interleaving of its threads' turns with any failures of network, bus and database, then stopped and destroyed, it
  leaves every descriptor with the balance of opens and closes it had before: the broker socket and the
  notification socket are closed exactly once however often they were reopened. The store is closed
  and the ring's memory released.
\<close>

theorem gateway_life_no_leak:
  assumes init: "gateway_app_init (Some a) (Some c) g w = (0, Some app0, g1, w1)" and wd: "sg_watchdog g = watchdog_initial"
    and run: "gateway_app_run (Some app0) g1 w1 = (0, Some app1, w2)"
    and turns: "app_turns us (0, app1, g1, w2) = Some (t, app2, g2, w3)"
    and stop: "gateway_app_stop (Some app2) g2 w3 = (Some app3, g3, w4)"
    and destroy: "gateway_app_destroy (Some app3) g3 w4 = (Some app4, g4, w5)"
  shows "fd_balance fd (env_calls w5) = fd_balance fd (env_calls w) \<and> \<not> app_running app4 \<and> app_storage app4 = None \<and>
    rg_buf (app_ring app4) = None"
  using stop_destroy [OF held.turns [OF gateway_run_held [OF run gateway_init_held [OF init wd]] turns] stop destroy] .


definition demo_hot_app :: "mem_db gateway_app_t" where
  "demo_hot_app = gateway_app_zero\<lparr>app_cfg := gateway_config_defaults,
     app_registry := \<lparr>reg_slots = [modbus_slot gateway_config_defaults]\<rparr>, app_storage := Some demo_ctx,
     app_ring := \<lparr>rg_buf = Some [demo_bad_point, telemetry_zero, telemetry_zero], rg_size = 3, rg_head = 1, rg_tail = 0, rg_dropped = 0\<rparr>\<rparr>"

lemma demo_hot_turn:
  "\<exists>t' app' g' w'. worker_turn 0 (demo_hot_app, demo_statics, demo_storage_env) = Some (t', app', g', w')"
proof -
  let ?r = "app_ring demo_hot_app" and ?c = "app_cfg demo_hot_app"
  have pop: "spsc_ring_pop (Some ?r) (Some telemetry_zero) = (True, Some demo_bad_point, Some (?r\<lparr>rg_tail := 1\<rparr>))"
    by (simp add: spsc_ring_pop_def demo_hot_app_def)
  let ?app1 = "demo_hot_app\<lparr>app_ring := ?r\<lparr>rg_tail := 1\<rparr>\<rparr>"
  have q: "apply_quality_rules ?c demo_bad_point = demo_bad_point"
    by (simp add: apply_quality_rules_def demo_bad_point_def)
  obtain i app2 w2 where ws: "worker_store demo_bad_point ?app1 demo_storage_env = (i, app2, w2)" by (metis prod_cases3)
  have "env_ret w2 = (\<lambda>_. 1)" "app_mqtt app2 = app_mqtt demo_hot_app"
    using ws worker_store_frame(7) [of demo_bad_point ?app1 demo_storage_env] append_telemetry_ret [of demo_ctx demo_bad_point "Some 0" demo_storage_env]
    by (auto simp: worker_store_def Let_def split_beta demo_hot_app_def demo_storage_env_def frame_simps split: if_splits)
  moreover have "worker_decide demo_bad_point (app2, demo_statics, w2) = (app2\<lparr>app_state_engine := app_state_engine app2\<rparr>, demo_statics, w2)"
    by (simp add: worker_decide_def state_engine_process_telemetry_def demo_bad_point_def)
  ultimately have "\<exists>app4 g4 w4. worker_publish demo_bad_point i (worker_decide demo_bad_point (app2, demo_statics, w2)) = Some (app4, g4, w4)"
    by (simp add: worker_publish_def mqtt_session_publish_telemetry_def publish_locked_def mqtt_ensure_connected_locked_def
        mqtt_shutdown_locked_def mqtt_open_tcp_def demo_hot_app_def gateway_app_zero_def Let_def split_beta frame_simps)
  then obtain app4 g4 w4 where pu: "worker_publish demo_bad_point i (worker_decide demo_bad_point (app2, demo_statics, w2)) =
      Some (app4, g4, w4)" by blast
  obtain t' app' g' w' where "worker_report 0 (app4, g4, w4) = (t', app', g', w')" by (metis prod_cases4)
  then show ?thesis using pop q ws pu by (simp add: worker_turn_def)
qed

theorem worker_keeps_pending_witness:
  "\<exists>t' app' g' w' k. worker_turn 0 (demo_hot_app, demo_statics, demo_storage_env) = Some (t', app', g', w') \<and>
     (pending (mem_rows (env_db w')) = [stored_row k demo_bad_point] \<or> pending (mem_rows (env_db w')) = [])"
proof -
  obtain t' app' g' w' where turn: "worker_turn 0 (demo_hot_app, demo_statics, demo_storage_env) = Some (t', app', g', w')"
    using demo_hot_turn by blast
  have laws: "sqlite_laws (env_sqlite demo_storage_env) mem_rows" using mem_laws by simp
  have pop: "fst (ring_pop (app_ring demo_hot_app)) = Some demo_bad_point"
    by (simp add: ring_pop_def spsc_ring_pop_def demo_hot_app_def)
  have st: "app_storage demo_hot_app = Some demo_ctx" "sqlite_on demo_ctx"
    "app_registry demo_hot_app = \<lparr>reg_slots = [modbus_slot gateway_config_defaults]\<rparr>" by (simp_all add: demo_hot_app_def)
  have q: "apply_quality_rules (app_cfg demo_hot_app) demo_bad_point = demo_bad_point"
    by (simp add: apply_quality_rules_def demo_bad_point_def)
  obtain w1 where ap: "storage_append_telemetry (Some demo_ctx) (Some (apply_quality_rules (app_cfg demo_hot_app) demo_bad_point)) (Some 0)
      demo_storage_env = (0, Some 1, w1)" using demo_append by (auto simp: q)
  show ?thesis using worker_keeps_pending [OF laws st(1,2,3) turn pop ap] turn by (auto simp: q mem_rows_def pending_def)
qed

subsection \<open>Threads\<close>

text \<open>Successful starts less joins of a thread.\<close>

fun thread_balance :: "string \<Rightarrow> (call \<times> int) list \<Rightarrow> int" where
  "thread_balance t [] = 0"
| "thread_balance t ((c, r) # cs) =
     (if c = C_pthread_create t \<and> r = 0 then 1 else 0) - (if c = C_pthread_join t then 1 else 0) + thread_balance t cs"

lemma thread_balance_append [simp]: "thread_balance t (xs @ ys) = thread_balance t xs + thread_balance t ys"
  by (induction xs) auto

text \<open>
  Starting is all or nothing: \<^verbatim>\<open>gateway_app_run\<close> returns 0 with all three threads started and the
  running flag set, or -1 with the flag cleared and every thread it had started joined again, whichever
  creation failed. It changes no other member of the application.
\<close>

theorem app_run_all_or_none:
  "case gateway_app_run (Some app) g w of (rc, app', w') \<Rightarrow>
     (rc = 0 \<or> rc = - 1) \<and> app' = Some (app\<lparr>app_running := (rc = 0)\<rparr>) \<and>
     thread_balance t (env_calls w') = thread_balance t (env_calls w) +
       (if rc = 0 \<and> t \<in> {''ingress'', ''worker'', ''monitor''} then 1 else 0)"
  by (auto simp: gateway_app_run_def Let_def split_beta frame_simps watchdog_notify_ready_def send_notify_def)

end
