(* ===== verification/Gateway_Steps.thy ===== *)
theory Gateway_Steps
  imports Gateway_Lifecycle
begin

text \<open>
  The threads of \<^verbatim>\<open>src/src/runtime/app.c\<close> and the main loop of \<^verbatim>\<open>src/src/main.c\<close>, interleaved
  statement by statement.

  Each thread has a program point, and one step of it is one call or one assignment of its loop
  on something another thread uses: the ring, a counter, the store, the session. The
  session is used under its lock, so one critical section is one step, and the monitor's replay is three:
  the fetch comes before the lock is taken, the gauge after. The gauges a thread writes at the end of
  its turn, which are only read to be written to the metrics file, are one step. A signal sets the flag the main thread waits for; the
  main thread then clears the running flag and joins the threads. A schedule is any list of agents.

  The lemmas show that the turns of \<open>Gateway_App\<close> are particular schedules, and give the rule by
  which an invariant of the steps holds in every run. \<open>gs_accepted\<close> records the points the ring has accepted and is read by no step.
\<close>

datatype ingress_pc =
    I_poll
  | I_push "telemetry_t list"
  | I_count "telemetry_t list"
  | I_report
  | I_done

datatype worker_pc =
    W_pop
  | W_nap
  | W_popped telemetry_t
  | W_stored telemetry_t int
  | W_counted telemetry_t int
  | W_decided telemetry_t int
  | W_sent telemetry_t int
  | W_mark telemetry_t int
  | W_failed
  | W_report
  | W_done

datatype monitor_pc =
    M_wait
  | M_fetch
  | M_send "storage_telemetry_row_t list"
  | M_gauge
  | M_ping
  | M_beat
  | M_write
  | M_done

datatype main_pc = P_wait | P_join | P_done

record 'd gateway_sys =
  gs_app :: "'d gateway_app_t"
  gs_statics :: statics
  gs_env :: "'d env"
  gs_ingress :: ingress_pc
  gs_worker :: worker_pc
  gs_last_metrics :: u64
  gs_monitor :: monitor_pc
  gs_main :: main_pc
  gs_exit_requested :: bool
  gs_accepted :: "telemetry_t list"

subsection \<open>Ingress\<close>

definition ingress_step :: "'d gateway_sys \<Rightarrow> 'd gateway_sys option" where
  "ingress_step s =
     (let app = gs_app s; w = gs_env s
      in case gs_ingress s of
           I_poll \<Rightarrow>
             if \<not> app_running app then Some (s\<lparr>gs_ingress := I_done\<rparr>)
             else
               (case adapter_registry_poll_all (Some (app_registry app)) (Some (replicate 8 telemetry_zero)) 8
                       (sg_ingress (gs_statics s)) w of
                  (n, points, ig, w1) \<Rightarrow>
                    Some (s\<lparr>gs_statics := (gs_statics s)\<lparr>sg_ingress := ig\<rparr>, gs_env := w1,
                      gs_ingress := I_push (if 0 < n then take (nat n) (the points) else [])\<rparr>))
         | I_push [] \<Rightarrow> Some (s\<lparr>gs_ingress := I_report\<rparr>)
         | I_push (p # ps) \<Rightarrow>
             (case spsc_ring_push (Some (app_ring app)) (Some p) of
                (ok, r) \<Rightarrow>
                  Some (s\<lparr>gs_app := app\<lparr>app_ring := the r\<rparr>, gs_ingress := if ok then I_count ps else I_push ps,
                    gs_accepted := if ok then gs_accepted s @ [p] else gs_accepted s\<rparr>))
         | I_count ps \<Rightarrow>
             let m = app_metrics app
             in Some (s\<lparr>gs_app := app\<lparr>app_metrics := m\<lparr>gm_ingress_points := gm_ingress_points m + 1\<rparr>\<rparr>,
                  gs_ingress := I_push ps\<rparr>)
         | I_report \<Rightarrow>
             (case touch HEARTBEAT_THREAD_INGRESS app w of
                (app1, w1) \<Rightarrow>
                  let app2 = store_queue_metrics app1
                  in map_option (\<lambda>w2. s\<lparr>gs_app := app2, gs_env := w2, gs_ingress := I_poll\<rparr>)
                       (edgeflow_sleep_ms (cfg_poll_interval_ms (app_cfg app2)) w1))
         | I_done \<Rightarrow> Some s)"

subsection \<open>Worker\<close>

definition worker_append :: "telemetry_t \<Rightarrow> 'd gateway_app_t \<Rightarrow> 'd env \<Rightarrow> int \<times> 'd env" where
  "worker_append point app w =
     (case storage_append_telemetry (app_storage app) (Some point) (Some 0) w of
        (rc, row_id, w1) \<Rightarrow> (the row_id, if rc \<noteq> 0 then log_warn ''storage append telemetry failed'' w1 else w1))"

definition worker_step :: "'d gateway_sys \<Rightarrow> 'd gateway_sys option" where
  "worker_step s =
     (let app = gs_app s; g = gs_statics s; w = gs_env s; m = app_metrics app
      in case gs_worker s of
           W_pop \<Rightarrow>
             if \<not> app_running app then
               (case write_metrics app w of (app1, w1) \<Rightarrow> Some (s\<lparr>gs_app := app1, gs_env := w1, gs_worker := W_done\<rparr>))
             else
               (case spsc_ring_pop (Some (app_ring app)) (Some telemetry_zero) of
                  (ok, popped, r) \<Rightarrow>
                    Some (s\<lparr>gs_app := app\<lparr>app_ring := the r\<rparr>, gs_worker := if ok then W_popped (the popped) else W_nap\<rparr>))
         | W_nap \<Rightarrow>
             (case touch HEARTBEAT_THREAD_WORKER app w of
                (app1, w1) \<Rightarrow> map_option (\<lambda>w2. s\<lparr>gs_app := app1, gs_env := w2, gs_worker := W_pop\<rparr>) (edgeflow_sleep_ms 20 w1))
         | W_popped p \<Rightarrow>
             let point = apply_quality_rules (app_cfg app) p
             in (case worker_append point app w of
                   (row_id, w1) \<Rightarrow> Some (s\<lparr>gs_env := w1, gs_worker := W_stored point row_id\<rparr>))
         | W_stored point row_id \<Rightarrow>
             Some (s\<lparr>gs_app := app\<lparr>app_metrics := m\<lparr>gm_processed_points := gm_processed_points m + 1\<rparr>\<rparr>,
               gs_worker := W_counted point row_id\<rparr>)
         | W_counted point row_id \<Rightarrow>
             (case worker_decide point (app, g, w) of
                (app1, g1, w1) \<Rightarrow>
                  Some (s\<lparr>gs_app := app1, gs_statics := g1, gs_env := w1, gs_worker := W_decided point row_id\<rparr>))
         | W_decided point row_id \<Rightarrow>
             map_option (\<lambda>(rc, session, w1). s\<lparr>gs_app := app\<lparr>app_mqtt := the session\<rparr>, gs_env := w1,
                 gs_worker := if rc = 0 then W_sent point row_id else W_failed\<rparr>)
               (mqtt_session_publish_telemetry (Some (app_mqtt app)) (Some point) w)
         | W_sent point row_id \<Rightarrow>
             Some (s\<lparr>gs_app := app\<lparr>app_metrics := m\<lparr>gm_mqtt_publish_ok := gm_mqtt_publish_ok m + 1\<rparr>\<rparr>,
               gs_worker := if 0 < row_id then W_mark point row_id else W_report\<rparr>)
         | W_mark point row_id \<Rightarrow>
             Some (s\<lparr>gs_env := snd (storage_mark_telemetry_uploaded (app_storage app) row_id w), gs_worker := W_report\<rparr>)
         | W_failed \<Rightarrow>
             Some (s\<lparr>gs_app := app\<lparr>app_metrics := m\<lparr>gm_mqtt_publish_fail := gm_mqtt_publish_fail m + 1\<rparr>\<rparr>,
               gs_worker := W_report\<rparr>)
         | W_report \<Rightarrow>
             (case worker_report (gs_last_metrics s) (app, g, w) of
                (t, app1, g1, w1) \<Rightarrow>
                  Some (s\<lparr>gs_app := app1, gs_statics := g1, gs_env := w1, gs_last_metrics := t, gs_worker := W_pop\<rparr>))
         | W_done \<Rightarrow> Some s)"

subsection \<open>Monitor\<close>

text \<open>A step at \<open>M_wait\<close> is a tick of the timer, or the end of the thread's loop.\<close>

definition monitor_prologue :: "'d gateway_app_t \<Rightarrow> statics \<Rightarrow> 'd env \<Rightarrow> 'd gateway_app_t \<times> 'd env" where
  "monitor_prologue app g w =
     (let (app1, w1) = touch HEARTBEAT_THREAD_MONITOR app w;
          w2 = watchdog_notify_alive (sg_watchdog g) w1;
          (ingress_age, w3) = heartbeat_age_ms (Some (app_heartbeat app1)) HEARTBEAT_THREAD_INGRESS w2;
          (worker_age, w4) = heartbeat_age_ms (Some (app_heartbeat app1)) HEARTBEAT_THREAD_WORKER w3;
          w5 = warn_stale ''ingress'' (app_cfg app1) ingress_age w4
      in (app1, warn_stale ''worker'' (app_cfg app1) worker_age w5))"

text \<open>The critical section of \<^verbatim>\<open>mqtt_session_replay_pending\<close>.\<close>

definition replay_locked ::
    "storage_ctx_t option \<Rightarrow> storage_telemetry_row_t list \<Rightarrow> gateway_metrics_t \<Rightarrow> mqtt_session_t \<Rightarrow> 'd env \<Rightarrow>
     (gateway_metrics_t \<times> mqtt_session_t \<times> 'd env) option" where
  "replay_locked storage rows m session w =
     Option.bind (mqtt_ensure_connected_locked session w) (\<lambda>(rc, s1, w1).
       if rc = 0 then map_option (\<lambda>(_, m1, s2, w2). (the m1, s2, w2)) (replay_rows storage rows 0 (Some m) s1 w1)
       else Some (m, s1, w1))"

definition monitor_beat :: "'d gateway_app_t \<Rightarrow> 'd env \<Rightarrow> (mqtt_session_t \<times> 'd env) option" where
  "monitor_beat app w =
     (let (n, w1) = storage_pending_telemetry_count (app_storage app) w;
          (now, w2) = edgeflow_now_ms w1;
          hb_payload = snprintf 128 (heartbeat_json (cfg_device_id (app_cfg app)) now (ucast n))
      in map_option (\<lambda>(_, session, w3). (the session, w3))
           (mqtt_session_publish_heartbeat (Some (app_mqtt app)) (Some hb_payload) w2))"

definition monitor_step :: "'d gateway_sys \<Rightarrow> 'd gateway_sys option" where
  "monitor_step s =
     (let app = gs_app s; g = gs_statics s; w = gs_env s
      in case gs_monitor s of
           M_wait \<Rightarrow>
             if \<not> app_running app then Some (s\<lparr>gs_monitor := M_done\<rparr>)
             else (case monitor_prologue app g w of
                     (app1, w1) \<Rightarrow> Some (s\<lparr>gs_app := app1, gs_env := w1, gs_monitor := M_fetch\<rparr>))
         | M_fetch \<Rightarrow>
             if app_storage app = None then Some (s\<lparr>gs_monitor := M_ping\<rparr>)
             else
               (case storage_fetch_pending_telemetry (app_storage app) True
                       (replay_batch (cfg_mqtt_replay_batch (ms_cfg (app_mqtt app)))) w of
                  (frc, rows, count, w1) \<Rightarrow>
                    Some (s\<lparr>gs_env := w1, gs_monitor := if frc < 0 then M_ping else M_send (take count rows)\<rparr>))
         | M_send rows \<Rightarrow>
             map_option (\<lambda>(m, session, w1). s\<lparr>gs_app := app\<lparr>app_metrics := m, app_mqtt := session\<rparr>, gs_env := w1,
                 gs_monitor := M_gauge\<rparr>)
               (replay_locked (app_storage app) rows (app_metrics app) (app_mqtt app) w)
         | M_gauge \<Rightarrow>
             (case storage_pending_telemetry_count (app_storage app) w of
                (n, w1) \<Rightarrow>
                  Some (s\<lparr>gs_app := app\<lparr>app_metrics := (app_metrics app)\<lparr>gm_storage_pending_count := ucast n\<rparr>\<rparr>,
                    gs_env := w1, gs_monitor := M_ping\<rparr>))
         | M_ping \<Rightarrow>
             map_option (\<lambda>(_, session, w1). s\<lparr>gs_app := app\<lparr>app_mqtt := the session\<rparr>, gs_env := w1, gs_monitor := M_beat\<rparr>)
               (mqtt_session_ping (Some (app_mqtt app)) w)
         | M_beat \<Rightarrow>
             map_option (\<lambda>(session, w1). s\<lparr>gs_app := app\<lparr>app_mqtt := session\<rparr>, gs_env := w1, gs_monitor := M_write\<rparr>)
               (monitor_beat app w)
         | M_write \<Rightarrow>
             (case write_metrics app w of (app1, w1) \<Rightarrow> Some (s\<lparr>gs_app := app1, gs_env := w1, gs_monitor := M_wait\<rparr>))
         | M_done \<Rightarrow> Some s)"

subsection \<open>Main thread and signal\<close>

definition on_signal :: "'d gateway_sys \<Rightarrow> 'd gateway_sys" where
  "on_signal s = s\<lparr>gs_exit_requested := True\<rparr>"

definition threads_done :: "'d gateway_sys \<Rightarrow> bool" where
  "threads_done s \<longleftrightarrow> gs_ingress s = I_done \<and> gs_worker s = W_done \<and> gs_monitor s = M_done"

text \<open>
  The wait of \<^verbatim>\<open>main\<close>, then \<^verbatim>\<open>gateway_app_stop\<close>: its first statement, and, once the threads have
  ended and the joins return, the rest of it.
\<close>

definition main_step :: "'d gateway_sys \<Rightarrow> 'd gateway_sys option" where
  "main_step s =
     (case gs_main s of
        P_wait \<Rightarrow>
          if gs_exit_requested s then
            Some (s\<lparr>gs_app := (gs_app s)\<lparr>app_running := False\<rparr>, gs_main := P_join\<rparr>)
          else map_option (\<lambda>w1. s\<lparr>gs_env := w1\<rparr>) (edgeflow_sleep_ms 200 (gs_env s))
      | P_join \<Rightarrow>
          if threads_done s then
            (case gateway_app_stop (Some (gs_app s)) (gs_statics s) (gs_env s) of
               (app, g, w) \<Rightarrow> Some (s\<lparr>gs_app := the app, gs_statics := g, gs_env := w, gs_main := P_done\<rparr>))
          else Some s
      | P_done \<Rightarrow> Some s)"

datatype agent = A_ingress | A_worker | A_monitor | A_main | A_signal

fun gateway_step :: "agent \<Rightarrow> 'd gateway_sys \<Rightarrow> 'd gateway_sys option" where
  "gateway_step A_ingress s = ingress_step s"
| "gateway_step A_worker s = worker_step s"
| "gateway_step A_monitor s = monitor_step s"
| "gateway_step A_main s = main_step s"
| "gateway_step A_signal s = Some (on_signal s)"

fun gateway_run :: "agent list \<Rightarrow> 'd gateway_sys \<Rightarrow> 'd gateway_sys option" where
  "gateway_run [] s = Some s"
| "gateway_run (a # as) s = Option.bind (gateway_step a s) (gateway_run as)"

text \<open>The state in which \<^verbatim>\<open>gateway_app_run\<close> leaves the threads it has started.\<close>

definition gateway_started :: "'d gateway_app_t \<Rightarrow> statics \<Rightarrow> 'd env \<Rightarrow> 'd gateway_sys" where
  "gateway_started app g w = \<lparr>gs_app = app, gs_statics = g, gs_env = w, gs_ingress = I_poll, gs_worker = W_pop,
     gs_last_metrics = 0, gs_monitor = M_wait, gs_main = P_wait, gs_exit_requested = False, gs_accepted = []\<rparr>"

subsection \<open>Runs\<close>

lemma gateway_run_append: "gateway_run (xs @ ys) s = Option.bind (gateway_run xs s) (gateway_run ys)"
proof (induction xs arbitrary: s)
  case (Cons a xs)
  then show ?case by (cases "gateway_step a s") auto
qed simp

locale step_invariant =
  fixes I :: "'d gateway_sys \<Rightarrow> bool"
  assumes step: "I s \<Longrightarrow> gateway_step a s = Some s' \<Longrightarrow> I s'"
begin

lemma run: "I s \<Longrightarrow> gateway_run as s = Some s' \<Longrightarrow> I s'"
  by (induction as arbitrary: s) (auto simp: bind_eq_Some_conv intro: step)

end

subsection \<open>Turns are schedules\<close>

lemma push_points_schedule:
  "gs_ingress s = I_push ps \<Longrightarrow>
     \<exists>n acc. gateway_run (replicate n A_ingress) s =
       Some (s\<lparr>gs_app := push_points ps (gs_app s), gs_ingress := I_push [], gs_accepted := gs_accepted s @ acc\<rparr>)"
proof (induction ps arbitrary: s)
  case Nil
  then show ?case by (intro exI [of _ 0] exI [of _ "[]"]) simp
next
  case (Cons p ps)
  obtain ok r where push: "spsc_ring_push (Some (app_ring (gs_app s))) (Some p) = (ok, r)" by (metis prod.exhaust)
  let ?app = "if ok then (gs_app s)\<lparr>app_ring := the r,
      app_metrics := (app_metrics (gs_app s))\<lparr>gm_ingress_points := gm_ingress_points (app_metrics (gs_app s)) + 1\<rparr>\<rparr>
    else (gs_app s)\<lparr>app_ring := the r\<rparr>"
  let ?s = "s\<lparr>gs_app := ?app, gs_ingress := I_push ps, gs_accepted := gs_accepted s @ (if ok then [p] else [])\<rparr>"
  have "gateway_run (replicate (if ok then 2 else 1) A_ingress) s = Some ?s"
    using Cons.prems push by (simp add: ingress_step_def numeral_2_eq_2 Let_def)
  moreover obtain n acc where "gateway_run (replicate n A_ingress) ?s =
      Some (?s\<lparr>gs_app := push_points ps ?app, gs_ingress := I_push [], gs_accepted := gs_accepted ?s @ acc\<rparr>)"
    using Cons.IH [of ?s] by auto
  ultimately have "gateway_run (replicate (if ok then 2 else 1) A_ingress @ replicate n A_ingress) s =
      Some (s\<lparr>gs_app := push_points (p # ps) (gs_app s), gs_ingress := I_push [],
        gs_accepted := gs_accepted s @ (if ok then [p] else []) @ acc\<rparr>)"
    unfolding gateway_run_append using push by simp
  then show ?case unfolding replicate_add [symmetric] by blast
qed

lemma ingress_schedule:
  assumes "ingress_turn (gs_app s, gs_statics s, gs_env s) = Some (app', g', w')" "gs_ingress s = I_poll" "app_running (gs_app s)"
  shows "\<exists>n acc. gateway_run (replicate n A_ingress) s =
    Some (s\<lparr>gs_app := app', gs_statics := g', gs_env := w', gs_accepted := gs_accepted s @ acc\<rparr>)"
proof -
  obtain n points ig w1 where po: "adapter_registry_poll_all (Some (app_registry (gs_app s))) (Some (replicate 8 telemetry_zero)) 8
      (sg_ingress (gs_statics s)) (gs_env s) = (n, points, ig, w1)" by (metis prod_cases4)
  define ps where "ps = (if 0 < n then take (nat n) (the points) else [])"
  let ?s = "s\<lparr>gs_statics := (gs_statics s)\<lparr>sg_ingress := ig\<rparr>, gs_env := w1, gs_ingress := I_push ps\<rparr>"
  have 1: "gateway_run (replicate 1 A_ingress) s = Some ?s"
    using assms(2,3) po by (simp add: ingress_step_def ps_def Let_def)
  obtain k acc where 2: "gateway_run (replicate k A_ingress) ?s =
      Some (?s\<lparr>gs_app := push_points ps (gs_app s), gs_ingress := I_push [], gs_accepted := gs_accepted s @ acc\<rparr>)"
    using push_points_schedule [of ?s ps] by auto
  have "push_points ps (gs_app s) = (if 0 < n then push_points (take (nat n) (the points)) (gs_app s) else gs_app s)"
    by (simp add: ps_def)
  then have 3: "gateway_run (replicate 2 A_ingress) (?s\<lparr>gs_app := push_points ps (gs_app s), gs_ingress := I_push [],
      gs_accepted := gs_accepted s @ acc\<rparr>) =
      Some (s\<lparr>gs_app := app', gs_statics := g', gs_env := w', gs_accepted := gs_accepted s @ acc\<rparr>)"
    using assms po by (cases s) (auto simp: ingress_step_def ingress_turn_def numeral_2_eq_2 Let_def split: prod.splits)
  have "gateway_run (replicate 1 A_ingress @ replicate k A_ingress @ replicate 2 A_ingress) s =
      Some (s\<lparr>gs_app := app', gs_statics := g', gs_env := w', gs_accepted := gs_accepted s @ acc\<rparr>)"
    unfolding gateway_run_append 1 bind.bind_lunit 2 3 ..
  then show ?thesis unfolding replicate_add [symmetric] by blast
qed

lemma worker_store_append:
  "worker_store q app w =
     (case worker_append q app w of (row, w1) \<Rightarrow>
        (row, app\<lparr>app_metrics := (app_metrics app)\<lparr>gm_processed_points := gm_processed_points (app_metrics app) + 1\<rparr>\<rparr>, w1))"
  by (simp add: worker_store_def worker_append_def Let_def split_beta)

lemma worker_schedule:
  assumes turn: "worker_turn (gs_last_metrics s) (gs_app s, gs_statics s, gs_env s) = Some (t', app', g', w')"
    and pc: "gs_worker s = W_pop" and run: "app_running (gs_app s)"
  shows "\<exists>n. gateway_run (replicate n A_worker) s =
    Some (s\<lparr>gs_app := app', gs_statics := g', gs_env := w', gs_last_metrics := t'\<rparr>)"
  using turn
proof (cases rule: worker_turn_cases)
  case (idle r)
  obtain x y where "spsc_ring_pop (Some (app_ring (gs_app s))) (Some telemetry_zero) = (False, x, y)" "r = the y"
    using idle(1,2) by (auto simp: ring_pop_def dest: ring_pop_x split: prod.splits if_splits)
  then have "gateway_run (replicate 2 A_worker) s = Some (s\<lparr>gs_app := app', gs_statics := g', gs_env := w', gs_last_metrics := t'\<rparr>)"
    using pc run idle by (cases s) (auto simp: worker_step_def Let_def numeral_2_eq_2 split: prod.splits)
  then show ?thesis by blast
next
  case (point p q r row app2 w2 app3 g3 w3 app4 g4 w4)
  obtain y where pop: "spsc_ring_pop (Some (app_ring (gs_app s))) (Some telemetry_zero) = (True, Some p, y)" "r = the y"
    using point(1,2) by (auto simp: ring_pop_def split: prod.splits if_splits)
  obtain rc u w5 where pub: "mqtt_session_publish_telemetry (Some (app_mqtt app3)) (Some q) w3 = Some (rc, u, w5)"
    using point(6) by (auto simp: worker_publish_def bind_eq_Some_conv)
  let ?s4 = "s\<lparr>gs_app := app3, gs_statics := g3, gs_env := w3, gs_worker := W_decided q row\<rparr>"
  let ?s7 = "s\<lparr>gs_app := app4, gs_statics := g4, gs_env := w4, gs_worker := W_report\<rparr>"
  let ?k = "if rc = 0 \<and> 0 < row then 3 else 2"
  have 1: "gateway_run (replicate 4 A_worker) s = Some ?s4"
    using pc run pop point(3-5) by (simp add: worker_step_def worker_store_append Let_def eval_nat_numeral split: prod.splits)
  have 2: "gateway_run (replicate ?k A_worker) ?s4 = Some ?s7"
    using pub point(6) by (auto simp: worker_step_def worker_publish_def Let_def eval_nat_numeral)
  have 3: "gateway_run (replicate 1 A_worker) ?s7 = Some (s\<lparr>gs_app := app', gs_statics := g', gs_env := w', gs_last_metrics := t'\<rparr>)"
    using point(7) pc by (cases s) (simp add: worker_step_def)
  have "gateway_run (replicate 4 A_worker @ replicate ?k A_worker @ replicate 1 A_worker) s =
      Some (s\<lparr>gs_app := app', gs_statics := g', gs_env := w', gs_last_metrics := t'\<rparr>)"
    unfolding gateway_run_append 1 bind.bind_lunit 2 3 ..
  then show ?thesis unfolding replicate_add [symmetric] by blast
qed

text \<open>The monitor's replay is its fetch, its critical section and its gauge.\<close>

lemma replay_pending_split:
  "mqtt_session_replay_pending (Some s) (Some c) (Some m) w =
     (case storage_fetch_pending_telemetry (Some c) True (replay_batch (cfg_mqtt_replay_batch (ms_cfg s))) w of
        (frc, rows, count, w1) \<Rightarrow>
          if frc < 0 then Some (0, Some s, Some m, w1)
          else Option.bind (mqtt_ensure_connected_locked s w1) (\<lambda>(rc, s1, w2).
                 Option.bind (if rc = 0 then replay_rows (Some c) (take count rows) 0 (Some m) s1 w2 else Some (0, Some m, s1, w2))
                   (\<lambda>(n, m1, s2, w3). case storage_pending_telemetry_count (Some c) w3 of
                      (x, w4) \<Rightarrow> Some (n, Some s2, Some ((the m1)\<lparr>gm_storage_pending_count := ucast x\<rparr>), w4))))"
proof -
  have "m1 \<noteq> None" if "replay_rows st rows k (Some m) u v = Some (n, m1, u', v')" for st rows k u v n m1 u' and v' :: "'a env"
    using replay_rows_metrics [OF that] by auto
  then show ?thesis
    by (fastforce simp: mqtt_session_replay_pending_def split: prod.splits option.splits bind_splits if_splits)
qed

lemma replay_schedule:
  assumes rp: "mqtt_session_replay_pending (Some (app_mqtt (gs_app s))) (app_storage (gs_app s)) (Some (app_metrics (gs_app s))) (gs_env s) =
      Some (n, Some u, Some m, w')" and pc: "gs_monitor s = M_fetch"
  shows "\<exists>k. gateway_run (replicate k A_monitor) s =
    Some (s\<lparr>gs_app := (gs_app s)\<lparr>app_mqtt := u, app_metrics := m\<rparr>, gs_env := w', gs_monitor := M_ping\<rparr>)"
proof (cases "app_storage (gs_app s)")
  case None
  then show ?thesis using rp pc
    by (intro exI [of _ 1]) (cases "gs_app s"; simp add: monitor_step_def mqtt_session_replay_pending_def)
next
  case (Some c)
  obtain frc rows count w1 where f: "storage_fetch_pending_telemetry (Some c) True
      (replay_batch (cfg_mqtt_replay_batch (ms_cfg (app_mqtt (gs_app s))))) (gs_env s) = (frc, rows, count, w1)" by (metis prod_cases4)
  note d = rp [unfolded Some replay_pending_split f prod.case]
  show ?thesis
  proof (cases "frc < 0")
    case True
    then show ?thesis using d pc Some f by (intro exI [of _ 1]) (cases "gs_app s"; auto simp: monitor_step_def)
  next
    case False
    then obtain rc s1 w2 k m1 s2 w3 where "mqtt_ensure_connected_locked (app_mqtt (gs_app s)) w1 = Some (rc, s1, w2)"
      "(if rc = 0 then replay_rows (Some c) (take count rows) 0 (Some (app_metrics (gs_app s))) s1 w2
        else Some (0, Some (app_metrics (gs_app s)), s1, w2)) = Some (k, m1, s2, w3)"
      using d by (auto simp: bind_eq_Some_conv)
    then show ?thesis using d pc Some f False
      by (intro exI [of _ 3]) (auto simp: monitor_step_def replay_locked_def eval_nat_numeral split: prod.splits if_splits)
  qed
qed

lemma monitor_on_timer_split:
  "app_running app \<Longrightarrow> monitor_on_timer (app, g) w = (case monitor_prologue app g w of (app1, w1) \<Rightarrow>
      Option.bind (mqtt_session_replay_pending (Some (app_mqtt app1)) (app_storage app1) (Some (app_metrics app1)) w1)
      (\<lambda>(_, u, m, w2). Option.bind (mqtt_session_ping u w2) (\<lambda>(_, u2, w3).
        let (n, w4) = storage_pending_telemetry_count (app_storage app1) w3;
            (now, w5) = edgeflow_now_ms w4;
            hb_payload = snprintf 128 (heartbeat_json (cfg_device_id (app_cfg app1)) now (ucast n))
        in Option.bind (mqtt_session_publish_heartbeat u2 (Some hb_payload) w5) (\<lambda>(_, u3, w6).
             let (app2, w7) = write_metrics (app1\<lparr>app_mqtt := the u3, app_metrics := the m\<rparr>) w6 in Some ((app2, g), w7)))))"
  by (simp add: monitor_on_timer_def monitor_prologue_def Let_def split_beta)

lemma monitor_schedule:
  assumes tick: "monitor_on_timer (gs_app s, gs_statics s) (gs_env s) = Some ((app', g'), w')"
    and pc: "gs_monitor s = M_wait" and run: "app_running (gs_app s)"
  shows "\<exists>n. gateway_run (replicate n A_monitor) s = Some (s\<lparr>gs_app := app', gs_statics := g', gs_env := w'\<rparr>)"
proof -
  let ?g = "gs_statics s"
  obtain app1 w1 where pr: "monitor_prologue (gs_app s) ?g (gs_env s) = (app1, w1)" by (metis prod.exhaust)
  let ?s1 = "s\<lparr>gs_app := app1, gs_env := w1, gs_monitor := M_fetch\<rparr>"
  have 1: "gateway_run (replicate 1 A_monitor) s = Some ?s1" using pc run pr by (simp add: monitor_step_def)
  note d = tick [unfolded monitor_on_timer_split [OF run] pr prod.case]
  obtain n u m w2 where rp: "mqtt_session_replay_pending (Some (app_mqtt app1)) (app_storage app1) (Some (app_metrics app1)) w1 =
      Some (n, Some u, Some m, w2)"
  proof -
    obtain n v m w2 where r: "mqtt_session_replay_pending (Some (app_mqtt app1)) (app_storage app1) (Some (app_metrics app1)) w1 =
        Some (n, v, m, w2)" using d by (auto simp: bind_eq_Some_conv)
    then show ?thesis using that replay_metrics [OF r] descriptors.R_replay_pending [OF r] by blast
  qed
  let ?a = "app1\<lparr>app_mqtt := u, app_metrics := m\<rparr>"
  have 2: "\<exists>k. gateway_run (replicate k A_monitor) ?s1 = Some (s\<lparr>gs_app := ?a, gs_env := w2, gs_monitor := M_ping\<rparr>)"
    using replay_schedule [of ?s1] rp by simp
  then obtain k where 2: "gateway_run (replicate k A_monitor) ?s1 = Some (s\<lparr>gs_app := ?a, gs_env := w2, gs_monitor := M_ping\<rparr>)" ..
  obtain r3 u3 w3 where pg: "mqtt_session_ping (Some u) w2 = Some (r3, Some u3, w3)"
  proof -
    obtain r3 v w3 where "mqtt_session_ping (Some u) w2 = Some (r3, v, w3)" using d rp by (auto simp: bind_eq_Some_conv)
    then show ?thesis using that descriptors.R_ping by blast
  qed
  obtain x w4 where ct: "storage_pending_telemetry_count (app_storage app1) w3 = (x, w4)" by (metis prod.exhaust)
  obtain now w5 where no: "edgeflow_now_ms w4 = (now, w5)" by (metis prod.exhaust)
  define pl where "pl = snprintf 128 (heartbeat_json (cfg_device_id (app_cfg app1)) now (ucast x))"
  obtain r4 u4 w6 where ph: "mqtt_session_publish_heartbeat (Some u3) (Some pl) w5 = Some (r4, u4, w6)"
    using d rp pg ct no by (auto simp: bind_eq_Some_conv pl_def)
  have comm: "app1\<lparr>app_mqtt := v, app_metrics := m\<rparr> = app1\<lparr>app_metrics := m, app_mqtt := v\<rparr>" for v by (cases app1) simp
  have wm: "write_metrics (app1\<lparr>app_metrics := m, app_mqtt := the u4\<rparr>) w6 = (app', w')" "g' = ?g"
    using d rp pg ct no ph by (auto simp: pl_def comm split: prod.splits)
  have "monitor_beat (?a\<lparr>app_mqtt := u3\<rparr>) w3 = Some (the u4, w6)" using ct no ph by (simp add: monitor_beat_def pl_def)
  then have 3: "gateway_run (replicate 3 A_monitor) (s\<lparr>gs_app := ?a, gs_env := w2, gs_monitor := M_ping\<rparr>) =
      Some (s\<lparr>gs_app := app', gs_statics := g', gs_env := w'\<rparr>)"
    using pg wm pc by (cases s) (simp add: monitor_step_def eval_nat_numeral)
  have "gateway_run (replicate 1 A_monitor @ replicate k A_monitor @ replicate 3 A_monitor) s =
      Some (s\<lparr>gs_app := app', gs_statics := g', gs_env := w'\<rparr>)"
    unfolding gateway_run_append 1 bind.bind_lunit 2 3 ..
  then show ?thesis unfolding replicate_add [symmetric] by blast
qed

text \<open>All threads at the head of their loops.\<close>

definition at_rest :: "'d gateway_sys \<Rightarrow> bool" where
  "at_rest s \<longleftrightarrow> gs_ingress s = I_poll \<and> gs_worker s = W_pop \<and> gs_monitor s = M_wait \<and> app_running (gs_app s)"

lemma turn_schedule:
  assumes "at_rest s" "app_turn u (gs_last_metrics s, gs_app s, gs_statics s, gs_env s) = Some (t', app', g', w')"
  shows "\<exists>sched acc. gateway_run sched s = Some (s\<lparr>gs_app := app', gs_statics := g', gs_env := w', gs_last_metrics := t', gs_accepted := acc\<rparr>) \<and>
    app_running app'"
proof -
  note r = assms(1) [unfolded at_rest_def]
  let ?s = "\<lambda>acc. s\<lparr>gs_app := app', gs_statics := g', gs_env := w', gs_last_metrics := t', gs_accepted := acc\<rparr>"
  have same: "s\<lparr>gs_app := app', gs_statics := g', gs_env := w', gs_last_metrics := t'\<rparr> = ?s (gs_accepted s)"
    "t' = gs_last_metrics s \<Longrightarrow> s\<lparr>gs_app := app', gs_statics := g', gs_env := w'\<rparr> = ?s (gs_accepted s)"
    "t' = gs_last_metrics s \<Longrightarrow> s\<lparr>gs_app := app', gs_statics := g', gs_env := w', gs_accepted := acc\<rparr> = ?s acc" for acc
    by (cases s; simp)+
  show ?thesis
  proof (cases u)
    case T_ingress
    then have t: "ingress_turn (gs_app s, gs_statics s, gs_env s) = Some (app', g', w')" "t' = gs_last_metrics s" using assms(2) by auto
    obtain n acc where n: "gateway_run (replicate n A_ingress) s =
        Some (s\<lparr>gs_app := app', gs_statics := g', gs_env := w', gs_accepted := gs_accepted s @ acc\<rparr>)"
      using ingress_schedule [OF t(1)] r by blast
    have "gateway_run (replicate n A_ingress) s = Some (?s (gs_accepted s @ acc))"
      unfolding n option.inject by (rule same(3) [OF t(2)])
    then show ?thesis using ingress_turn_effect(4) [OF t(1)] r by blast
  next
    case T_worker
    then have t: "worker_turn (gs_last_metrics s) (gs_app s, gs_statics s, gs_env s) = Some (t', app', g', w')" using assms(2) by simp
    obtain n where n: "gateway_run (replicate n A_worker) s = Some (s\<lparr>gs_app := app', gs_statics := g', gs_env := w', gs_last_metrics := t'\<rparr>)"
      using worker_schedule [OF t] r by blast
    have "gateway_run (replicate n A_worker) s = Some (?s (gs_accepted s))" unfolding n option.inject by (rule same(1))
    moreover have "app_running app'" using worker_turn_effect [OF t] r by blast
    ultimately show ?thesis by blast
  next
    case T_monitor
    then have t: "monitor_on_timer (gs_app s, gs_statics s) (gs_env s) = Some ((app', g'), w')" "t' = gs_last_metrics s"
      using assms(2) by (auto split: prod.splits)
    obtain n where n: "gateway_run (replicate n A_monitor) s = Some (s\<lparr>gs_app := app', gs_statics := g', gs_env := w'\<rparr>)"
      using monitor_schedule [OF t(1)] r by blast
    have "gateway_run (replicate n A_monitor) s = Some (?s (gs_accepted s))" unfolding n option.inject by (rule same(2) [OF t(2)])
    then show ?thesis using monitor_effect(5) [OF t(1)] r by blast
  qed
qed

lemma turns_schedule:
  assumes "at_rest s" "app_turns us (gs_last_metrics s, gs_app s, gs_statics s, gs_env s) = Some (t', app', g', w')"
  shows "\<exists>sched acc. gateway_run sched s = Some (s\<lparr>gs_app := app', gs_statics := g', gs_env := w', gs_last_metrics := t', gs_accepted := acc\<rparr>)"
  using assms
proof (induction us arbitrary: s)
  case Nil
  then show ?case by (intro exI [of _ "[]"] exI [of _ "gs_accepted s"]) simp
next
  case (Cons u us)
  obtain t1 app1 g1 w1 where u: "app_turn u (gs_last_metrics s, gs_app s, gs_statics s, gs_env s) = Some (t1, app1, g1, w1)"
    and rest: "app_turns us (t1, app1, g1, w1) = Some (t', app', g', w')"
    using Cons.prems(2) by (auto simp: bind_eq_Some_conv)
  obtain as acc where 1: "gateway_run as s = Some (s\<lparr>gs_app := app1, gs_statics := g1, gs_env := w1, gs_last_metrics := t1, gs_accepted := acc\<rparr>)"
    and run: "app_running app1" using turn_schedule [OF Cons.prems(1) u] by blast
  let ?s = "s\<lparr>gs_app := app1, gs_statics := g1, gs_env := w1, gs_last_metrics := t1, gs_accepted := acc\<rparr>"
  obtain bs acc' where 2: "gateway_run bs ?s = Some (?s\<lparr>gs_app := app', gs_statics := g', gs_env := w', gs_last_metrics := t', gs_accepted := acc'\<rparr>)"
    using Cons.IH [of ?s] rest run Cons.prems(1) by (auto simp: at_rest_def)
  have "gateway_run (as @ bs) s = Some (s\<lparr>gs_app := app', gs_statics := g', gs_env := w', gs_last_metrics := t', gs_accepted := acc'\<rparr>)"
    unfolding gateway_run_append 1 bind.bind_lunit 2 by simp
  then show ?case by blast
qed



end
