(* ===== verification/Gateway_Runs.thy ===== *)
theory Gateway_Runs
  imports Gateway_Steps
begin

text \<open>
  What holds in every schedule of \<open>Gateway_Steps\<close>: what a step leaves alone, how a thread ends once
  the running flag is cleared, and the books the counters keep at every program point.
\<close>

subsection \<open>Cases of the steps\<close>

text \<open>What showing signs of life and writing gauges leave alone.\<close>

definition gauges_only :: "'d gateway_app_t \<Rightarrow> 'd gateway_app_t \<Rightarrow> bool" where
  "gauges_only a b \<longleftrightarrow> app_cfg b = app_cfg a \<and> app_registry b = app_registry a \<and> app_ring b = app_ring a \<and>
     app_state_engine b = app_state_engine a \<and> app_storage b = app_storage a \<and> app_mqtt b = app_mqtt a \<and>
     app_running b = app_running a \<and> counts (app_metrics b) = counts (app_metrics a)"

lemma gauges_only_simps:
  "gauges_only a (fst (touch t a w))" "gauges_only a (fst (write_metrics a w))" "gauges_only a (fst (snd (worker_report n (a, g, w))))"
  "gauges_only a (store_queue_metrics (fst (touch t a w)))"
  by (simp_all add: gauges_only_def frame_simps)

lemma notify_tame: "tame rows w (watchdog_notify_alive wd w)"
proof -
  have "tame rows w (snd (syscall (C_write f b) w))" for f b by (rule tame_syscall) simp_all
  then show ?thesis by (simp add: watchdog_notify_alive_def send_notify_def)
qed

lemma stale_tame: "tame rows w (warn_stale who cfg age w)"
  by (simp add: warn_stale_def)

lemma prologue_tame: "monitor_prologue app g w = (app1, w1) \<Longrightarrow> tame rows w w1"
proof -
  assume p: "monitor_prologue app g w = (app1, w1)"
  obtain a w2 where t: "touch HEARTBEAT_THREAD_MONITOR app w = (a, w2)" by (metis prod.exhaust)
  let ?w3 = "watchdog_notify_alive (sg_watchdog g) w2"
  have "tame rows w w2" using tame_touch t by (metis snd_conv)
  also have "tame rows w2 ?w3" by (rule notify_tame)
  also have "tame rows ?w3 w1"
    using p t tame_trans [OF tame_trans [OF tame_trans [OF tame_heartbeat(1) tame_heartbeat(1)] stale_tame] stale_tame]
    by (auto simp: monitor_prologue_def Let_def split_beta)
  finally show ?thesis .
qed

lemma prologue_gauges: "monitor_prologue app g w = (app1, w1) \<Longrightarrow> gauges_only app app1"
  using gauges_only_simps(1) [of app HEARTBEAT_THREAD_MONITOR w] by (auto simp: monitor_prologue_def Let_def split: prod.splits)

lemma ingress_step_cases:
  fixes s s' :: "'d gateway_sys"
  assumes "ingress_step s = Some s'"
  obtains (stop) "gs_ingress s = I_poll" "\<not> app_running (gs_app s)" "s' = s\<lparr>gs_ingress := I_done\<rparr>"
  | (poll) n points ig w1 where "gs_ingress s = I_poll" "app_running (gs_app s)"
      "adapter_registry_poll_all (Some (app_registry (gs_app s))) (Some (replicate 8 telemetry_zero)) 8
         (sg_ingress (gs_statics s)) (gs_env s) = (n, points, ig, w1)"
      "s' = s\<lparr>gs_statics := (gs_statics s)\<lparr>sg_ingress := ig\<rparr>, gs_env := w1,
         gs_ingress := I_push (if 0 < n then take (nat n) (the points) else [])\<rparr>"
  | (pushed) "gs_ingress s = I_push []" "s' = s\<lparr>gs_ingress := I_report\<rparr>"
  | (accept) p ps r where "gs_ingress s = I_push (p # ps)" "ring_push (app_ring (gs_app s)) p = (True, r)"
      "s' = s\<lparr>gs_app := (gs_app s)\<lparr>app_ring := r\<rparr>, gs_ingress := I_count ps, gs_accepted := gs_accepted s @ [p]\<rparr>"
  | (refuse) p ps r where "gs_ingress s = I_push (p # ps)" "ring_push (app_ring (gs_app s)) p = (False, r)"
      "s' = s\<lparr>gs_app := (gs_app s)\<lparr>app_ring := r\<rparr>, gs_ingress := I_push ps\<rparr>"
  | (count) ps where "gs_ingress s = I_count ps" "s' = s\<lparr>gs_app := (gs_app s)\<lparr>app_metrics :=
         (app_metrics (gs_app s))\<lparr>gm_ingress_points := gm_ingress_points (app_metrics (gs_app s)) + 1\<rparr>\<rparr>, gs_ingress := I_push ps\<rparr>"
  | (report) app1 w1 where "gs_ingress s = I_report" "gauges_only (gs_app s) app1" "\<forall>rows :: 'd \<Rightarrow> tel_row list. tame rows (gs_env s) w1"
      "s' = s\<lparr>gs_app := app1, gs_env := w1, gs_ingress := I_poll\<rparr>"
  | (ended) "gs_ingress s = I_done" "s' = s"
proof (cases "gs_ingress s")
  case I_report
  obtain app1 w1 where t: "touch HEARTBEAT_THREAD_INGRESS (gs_app s) (gs_env s) = (app1, w1)" by (metis prod.exhaust)
  then obtain w2 where w2: "edgeflow_sleep_ms (cfg_poll_interval_ms (app_cfg (store_queue_metrics app1))) w1 = Some w2"
    "s' = s\<lparr>gs_app := store_queue_metrics app1, gs_env := w2, gs_ingress := I_poll\<rparr>"
    using assms I_report by (auto simp: ingress_step_def Let_def)
  have "tame rows (gs_env s) w1" for rows :: "'d \<Rightarrow> tel_row list" using tame_touch t by (metis snd_conv)
  then show ?thesis
    using report [OF I_report, of "store_queue_metrics app1" w2] w2 tame_trans [OF _ tame_sleep [OF w2(1)]] gauges_only_simps(4) t by (metis fst_conv)
next
  case I_poll
  then show ?thesis using assms stop poll by (auto simp: ingress_step_def Let_def split: if_splits prod.splits)
next
  case (I_push ps)
  then show ?thesis using assms pushed accept refuse
    by (cases ps) (auto simp: ingress_step_def Let_def ring_push_def split: if_splits prod.splits)
next
  case (I_count ps)
  then show ?thesis using assms count [OF I_count] by (simp add: ingress_step_def Let_def)
next
  case I_done
  then have "s' = s" using assms by (simp add: ingress_step_def Let_def)
  then show ?thesis by (rule ended [OF I_done])
qed

lemma worker_quiet_step:
  fixes s s' :: "'d gateway_sys"
  assumes "worker_step s = Some s'"
    and "gs_worker s = W_pop \<and> \<not> app_running (gs_app s) \<and> pc = W_done \<or> gs_worker s \<in> {W_nap, W_report} \<and> pc = W_pop"
  shows "\<exists>app1 w1 t. gauges_only (gs_app s) app1 \<and> (\<forall>rows :: 'd \<Rightarrow> tel_row list. tame rows (gs_env s) w1) \<and>
    s' = s\<lparr>gs_app := app1, gs_env := w1, gs_last_metrics := t, gs_worker := pc\<rparr>"
proof -
  consider (stop) "gs_worker s = W_pop" "\<not> app_running (gs_app s)" "pc = W_done"
    | (nap) "gs_worker s = W_nap" "pc = W_pop" | (report) "gs_worker s = W_report" "pc = W_pop" using assms(2) by auto
  then show ?thesis
  proof cases
    case stop
    obtain app1 w1 where wm: "write_metrics (gs_app s) (gs_env s) = (app1, w1)" by (metis prod.exhaust)
    then have "gauges_only (gs_app s) app1" "\<forall>rows :: 'd \<Rightarrow> tel_row list. tame rows (gs_env s) w1"
      using gauges_only_simps(2) tame_write_metrics by (metis fst_conv snd_conv)+
    moreover have "s' = s\<lparr>gs_app := app1, gs_env := w1, gs_last_metrics := gs_last_metrics s, gs_worker := pc\<rparr>"
      using assms(1) stop wm by (cases s) (auto simp: worker_step_def Let_def)
    ultimately show ?thesis by blast
  next
    case nap
    obtain app1 w1 where t: "touch HEARTBEAT_THREAD_WORKER (gs_app s) (gs_env s) = (app1, w1)" by (metis prod.exhaust)
    then obtain w2 where w2: "edgeflow_sleep_ms 20 w1 = Some w2" "s' = s\<lparr>gs_app := app1, gs_env := w2, gs_last_metrics := gs_last_metrics s, gs_worker := pc\<rparr>"
      using assms(1) nap by (cases s) (auto simp: worker_step_def Let_def)
    have "gauges_only (gs_app s) app1" "tame rows (gs_env s) w1" for rows :: "'d \<Rightarrow> tel_row list"
      using gauges_only_simps(1) tame_touch t by (metis fst_conv snd_conv)+
    then show ?thesis using w2(2) tame_trans [OF _ tame_sleep [OF w2(1)]] by blast
  next
    case report
    obtain t app1 g1 w1 where r: "worker_report (gs_last_metrics s) (gs_app s, gs_statics s, gs_env s) = (t, app1, g1, w1)" by (metis prod_cases4)
    have "g1 = gs_statics s" using worker_report_frame(10) [of "gs_last_metrics s" "gs_app s" "gs_statics s" "gs_env s"] r by simp
    then have "s' = s\<lparr>gs_app := app1, gs_env := w1, gs_last_metrics := t, gs_worker := pc\<rparr>"
      using assms(1) report r by (cases s) (simp add: worker_step_def Let_def)
    moreover have "gauges_only (gs_app s) app1" "\<forall>rows :: 'd \<Rightarrow> tel_row list. tame rows (gs_env s) w1"
      using gauges_only_simps(3) tame_worker_report r by (metis fst_conv snd_conv)+
    ultimately show ?thesis by blast
  qed
qed

lemma worker_step_cases:
  fixes s s' :: "'d gateway_sys"
  assumes "worker_step s = Some s'"
  obtains (quiet) app1 w1 t pc where "gs_worker s = W_pop \<and> \<not> app_running (gs_app s) \<and> pc = W_done \<or> gs_worker s \<in> {W_nap, W_report} \<and> pc = W_pop"
      "gauges_only (gs_app s) app1" "\<forall>rows :: 'd \<Rightarrow> tel_row list. tame rows (gs_env s) w1"
      "s' = s\<lparr>gs_app := app1, gs_env := w1, gs_last_metrics := t, gs_worker := pc\<rparr>"
  | (empty) r where "gs_worker s = W_pop" "app_running (gs_app s)" "ring_pop (app_ring (gs_app s)) = (None, r)"
      "s' = s\<lparr>gs_app := (gs_app s)\<lparr>app_ring := r\<rparr>, gs_worker := W_nap\<rparr>"
  | (pop) p r where "gs_worker s = W_pop" "app_running (gs_app s)" "ring_pop (app_ring (gs_app s)) = (Some p, r)"
      "s' = s\<lparr>gs_app := (gs_app s)\<lparr>app_ring := r\<rparr>, gs_worker := W_popped p\<rparr>"
  | (store) p q row w1 where "gs_worker s = W_popped p" "q = apply_quality_rules (app_cfg (gs_app s)) p"
      "worker_append q (gs_app s) (gs_env s) = (row, w1)" "s' = s\<lparr>gs_env := w1, gs_worker := W_stored q row\<rparr>"
  | (count) q row where "gs_worker s = W_stored q row" "s' = s\<lparr>gs_app := (gs_app s)\<lparr>app_metrics :=
         (app_metrics (gs_app s))\<lparr>gm_processed_points := gm_processed_points (app_metrics (gs_app s)) + 1\<rparr>\<rparr>, gs_worker := W_counted q row\<rparr>"
  | (decide) q row app1 g1 w1 where "gs_worker s = W_counted q row"
      "worker_decide q (gs_app s, gs_statics s, gs_env s) = (app1, g1, w1)"
      "s' = s\<lparr>gs_app := app1, gs_statics := g1, gs_env := w1, gs_worker := W_decided q row\<rparr>"
  | (publish) q row rc u w1 where "gs_worker s = W_decided q row"
      "mqtt_session_publish_telemetry (Some (app_mqtt (gs_app s))) (Some q) (gs_env s) = Some (rc, Some u, w1)"
      "s' = s\<lparr>gs_app := (gs_app s)\<lparr>app_mqtt := u\<rparr>, gs_env := w1, gs_worker := if rc = 0 then W_sent q row else W_failed\<rparr>"
  | (ok) q row where "gs_worker s = W_sent q row" "s' = s\<lparr>gs_app := (gs_app s)\<lparr>app_metrics :=
         (app_metrics (gs_app s))\<lparr>gm_mqtt_publish_ok := gm_mqtt_publish_ok (app_metrics (gs_app s)) + 1\<rparr>\<rparr>,
         gs_worker := if 0 < row then W_mark q row else W_report\<rparr>"
  | (mark) q row where "gs_worker s = W_mark q row"
      "s' = s\<lparr>gs_env := snd (storage_mark_telemetry_uploaded (app_storage (gs_app s)) row (gs_env s)), gs_worker := W_report\<rparr>"
  | (fail) "gs_worker s = W_failed" "s' = s\<lparr>gs_app := (gs_app s)\<lparr>app_metrics :=
         (app_metrics (gs_app s))\<lparr>gm_mqtt_publish_fail := gm_mqtt_publish_fail (app_metrics (gs_app s)) + 1\<rparr>\<rparr>, gs_worker := W_report\<rparr>"
  | (ended) "gs_worker s = W_done" "s' = s"
proof (cases "gs_worker s")
  case W_pop
  obtain ok x r where sp: "spsc_ring_pop (Some (app_ring (gs_app s))) (Some telemetry_zero) = (ok, x, r)" by (metis prod_cases3)
  then have "ring_pop (app_ring (gs_app s)) = (if ok then x else None, the r)" "x \<noteq> None"
    using ring_pop_x by (auto simp: ring_pop_def)
  then have run: ?thesis if "app_running (gs_app s)"
    using assms W_pop sp empty pop that by (cases ok) (simp_all add: worker_step_def Let_def, fastforce+)
  then show ?thesis using worker_quiet_step [OF assms, of W_done] quiet W_pop by blast
next
  case W_nap
  then show ?thesis using worker_quiet_step [OF assms, of W_pop] quiet by blast
next
  case (W_popped p)
  then show ?thesis using assms store [OF W_popped refl]
    by (cases "worker_append (apply_quality_rules (app_cfg (gs_app s)) p) (gs_app s) (gs_env s)") (auto simp: worker_step_def Let_def)
next
  case (W_stored q row)
  then show ?thesis using assms count [OF W_stored] by (simp add: worker_step_def Let_def)
next
  case (W_counted q row)
  then show ?thesis using assms decide [OF W_counted]
    by (cases "worker_decide q (gs_app s, gs_statics s, gs_env s)") (auto simp: worker_step_def Let_def)
next
  case (W_sent q row)
  then show ?thesis using assms ok [OF W_sent] by (simp add: worker_step_def Let_def)
next
  case (W_mark q row)
  then show ?thesis using assms mark [OF W_mark] by (simp add: worker_step_def Let_def)
next
  case W_failed
  then show ?thesis using assms fail by (simp add: worker_step_def Let_def)
next
  case W_done
  then have "s' = s" using assms by (simp add: worker_step_def Let_def)
  then show ?thesis by (rule ended [OF W_done])
next
  case (W_decided q row)
  then obtain rc v w1 where p: "mqtt_session_publish_telemetry (Some (app_mqtt (gs_app s))) (Some q) (gs_env s) = Some (rc, v, w1)"
    using assms by (auto simp: worker_step_def Let_def)
  then obtain u where "v = Some u" using publish_telemetry_frame(1) by blast
  then show ?thesis using assms W_decided p publish [OF W_decided] by (simp add: worker_step_def Let_def)
next
  case W_report
  then show ?thesis using worker_quiet_step [OF assms, of W_pop] quiet by blast
qed

lemma monitor_step_cases:
  fixes s s' :: "'d gateway_sys"
  assumes "monitor_step s = Some s'"
  obtains (stop) "gs_monitor s = M_wait" "\<not> app_running (gs_app s)" "s' = s\<lparr>gs_monitor := M_done\<rparr>"
  | (quiet) app1 w1 pc where "gs_monitor s = M_wait \<and> app_running (gs_app s) \<and> pc = M_fetch \<or> gs_monitor s = M_write \<and> pc = M_wait"
      "gauges_only (gs_app s) app1" "\<forall>rows :: 'd \<Rightarrow> tel_row list. tame rows (gs_env s) w1"
      "s' = s\<lparr>gs_app := app1, gs_env := w1, gs_monitor := pc\<rparr>"
  | (no_store) "gs_monitor s = M_fetch" "app_storage (gs_app s) = None" "s' = s\<lparr>gs_monitor := M_ping\<rparr>"
  | (fetch) frc rows cnt w1 where "gs_monitor s = M_fetch" "app_storage (gs_app s) \<noteq> None"
      "storage_fetch_pending_telemetry (app_storage (gs_app s)) True (replay_batch (cfg_mqtt_replay_batch (ms_cfg (app_mqtt (gs_app s)))))
         (gs_env s) = (frc, rows, cnt, w1)"
      "s' = s\<lparr>gs_env := w1, gs_monitor := if frc < 0 then M_ping else M_send (take cnt rows)\<rparr>"
  | (send) rows m u w1 where "gs_monitor s = M_send rows"
      "replay_locked (app_storage (gs_app s)) rows (app_metrics (gs_app s)) (app_mqtt (gs_app s)) (gs_env s) = Some (m, u, w1)"
      "s' = s\<lparr>gs_app := (gs_app s)\<lparr>app_metrics := m, app_mqtt := u\<rparr>, gs_env := w1, gs_monitor := M_gauge\<rparr>"
  | (gauge) n w1 where "gs_monitor s = M_gauge" "storage_pending_telemetry_count (app_storage (gs_app s)) (gs_env s) = (n, w1)"
      "s' = s\<lparr>gs_app := (gs_app s)\<lparr>app_metrics := (app_metrics (gs_app s))\<lparr>gm_storage_pending_count := ucast n\<rparr>\<rparr>,
         gs_env := w1, gs_monitor := M_ping\<rparr>"
  | (ping) r u w1 where "gs_monitor s = M_ping" "mqtt_session_ping (Some (app_mqtt (gs_app s))) (gs_env s) = Some (r, Some u, w1)"
      "s' = s\<lparr>gs_app := (gs_app s)\<lparr>app_mqtt := u\<rparr>, gs_env := w1, gs_monitor := M_beat\<rparr>"
  | (beat) u w1 where "gs_monitor s = M_beat" "monitor_beat (gs_app s) (gs_env s) = Some (u, w1)"
      "s' = s\<lparr>gs_app := (gs_app s)\<lparr>app_mqtt := u\<rparr>, gs_env := w1, gs_monitor := M_write\<rparr>"
  | (ended) "gs_monitor s = M_done" "s' = s"
proof (cases "gs_monitor s")
  case M_wait
  obtain app1 w1 where p: "monitor_prologue (gs_app s) (gs_statics s) (gs_env s) = (app1, w1)" by (metis prod.exhaust)
  show ?thesis
  proof (cases "app_running (gs_app s)")
    case True
    then have "s' = s\<lparr>gs_app := app1, gs_env := w1, gs_monitor := M_fetch\<rparr>" using assms M_wait p by (simp add: monitor_step_def)
    then show ?thesis using quiet [OF _ prologue_gauges [OF p]] prologue_tame [OF p] M_wait True by blast
  next
    case False
    then show ?thesis using assms M_wait stop by (simp add: monitor_step_def)
  qed
next
  case M_fetch
  obtain frc rows cnt w1 where "storage_fetch_pending_telemetry (app_storage (gs_app s)) True
      (replay_batch (cfg_mqtt_replay_batch (ms_cfg (app_mqtt (gs_app s))))) (gs_env s) = (frc, rows, cnt, w1)" by (metis prod_cases4)
  then show ?thesis using assms M_fetch no_store fetch
    by (cases "app_storage (gs_app s) = None") (simp_all add: monitor_step_def Let_def)
next
  case (M_send rows)
  then show ?thesis using assms send [OF M_send] by (auto simp: monitor_step_def Let_def)
next
  case M_gauge
  obtain n w1 where "storage_pending_telemetry_count (app_storage (gs_app s)) (gs_env s) = (n, w1)" by (metis prod.exhaust)
  then show ?thesis using assms M_gauge gauge by (simp add: monitor_step_def Let_def)
next
  case M_beat
  then show ?thesis using assms beat [OF M_beat] by (auto simp: monitor_step_def Let_def)
next
  case M_write
  obtain app1 w1 where p: "write_metrics (gs_app s) (gs_env s) = (app1, w1)" by (metis prod.exhaust)
  then have "gauges_only (gs_app s) app1" "\<forall>rows :: 'd \<Rightarrow> tel_row list. tame rows (gs_env s) w1"
    using gauges_only_simps(2) tame_write_metrics by (metis fst_conv snd_conv)+
  moreover have "s' = s\<lparr>gs_app := app1, gs_env := w1, gs_monitor := M_wait\<rparr>" using assms M_write p by (simp add: monitor_step_def)
  ultimately show ?thesis using quiet M_write by blast
next
  case M_done
  then have "s' = s" using assms by (simp add: monitor_step_def)
  then show ?thesis by (rule ended [OF M_done])
next
  case M_ping
  then obtain r v w1 where p: "mqtt_session_ping (Some (app_mqtt (gs_app s))) (gs_env s) = Some (r, v, w1)"
    using assms by (auto simp: monitor_step_def Let_def)
  then obtain u where "v = Some u" using descriptors.R_ping by blast
  then show ?thesis using assms M_ping p ping [OF M_ping] by (simp add: monitor_step_def Let_def)
qed

lemma main_step_cases:
  assumes "main_step s = Some s'"
  obtains (stop) "gs_main s = P_wait" "gs_exit_requested s" "s' = s\<lparr>gs_app := (gs_app s)\<lparr>app_running := False\<rparr>, gs_main := P_join\<rparr>"
  | (wait) w1 where "gs_main s = P_wait" "\<not> gs_exit_requested s" "edgeflow_sleep_ms 200 (gs_env s) = Some w1" "s' = s\<lparr>gs_env := w1\<rparr>"
  | (blocked) "gs_main s = P_join" "\<not> threads_done s" "s' = s"
  | (joined) u w1 wd w2 where "gs_main s = P_join" "threads_done s"
      "mqtt_shutdown_locked (app_mqtt (gs_app s)) (join_all (gs_env s)) = (u, w1)"
      "watchdog_shutdown (sg_watchdog (gs_statics s)) w1 = (wd, w2)"
      "s' = s\<lparr>gs_app := (gs_app s)\<lparr>app_running := False, app_mqtt := u\<rparr>, gs_statics := (gs_statics s)\<lparr>sg_watchdog := wd\<rparr>,
         gs_env := log_info ''edgeflow stopped'' w2, gs_main := P_done\<rparr>"
  | (ended) "gs_main s = P_done" "s' = s"
proof (cases "gs_main s")
  case P_wait
  then show ?thesis using assms stop [OF P_wait] wait [OF P_wait] by (cases "gs_exit_requested s") (auto simp: main_step_def)
next
  case P_join
  obtain u w1 where sd: "mqtt_shutdown_locked (app_mqtt (gs_app s)) (join_all (gs_env s)) = (u, w1)" by (metis prod.exhaust)
  obtain wd w2 where wd: "watchdog_shutdown (sg_watchdog (gs_statics s)) w1 = (wd, w2)" by (metis prod.exhaust)
  show ?thesis
  proof (cases "threads_done s")
    case True
    then have "s' = s\<lparr>gs_app := (gs_app s)\<lparr>app_running := False, app_mqtt := u\<rparr>, gs_statics := (gs_statics s)\<lparr>sg_watchdog := wd\<rparr>,
         gs_env := log_info ''edgeflow stopped'' w2, gs_main := P_done\<rparr>"
      using assms P_join sd wd by (simp add: main_step_def gateway_app_stop_def mqtt_session_shutdown_def)
    then show ?thesis by (rule joined [OF P_join True sd wd])
  next
    case False
    then have "s' = s" using assms P_join by (simp add: main_step_def)
    then show ?thesis by (rule blocked [OF P_join False])
  qed
next
  case P_done
  then have "s' = s" using assms by (simp add: main_step_def)
  then show ?thesis by (rule ended [OF P_done])
qed

subsection \<open>What a step leaves alone\<close>

lemma replay_locked_counts: "replay_locked st rows m u w = Some (m', u', w') \<Longrightarrow> counts m' = counts m"
proof -
  assume call: "replay_locked st rows m u w = Some (m', u', w')"
  obtain rc s1 w1 where e: "mqtt_ensure_connected_locked u w = Some (rc, s1, w1)"
    using call by (auto simp: replay_locked_def bind_eq_Some_conv)
  show ?thesis
  proof (cases "rc = 0")
    case True
    then obtain k m1 where r: "replay_rows st rows 0 (Some m) s1 w1 = Some (k, m1, u', w')" "m' = the m1"
      using call e by (auto simp: replay_locked_def)
    then show ?thesis using replay_rows_metrics [OF r(1)] by auto
  next
    case False
    then show ?thesis using call e by (simp add: replay_locked_def)
  qed
qed

text \<open>The members no step writes, and the ones a single agent writes.\<close>

definition fixed_members :: "'d gateway_sys \<Rightarrow> gateway_config_t \<times> 'd adapter_registry_t \<times> storage_ctx_t option" where
  "fixed_members s = (app_cfg (gs_app s), app_registry (gs_app s), app_storage (gs_app s))"

lemma ingress_step_frame:
  assumes "ingress_step s = Some s'"
  shows "fixed_members s' = fixed_members s" "app_running (gs_app s') = app_running (gs_app s)"
    "app_state_engine (gs_app s') = app_state_engine (gs_app s)" "gs_worker s' = gs_worker s" "gs_monitor s' = gs_monitor s"
    "gs_main s' = gs_main s" "app_mqtt (gs_app s') = app_mqtt (gs_app s)"
proof -
  have "fixed_members s' = fixed_members s \<and> app_running (gs_app s') = app_running (gs_app s) \<and>
    app_state_engine (gs_app s') = app_state_engine (gs_app s) \<and> gs_worker s' = gs_worker s \<and> gs_monitor s' = gs_monitor s \<and>
    gs_main s' = gs_main s \<and> app_mqtt (gs_app s') = app_mqtt (gs_app s)"
    using assms
  by (cases rule: ingress_step_cases) (simp_all add: fixed_members_def gauges_only_def)
  then show "fixed_members s' = fixed_members s" "app_running (gs_app s') = app_running (gs_app s)"
    "app_state_engine (gs_app s') = app_state_engine (gs_app s)" "gs_worker s' = gs_worker s" "gs_monitor s' = gs_monitor s"
    "gs_main s' = gs_main s" "app_mqtt (gs_app s') = app_mqtt (gs_app s)" by blast+
qed

lemma worker_step_frame:
  assumes "worker_step s = Some s'"
  shows "fixed_members s' = fixed_members s" "app_running (gs_app s') = app_running (gs_app s)" "gs_ingress s' = gs_ingress s"
    "gs_monitor s' = gs_monitor s" "gs_main s' = gs_main s" "gs_accepted s' = gs_accepted s"
    "gm_ingress_points (app_metrics (gs_app s')) = gm_ingress_points (app_metrics (gs_app s))"
proof -
  have "fixed_members s' = fixed_members s \<and> app_running (gs_app s') = app_running (gs_app s) \<and> gs_ingress s' = gs_ingress s \<and>
    gs_monitor s' = gs_monitor s \<and> gs_main s' = gs_main s \<and> gs_accepted s' = gs_accepted s \<and>
    gm_ingress_points (app_metrics (gs_app s')) = gm_ingress_points (app_metrics (gs_app s))"
    using assms
  proof (cases rule: worker_step_cases)
    case (decide q row app1 g1 w1)
    then have "app1 = fst (worker_decide q (gs_app s, gs_statics s, gs_env s))" by simp
    then show ?thesis using decide(3) by (simp add: fixed_members_def frame_simps)
  qed (simp_all add: fixed_members_def gauges_only_def counts_def)
  then show "fixed_members s' = fixed_members s" "app_running (gs_app s') = app_running (gs_app s)" "gs_ingress s' = gs_ingress s"
    "gs_monitor s' = gs_monitor s" "gs_main s' = gs_main s" "gs_accepted s' = gs_accepted s"
    "gm_ingress_points (app_metrics (gs_app s')) = gm_ingress_points (app_metrics (gs_app s))" by blast+
qed

lemma monitor_step_frame:
  assumes "monitor_step s = Some s'"
  shows "fixed_members s' = fixed_members s" "app_running (gs_app s') = app_running (gs_app s)" "gs_ingress s' = gs_ingress s"
    "gs_worker s' = gs_worker s" "gs_main s' = gs_main s" "gs_accepted s' = gs_accepted s" "app_ring (gs_app s') = app_ring (gs_app s)"
    "app_state_engine (gs_app s') = app_state_engine (gs_app s)" "counts (app_metrics (gs_app s')) = counts (app_metrics (gs_app s))"
    "gs_statics s' = gs_statics s"
proof -
  have "fixed_members s' = fixed_members s \<and> app_running (gs_app s') = app_running (gs_app s) \<and> gs_ingress s' = gs_ingress s \<and>
    gs_worker s' = gs_worker s \<and> gs_main s' = gs_main s \<and> gs_accepted s' = gs_accepted s \<and> app_ring (gs_app s') = app_ring (gs_app s) \<and>
    app_state_engine (gs_app s') = app_state_engine (gs_app s) \<and> counts (app_metrics (gs_app s')) = counts (app_metrics (gs_app s)) \<and>
    gs_statics s' = gs_statics s"
    using assms
  proof (cases rule: monitor_step_cases)
    case (send rows m u w1)
    then show ?thesis using replay_locked_counts [OF send(2)] by (simp add: fixed_members_def)
  qed (simp_all add: fixed_members_def gauges_only_def, simp_all add: counts_def)
  then show "fixed_members s' = fixed_members s" "app_running (gs_app s') = app_running (gs_app s)" "gs_ingress s' = gs_ingress s"
    "gs_worker s' = gs_worker s" "gs_main s' = gs_main s" "gs_accepted s' = gs_accepted s" "app_ring (gs_app s') = app_ring (gs_app s)"
    "app_state_engine (gs_app s') = app_state_engine (gs_app s)" "counts (app_metrics (gs_app s')) = counts (app_metrics (gs_app s))"
    "gs_statics s' = gs_statics s"
    by blast+
qed

lemma main_step_frame:
  assumes "main_step s = Some s'"
  shows "fixed_members s' = fixed_members s" "gs_ingress s' = gs_ingress s" "gs_worker s' = gs_worker s" "gs_monitor s' = gs_monitor s"
    "gs_accepted s' = gs_accepted s" "app_ring (gs_app s') = app_ring (gs_app s)"
    "app_state_engine (gs_app s') = app_state_engine (gs_app s)" "app_metrics (gs_app s') = app_metrics (gs_app s)"
    "app_running (gs_app s') \<longrightarrow> app_running (gs_app s)" "gs_main s' \<noteq> P_wait \<longrightarrow> \<not> app_running (gs_app s') \<or> s' = s"
  using assms by (cases rule: main_step_cases; simp add: fixed_members_def)+


subsection \<open>The threads end\<close>

text \<open>How many steps a thread has left once the running flag is cleared.\<close>

fun ingress_left :: "ingress_pc \<Rightarrow> nat" where
  "ingress_left I_poll = 1"
| "ingress_left (I_push ps) = 3 + 2 * length ps"
| "ingress_left (I_count ps) = 4 + 2 * length ps"
| "ingress_left I_report = 2"
| "ingress_left I_done = 0"

fun worker_left :: "worker_pc \<Rightarrow> nat" where
  "worker_left W_pop = 1"
| "worker_left W_nap = 2"
| "worker_left (W_popped _) = 8"
| "worker_left (W_stored _ _) = 7"
| "worker_left (W_counted _ _) = 6"
| "worker_left (W_decided _ _) = 5"
| "worker_left (W_sent _ _) = 4"
| "worker_left (W_mark _ _) = 3"
| "worker_left W_failed = 3"
| "worker_left W_report = 2"
| "worker_left W_done = 0"

fun monitor_left :: "monitor_pc \<Rightarrow> nat" where
  "monitor_left M_wait = 1"
| "monitor_left M_fetch = 7"
| "monitor_left (M_send _) = 6"
| "monitor_left M_gauge = 5"
| "monitor_left M_ping = 4"
| "monitor_left M_beat = 3"
| "monitor_left M_write = 2"
| "monitor_left M_done = 0"

lemma left_done: "ingress_left i = 0 \<longleftrightarrow> i = I_done" "worker_left k = 0 \<longleftrightarrow> k = W_done" "monitor_left m = 0 \<longleftrightarrow> m = M_done"
proof -
  show "ingress_left i = 0 \<longleftrightarrow> i = I_done" by (cases i) simp_all
  show "worker_left k = 0 \<longleftrightarrow> k = W_done" by (cases k) simp_all
  show "monitor_left m = 0 \<longleftrightarrow> m = M_done" by (cases m) simp_all
qed

subsection \<open>The world of a step\<close>

text \<open>No step changes how the system answers; calls are only added.\<close>

definition grown :: "'d env \<Rightarrow> 'd env \<Rightarrow> bool" where
  "grown w w' \<longleftrightarrow> env_sqlite w' = env_sqlite w \<and> env_ret w' = env_ret w \<and> env_errno w' = env_errno w \<and>
     (\<exists>cs. env_calls w' = env_calls w @ cs)"

lemma grown_refl [simp]: "grown w w"
  by (simp add: grown_def)

lemma grown_trans [trans]: "grown a b \<Longrightarrow> grown b c \<Longrightarrow> grown a c"
  by (auto simp: grown_def)

lemma tame_grown: "tame rows w w' \<Longrightarrow> grown w w'"
  by (simp add: tame_def grown_def)

lemma calls_grown: "calls_only w w' \<Longrightarrow> grown w w'"
  by (simp add: grown_def calls_only_frame)

lemma db_grown: "\<exists>d. w' = w\<lparr>env_db := d\<rparr> \<Longrightarrow> grown w w'"
  by (auto simp: grown_def)

context session_discipline
begin

lemma R_replay_locked:
  assumes "replay_locked st rows m s w = Some (m', s', w')"
  shows "R s w s' w'"
proof -
  obtain rc s1 w1 where e: "mqtt_ensure_connected_locked s w = Some (rc, s1, w1)"
    using assms by (auto simp: replay_locked_def bind_eq_Some_conv)
  show ?thesis
  proof (cases "rc = 0")
    case True
    then obtain k m1 where "replay_rows st rows 0 (Some m) s1 w1 = Some (k, m1, s', w')"
      using assms e by (auto simp: replay_locked_def)
    then show ?thesis using R_trans [OF R_ensure [OF e] R_replay_rows] ensure_usable(1) [OF e] True by blast
  next
    case False
    then show ?thesis using assms e R_ensure [OF e] by (simp add: replay_locked_def)
  qed
qed

lemma R_beat:
  assumes "monitor_beat app w = Some (s', w')"
  shows "\<exists>w1. tame rows w w1 \<and> R (app_mqtt app) w1 s' w'"
proof -
  obtain n w1 where c: "storage_pending_telemetry_count (app_storage app) w = (n, w1)" by (metis prod.exhaust)
  obtain t w2 where t: "edgeflow_now_ms w1 = (t, w2)" by (metis prod.exhaust)
  have "tame rows w w2" using tame_trans [OF tame_count tame_now] c t by (metis snd_conv)
  moreover have "R (app_mqtt app) w2 s' w'"
    using assms c t R_publish_locked by (auto simp: monitor_beat_def mqtt_session_publish_heartbeat_def Let_def)
  ultimately show ?thesis by blast
qed

end

interpretation keeps: session_discipline "\<lambda>s w s' w'. ms_cfg s' = ms_cfg s \<and> grown w w'"
proof
  fix s s1 s2 :: mqtt_session_t and w w1 w2 :: "'d env" and rc d p bs
  show "ms_cfg s = ms_cfg s \<and> grown w w" by simp
  show "ms_cfg s1 = ms_cfg s \<and> grown w w1 \<Longrightarrow> ms_cfg s2 = ms_cfg s1 \<and> grown w1 w2 \<Longrightarrow> ms_cfg s2 = ms_cfg s \<and> grown w w2"
    using grown_trans by auto
  show "ms_cfg s1 = ms_cfg s \<and> grown w w1" if "mqtt_shutdown_locked s w = (s1, w1)"
    using shutdown_result [OF that] calls_grown [OF shutdown_calls_only [OF that]] by simp
  show "ms_cfg s1 = ms_cfg s \<and> grown w w1" if "mqtt_ensure_connected_locked s w = Some (rc, s1, w1)"
    using ensure_usable(2) [OF that] calls_grown [OF ensure_calls_only [OF that]] by simp
  show "ms_cfg s = ms_cfg s \<and> grown w w1" if "mqtt_write_all (ms_fd s) (packet_bytes p) w = Some (0, w1)"
    using calls_grown [OF write_all_calls_only [OF that]] by simp
  show "ms_cfg s1 = ms_cfg s \<and> grown w w2" if "mqtt_write_all (ms_fd s) bs w = Some (rc, w1)" "mqtt_shutdown_locked s w1 = (s1, w2)"
    using calls_grown [OF calls_only_trans [OF write_all_calls_only [OF that(1)] shutdown_calls_only [OF that(2)]]]
      shutdown_result [OF that(2)] by simp
  show "ms_cfg s = ms_cfg s \<and> grown w (w\<lparr>env_db := d\<rparr>)" by (simp add: grown_def)
qed

lemma worker_append_calm: "worker_append q app w = (row, w1) \<Longrightarrow> calm w w1"
  using calm_append [of w "app_storage app" "Some q" "Some 0"]
    tame_trans [OF calm_append [of w "app_storage app" "Some q" "Some 0"] tame_log(2)]
  by (auto simp: worker_append_def split: prod.splits if_splits)

lemma ingress_step_grown:
  fixes s s' :: "'d gateway_sys"
  assumes "ingress_step s = Some s'" "app_registry (gs_app s) = \<lparr>reg_slots = [modbus_slot c]\<rparr>"
  shows "tame (rows :: 'd \<Rightarrow> tel_row list) (gs_env s) (gs_env s')"
  using assms(1)
proof (cases rule: ingress_step_cases)
  case (poll n points ig w1)
  then show ?thesis using tame_poll_all [of rows "gs_env s" c "Some (replicate 8 telemetry_zero)" 8 "sg_ingress (gs_statics s)"] assms(2) by simp
next
  case (report app1 w1)
  then show ?thesis by simp
qed simp_all

lemma worker_step_grown:
  assumes "worker_step s = Some s'" "app_registry (gs_app s) = \<lparr>reg_slots = [modbus_slot c]\<rparr>"
  shows "ms_cfg (app_mqtt (gs_app s')) = ms_cfg (app_mqtt (gs_app s)) \<and> grown (gs_env s) (gs_env s')"
  using assms(1)
proof (cases rule: worker_step_cases)
  case (quiet app1 w1 t pc)
  then show ?thesis using tame_grown by (auto simp: gauges_only_def)
next
  case (store p q row w1)
  then show ?thesis using tame_grown [OF worker_append_calm [OF store(3)]] by simp
next
  case (decide q row app1 g1 w1)
  then have w: "app1 = fst (worker_decide q (gs_app s, gs_statics s, gs_env s))" "w1 = snd (snd (worker_decide q (gs_app s, gs_statics s, gs_env s)))" by simp_all
  then show ?thesis using decide(3) tame_grown [OF tame_worker_decide [OF assms(2)]] by (simp add: frame_simps)
next
  case (publish q row rc u w1)
  then have "publish_locked (app_mqtt (gs_app s)) (cfg_mqtt_topic (ms_cfg (app_mqtt (gs_app s)))) (telemetry_to_json q 384) (gs_env s) = Some (rc, u, w1)"
    by (auto simp: mqtt_session_publish_telemetry_def)
  then show ?thesis using keeps.R_publish_locked publish(3) by simp
next
  case (mark q row)
  then show ?thesis using tame_grown [OF calm_mark] by simp
qed simp_all

lemma monitor_step_grown:
  assumes "monitor_step s = Some s'"
  shows "ms_cfg (app_mqtt (gs_app s')) = ms_cfg (app_mqtt (gs_app s)) \<and> grown (gs_env s) (gs_env s')"
  using assms(1)
proof (cases rule: monitor_step_cases)
  case (quiet app1 w1 pc)
  then show ?thesis using tame_grown by (auto simp: gauges_only_def)
next
  case (fetch frc rows cnt w1)
  then have "w1 = snd (snd (snd (storage_fetch_pending_telemetry (app_storage (gs_app s)) True
      (replay_batch (cfg_mqtt_replay_batch (ms_cfg (app_mqtt (gs_app s))))) (gs_env s))))" by simp
  then show ?thesis using db_grown [OF fetch_only] fetch(4) by simp
next
  case (send rows m u w1)
  then show ?thesis using keeps.R_replay_locked [OF send(2)] by simp
next
  case (gauge n w1)
  then have "w1 = snd (storage_pending_telemetry_count (app_storage (gs_app s)) (gs_env s))" by simp
  then show ?thesis using db_grown [OF count_only] gauge(3) by simp
next
  case (ping r u w1)
  then show ?thesis using keeps.R_ping [OF ping(2)] by simp
next
  case (beat u w1)
  obtain w2 where "calm (gs_env s) w2" "ms_cfg u = ms_cfg (app_mqtt (gs_app s)) \<and> grown w2 w1" using keeps.R_beat [OF beat(2)] by blast
  then show ?thesis using grown_trans [OF tame_grown] beat(3) by auto
qed simp_all

lemma main_step_grown:
  assumes "main_step s = Some s'"
  shows "ms_cfg (app_mqtt (gs_app s')) = ms_cfg (app_mqtt (gs_app s)) \<and> grown (gs_env s) (gs_env s')"
  using assms(1)
proof (cases rule: main_step_cases)
  case (wait w1)
  then show ?thesis using tame_grown [OF tame_sleep [OF wait(3)]] by simp
next
  case (joined u w1 wd w2)
  have "grown (gs_env s) (join_all (gs_env s))" by (simp add: join_all_def grown_def frame_simps)
  also have "grown (join_all (gs_env s)) w1" using calls_grown [OF shutdown_calls_only [OF joined(3)]] .
  also have "grown w1 (log_info ''edgeflow stopped'' w2)"
    using joined(4) tame_grown [OF tame_log(1)] by (auto simp: watchdog_shutdown_def grown_def frame_simps split: if_splits)
  finally show ?thesis using joined(5) shutdown_result [OF joined(3)] by simp
qed simp_all

subsection \<open>No step blocks for ever\<close>

text \<open>
  A fair world: again and again a sleep would end, and again and again a write would make progress or
  fail for good. The loops around \<^verbatim>\<open>nanosleep\<close> and \<^verbatim>\<open>write\<close> end in it.
\<close>

definition fair :: "'d env \<Rightarrow> bool" where
  "fair w \<longleftrightarrow> (\<forall>n. \<exists>k\<ge>n. env_ret w k = 0) \<and>
     (\<forall>n. \<exists>k\<ge>n. 0 < env_ret w k \<or> env_ret w k < 0 \<and> env_errno w k \<noteq> EINTR)"

lemma fair_grown: "grown w w' \<Longrightarrow> fair w' \<longleftrightarrow> fair w"
  by (simp add: fair_def grown_def)

lemmas fair_calls = fair_grown [OF calls_grown, THEN iffD2]
lemmas fair_tame = fair_grown [OF tame_grown, THEN iffD2]
lemmas fair_db = fair_grown [OF db_grown, THEN iffD2]

lemma sleep_fair: "fair w \<Longrightarrow> \<exists>w'. edgeflow_sleep_ms ms w = Some w'"
proof -
  assume "fair w"
  then obtain k where "env_n w \<le> k" "env_ret w k = 0" by (auto simp: fair_def)
  then show ?thesis unfolding edgeflow_sleep_ms_def by (intro nanosleep_loop_returns [where k = "k - env_n w"]) simp
qed

lemma write_loop_fair: "fair w \<Longrightarrow> \<exists>r. write_loop fd buf w = Some r"
proof (induction "length buf" arbitrary: buf w rule: less_induct)
  case less
  obtain k where "env_n w \<le> k" "0 < env_ret w k \<or> env_ret w k < 0 \<and> env_errno w k \<noteq> EINTR"
    using less.prems by (auto simp: fair_def)
  then have "0 < env_ret w (env_n w + (k - env_n w)) \<or> env_ret w (env_n w + (k - env_n w)) < 0 \<and> env_errno w (env_n w + (k - env_n w)) \<noteq> EINTR"
    by simp
  then show ?case using less.prems
  proof (induction "k - env_n w" arbitrary: k w)
    case 0
    let ?w = "snd (syscall (C_write fd buf) w)"
    have "length (drop (nat (env_ret w (env_n w))) buf) < length buf" if "buf \<noteq> []" "0 < env_ret w (env_n w)" using that by simp
    then have "\<exists>r. write_loop fd (drop (nat (env_ret w (env_n w))) buf) ?w = Some r" if "buf \<noteq> []" "0 < env_ret w (env_n w)"
      using less.hyps that fair_calls [OF calls_only_syscall 0(3)] by blast
    then show ?case using 0 by (subst write_loop.simps) (auto simp: syscall_def)
  next
    case (Suc j)
    let ?n = "env_ret w (env_n w)" and ?w = "snd (syscall (C_write fd buf) w)"
    have f: "fair ?w" by (rule fair_calls [OF calls_only_syscall Suc.prems(2)])
    have same: "\<exists>r. write_loop fd buf ?w = Some r"
      using Suc.hyps(1) [of "k" ?w] Suc.hyps(2) Suc.prems(1) f by (simp add: frame_simps)
    have "\<exists>r. write_loop fd (drop (nat ?n) buf) ?w = Some r"
    proof (cases "nat ?n = 0 \<or> buf = []")
      case True
      then show ?thesis using same by auto
    next
      case False
      then have "length (drop (nat ?n) buf) < length buf" by simp
      then show ?thesis using less.hyps f by blast
    qed
    then show ?case using same by (subst write_loop.simps) (auto simp: syscall_def)
  qed
qed

lemma ensure_fair: "fair w \<Longrightarrow> \<exists>rc s' w'. mqtt_ensure_connected_locked s w = Some (rc, s', w')"
proof (cases "ms_connected s \<and> 0 \<le> ms_fd s")
  case False
  assume fw: "fair w"
  obtain s1 w1 where sh: "mqtt_shutdown_locked s w = (s1, w1)" by (metis prod.exhaust)
  obtain fd w2 where op: "mqtt_open_tcp (ms_cfg s1) w1 = (fd, w2)" by (metis prod.exhaust)
  have "fair w2" using fair_calls [OF open_tcp_calls_only [OF op]] fair_calls [OF shutdown_calls_only [OF sh] fw] by blast
  then have "\<exists>r v. mqtt_write_all fd b w2 = Some (r, v)" for b unfolding mqtt_write_all_def using write_loop_fair by fastforce
  then have sc: "\<exists>r v. mqtt_send_connect fd i k w2 = Some (r, v)" for i k
  proof (cases "connect_packet i k")
    case (Some pkt)
    obtain r v where "mqtt_write_all fd pkt w2 = Some (r, v)" using \<open>\<And>b. \<exists>r v. mqtt_write_all fd b w2 = Some (r, v)\<close> by blast
    then show ?thesis using Some by (simp add: mqtt_send_connect_def Let_def split_beta)
  qed (simp add: mqtt_send_connect_def)
  obtain r v where "mqtt_send_connect fd (client_id (ms_cfg s1)) (ucast (cfg_mqtt_keepalive_sec (ms_cfg s1))) w2 = Some (r, v)"
    using sc by blast
  then show ?thesis using False sh op by (simp add: mqtt_ensure_connected_locked_def Let_def split_beta)
qed (auto simp: mqtt_ensure_connected_locked_def)

lemma send_publish_fair: "fair w \<Longrightarrow> \<exists>rc w'. mqtt_send_publish fd t p w = Some (rc, w')"
  using write_loop_fair [of w fd] by (fastforce simp: mqtt_send_publish_def mqtt_write_all_def split: option.split)

lemma publish_locked_fair: "fair w \<Longrightarrow> \<exists>rc s' w'. publish_locked s t p w = Some (rc, s', w')"
proof -
  assume fw: "fair w"
  obtain rc s1 w1 where e: "mqtt_ensure_connected_locked s w = Some (rc, s1, w1)" using ensure_fair [OF fw] by blast
  obtain rc2 w2 where "mqtt_send_publish (ms_fd s1) t p w1 = Some (rc2, w2)"
    using send_publish_fair [OF fair_calls [OF ensure_calls_only [OF e] fw]] by blast
  then show ?thesis using e by (simp add: publish_locked_def split_beta)
qed

lemma replay_rows_fair: "fair w \<Longrightarrow> \<exists>r. replay_rows st rows k m s w = Some r"
proof (induction rows arbitrary: k m w)
  case (Cons r rows)
  obtain rc w1 where p: "mqtt_send_publish (ms_fd s) (cfg_mqtt_topic (ms_cfg s)) (telemetry_to_json (sr_point r) 384) w = Some (rc, w1)"
    using send_publish_fair [OF Cons.prems] by blast
  have "fair w1" using fair_calls [OF send_publish_calls_only [OF p] Cons.prems] .
  then have "fair (snd (storage_mark_telemetry_uploaded st (sr_row_id r) w1))" by (rule fair_tame [OF calm_mark])
  then show ?case using Cons.IH p by (simp add: split_beta)
qed simp

lemma ping_fair: "fair w \<Longrightarrow> \<exists>rc s' w'. mqtt_session_ping s w = Some (rc, s', w')"
proof -
  assume "fair w"
  then have sp: "\<exists>rc v. mqtt_send_ping fd w = Some (rc, v)" for fd
    using write_loop_fair [of w fd ping_packet] by (auto simp: mqtt_send_ping_def mqtt_write_all_def)
  show ?thesis
  proof (cases s)
    case (Some t)
    obtain rc v where "mqtt_send_ping (ms_fd t) w = Some (rc, v)" using sp by blast
    then show ?thesis using Some by (simp add: mqtt_session_ping_def split_beta)
  qed (simp add: mqtt_session_ping_def)
qed

lemma beat_fair: "fair w \<Longrightarrow> \<exists>u w'. monitor_beat app w = Some (u, w')"
proof -
  assume fw: "fair w"
  let ?w1 = "snd (storage_pending_telemetry_count (app_storage app) w)"
  have "fair (snd (edgeflow_now_ms ?w1))" by (rule fair_tame [OF tame_trans [OF tame_count tame_now] fw])
  then have "\<exists>rc s' w'. publish_locked (app_mqtt app) t p (snd (edgeflow_now_ms ?w1)) = Some (rc, s', w')" for t p
    by (rule publish_locked_fair)
  then show ?thesis by (simp add: monitor_beat_def mqtt_session_publish_heartbeat_def Let_def split_beta) (metis option.simps(9))
qed

lemma step_fair:
  assumes fw: "fair (gs_env s)"
  shows "\<exists>s'. gateway_step a s = Some s'"
proof (cases a)
  case A_ingress
  then show ?thesis using sleep_fair [OF fair_tame [OF tame_touch fw]]
    by (auto simp: ingress_step_def Let_def split_beta split: ingress_pc.split list.split)
next
  case A_worker
  have "\<exists>rc u w'. mqtt_session_publish_telemetry (Some (app_mqtt (gs_app s))) (Some q) (gs_env s) = Some (rc, u, w')" for q
    using publish_locked_fair [OF fw, of "app_mqtt (gs_app s)"] by (fastforce simp: mqtt_session_publish_telemetry_def)
  then show ?thesis using A_worker sleep_fair [OF fair_tame [OF tame_touch fw]]
    by (fastforce simp: worker_step_def Let_def split_beta split: worker_pc.split)
next
  case A_monitor
  have "\<exists>r. replay_locked (app_storage (gs_app s)) rows (app_metrics (gs_app s)) (app_mqtt (gs_app s)) (gs_env s) = Some r" for rows
  proof -
    obtain rc s1 w1 where e: "mqtt_ensure_connected_locked (app_mqtt (gs_app s)) (gs_env s) = Some (rc, s1, w1)"
      using ensure_fair [OF fw] by blast
    then show ?thesis using replay_rows_fair [OF fair_calls [OF ensure_calls_only [OF e] fw]] by (fastforce simp: replay_locked_def)
  qed
  then show ?thesis using A_monitor ping_fair [OF fw] beat_fair [OF fw]
    by (fastforce simp: monitor_step_def Let_def split_beta split: monitor_pc.split)
next
  case A_main
  then show ?thesis using sleep_fair [OF fw] by (auto simp: main_step_def split_beta split: main_pc.split)
qed simp

subsection \<open>The exit\<close>

text \<open>A run that will end: nothing blocks, few points are in hand, and the flag is cleared before the joins.\<close>

definition orderly :: "gateway_config_t \<Rightarrow> 'd gateway_sys \<Rightarrow> bool" where
  "orderly c s \<longleftrightarrow> app_registry (gs_app s) = \<lparr>reg_slots = [modbus_slot c]\<rparr> \<and> fair (gs_env s) \<and> ingress_left (gs_ingress s) \<le> 19 \<and>
     (gs_main s \<noteq> P_wait \<longrightarrow> \<not> app_running (gs_app s))"

lemma poll_few:
  assumes "adapter_registry_poll_all (Some \<lparr>reg_slots = [modbus_slot c]\<rparr>) (Some (replicate 8 telemetry_zero)) 8 g w = (n, points, g', w')"
  shows "length (if 0 < n then take (nat n) (the points) else []) \<le> 8"
proof -
  have "list_all known_plugin [modbus_slot c :: 'a device_adapter]" by (simp add: known_plugin_def)
  then have "n \<le> 8" using poll_all_filled [of "\<lparr>reg_slots = [modbus_slot c]\<rparr>" 8 "replicate 8 telemetry_zero" g w n points g' w'] assms by simp
  then show ?thesis by auto
qed

lemma ingress_left_few:
  assumes "ingress_step s = Some s'" "app_registry (gs_app s) = \<lparr>reg_slots = [modbus_slot c]\<rparr>" "ingress_left (gs_ingress s) \<le> 19"
  shows "ingress_left (gs_ingress s') \<le> 19"
  using assms(1)
proof (cases rule: ingress_step_cases)
  case (poll n points ig w1)
  then show ?thesis using poll_few [of c "sg_ingress (gs_statics s)" "gs_env s" n points ig w1] assms(2) by simp
qed (use assms(3) in simp_all)

lemma gateway_step_cases:
  assumes "gateway_step a s = Some s'"
  obtains (ingress) "a = A_ingress" "ingress_step s = Some s'" | (worker) "a = A_worker" "worker_step s = Some s'"
  | (monitor) "a = A_monitor" "monitor_step s = Some s'" | (main) "a = A_main" "main_step s = Some s'"
  | (signal) "a = A_signal" "s' = s\<lparr>gs_exit_requested := True\<rparr>"
  using assms by (cases a) (simp_all add: on_signal_def)

lemma step_fixed: "gateway_step a s = Some s' \<Longrightarrow> fixed_members s' = fixed_members s"
  by (erule gateway_step_cases)
    (simp_all only: ingress_step_frame(1) worker_step_frame(1) monitor_step_frame(1) main_step_frame(1), simp add: fixed_members_def)

lemma step_grown:
  assumes "gateway_step a s = Some s'" "app_registry (gs_app s) = \<lparr>reg_slots = [modbus_slot c]\<rparr>"
  shows "ms_cfg (app_mqtt (gs_app s')) = ms_cfg (app_mqtt (gs_app s)) \<and> grown (gs_env s) (gs_env s')"
  using assms(1)
proof (cases rule: gateway_step_cases)
  case ingress
  then show ?thesis using ingress_step_frame(7) [OF ingress(2)] tame_grown [OF ingress_step_grown [OF ingress(2) assms(2)]] by simp
next
  case worker
  then show ?thesis using worker_step_grown assms(2) by blast
next
  case monitor
  then show ?thesis using monitor_step_grown by blast
next
  case main
  then show ?thesis using main_step_grown by blast
qed simp

lemma step_running:
  assumes "gateway_step a s = Some s'"
  shows "app_running (gs_app s') \<longrightarrow> app_running (gs_app s)"
    and "(gs_main s \<noteq> P_wait \<longrightarrow> \<not> app_running (gs_app s)) \<longrightarrow> gs_main s' \<noteq> P_wait \<longrightarrow> \<not> app_running (gs_app s')"
proof -
  have "(app_running (gs_app s') \<longrightarrow> app_running (gs_app s)) \<and>
    ((gs_main s \<noteq> P_wait \<longrightarrow> \<not> app_running (gs_app s)) \<longrightarrow> gs_main s' \<noteq> P_wait \<longrightarrow> \<not> app_running (gs_app s'))"
    using assms
  proof (cases rule: gateway_step_cases)
    case ingress
    then show ?thesis using ingress_step_frame(2,6) by metis
  next
    case worker
    then show ?thesis using worker_step_frame(2,5) by metis
  next
    case monitor
    then show ?thesis using monitor_step_frame(2,5) by metis
  next
    case main
    then show ?thesis using main_step_frame(9,10) by metis
  qed simp
  then show "app_running (gs_app s') \<longrightarrow> app_running (gs_app s)"
    and "(gs_main s \<noteq> P_wait \<longrightarrow> \<not> app_running (gs_app s)) \<longrightarrow> gs_main s' \<noteq> P_wait \<longrightarrow> \<not> app_running (gs_app s')" by blast+
qed

interpretation orderly: step_invariant "orderly c"
proof
  fix s s' :: "'d gateway_sys" and a
  assume I: "orderly c s" and st: "gateway_step a s = Some s'"
  have reg: "app_registry (gs_app s) = \<lparr>reg_slots = [modbus_slot c]\<rparr>" using I by (simp add: orderly_def)
  have few: "ingress_left (gs_ingress s) \<le> 19" using I by (simp add: orderly_def)
  from st have "ingress_left (gs_ingress s') \<le> 19"
  proof (cases rule: gateway_step_cases)
    case ingress
    then show ?thesis using ingress_left_few [OF _ reg few] by blast
  qed (use few worker_step_frame(3) [of s s'] monitor_step_frame(3) [of s s'] main_step_frame(2) [of s s'] in simp_all)
  moreover have "fair (gs_env s')" using step_grown [OF st reg] fair_grown I by (auto simp: orderly_def)
  ultimately show "orderly c s'"
    using I step_fixed [OF st] step_running(2) [OF st] by (auto simp: orderly_def fixed_members_def)
qed

lemma run_fair:
  assumes "orderly c s"
  shows "\<exists>s'. gateway_run as s = Some s' \<and> orderly c s'"
  using assms
proof (induction as arbitrary: s)
  case (Cons a as)
  then obtain s1 where s1: "gateway_step a s = Some s1" using step_fair by (metis orderly_def)
  then show ?case using Cons.IH [OF orderly.step [OF Cons.prems s1]] by simp
qed simp

text \<open>With the flag cleared, a thread's own step brings it nearer to its end, and no other step takes it back.\<close>

lemma ingress_left_step:
  "ingress_step s = Some s' \<Longrightarrow> \<not> app_running (gs_app s) \<Longrightarrow> ingress_left (gs_ingress s') \<le> ingress_left (gs_ingress s) - 1"
  by (erule ingress_step_cases) simp_all

lemma worker_left_step:
  "worker_step s = Some s' \<Longrightarrow> \<not> app_running (gs_app s) \<Longrightarrow> worker_left (gs_worker s') \<le> worker_left (gs_worker s) - 1"
  by (erule worker_step_cases) auto

lemma monitor_left_step:
  "monitor_step s = Some s' \<Longrightarrow> \<not> app_running (gs_app s) \<Longrightarrow> monitor_left (gs_monitor s') \<le> monitor_left (gs_monitor s) - 1"
  by (erule monitor_step_cases) auto

lemma left_step:
  assumes "gateway_step a s = Some s'" "\<not> app_running (gs_app s)"
  shows "ingress_left (gs_ingress s') \<le> ingress_left (gs_ingress s) - (if a = A_ingress then 1 else 0) \<and>
    worker_left (gs_worker s') \<le> worker_left (gs_worker s) - (if a = A_worker then 1 else 0) \<and>
    monitor_left (gs_monitor s') \<le> monitor_left (gs_monitor s) - (if a = A_monitor then 1 else 0)"
  using assms(1)
proof (cases rule: gateway_step_cases)
  case ingress
  then show ?thesis using ingress_left_step [OF _ assms(2)] ingress_step_frame(4,5) [OF ingress(2)] by simp
next
  case worker
  then show ?thesis using worker_left_step [OF _ assms(2)] worker_step_frame(3,4) [OF worker(2)] by simp
next
  case monitor
  then show ?thesis using monitor_left_step [OF _ assms(2)] monitor_step_frame(3,4) [OF monitor(2)] by simp
next
  case main
  then show ?thesis using main_step_frame(2-4) [OF main(2)] by simp
qed simp

lemma left_run:
  assumes "gateway_run as s = Some s'" "\<not> app_running (gs_app s)"
  shows "ingress_left (gs_ingress s') \<le> ingress_left (gs_ingress s) - count_list as A_ingress \<and>
    worker_left (gs_worker s') \<le> worker_left (gs_worker s) - count_list as A_worker \<and>
    monitor_left (gs_monitor s') \<le> monitor_left (gs_monitor s) - count_list as A_monitor"
  using assms
proof (induction as arbitrary: s)
  case (Cons a as)
  then obtain s1 where s1: "gateway_step a s = Some s1" "gateway_run as s1 = Some s'" by (auto simp: bind_eq_Some_conv)
  have "\<not> app_running (gs_app s1)" using step_running(1) [OF s1(1)] Cons.prems(2) by blast
  then show ?case using Cons.IH [OF s1(2)] left_step [OF s1(1) Cons.prems(2)] by (auto split: if_splits)
qed simp

lemma worker_left_few: "worker_left k \<le> 8"
  by (cases k) simp_all

lemma monitor_left_few: "monitor_left m \<le> 7"
  by (cases m) simp_all

interpretation asked: step_invariant gs_exit_requested
proof
  fix s s' :: "'d gateway_sys" and a
  assume I: "gs_exit_requested s" and st: "gateway_step a s = Some s'"
  from st show "gs_exit_requested s'"
  proof (cases rule: gateway_step_cases)
    case ingress
    then show ?thesis using I by (cases rule: ingress_step_cases [OF ingress(2)]) simp_all
  next
    case worker
    then show ?thesis using I by (cases rule: worker_step_cases [OF worker(2)]) simp_all
  next
    case monitor
    then show ?thesis using I by (cases rule: monitor_step_cases [OF monitor(2)]) simp_all
  next
    case main
    then show ?thesis using I by (cases rule: main_step_cases [OF main(2)]) simp_all
  qed simp
qed

interpretation leaving: step_invariant "\<lambda>s. gs_main s \<noteq> P_wait"
proof
  fix s s' :: "'d gateway_sys" and a
  assume I: "gs_main s \<noteq> P_wait" and st: "gateway_step a s = Some s'"
  from st show "gs_main s' \<noteq> P_wait"
  proof (cases rule: gateway_step_cases)
    case main
    then show ?thesis using I by (cases rule: main_step_cases [OF main(2)]) simp_all
  qed (use I ingress_step_frame(6) [of s s'] worker_step_frame(5) [of s s'] monitor_step_frame(5) [of s s'] in simp_all)
qed

end
