(* ===== verification/Gateway_Safety.thy ===== *)
theory Gateway_Safety
  imports Gateway_Runs
begin

text \<open>
  Three properties of every schedule of the gateway, from start-up: it ends when it is asked to, its
  counters balance at every program point of its threads, and its state engine never records
  an over-temperature.
\<close>

subsection \<open>Start and exit\<close>

lemma started_orderly:
  assumes "gateway_app_init (Some a) (Some c) g w = (0, Some app0, g1, w1)" "gateway_app_run (Some app0) g1 w1 = (0, Some app, w2)" "fair w2"
  shows "orderly c (gateway_started app g1 w2)"
  using assms(3) app_init_started(3) [OF assms(1)] app_run_started [OF assms(2)] by (simp add: orderly_def gateway_started_def)

lemma exit_asked:
  assumes "gateway_step A_main s = Some s'" "gs_exit_requested s"
  shows "gs_main s' \<noteq> P_wait"
  using assms by (auto simp: main_step_def split: main_pc.splits prod.splits if_splits)

lemma exit_joins:
  assumes "gateway_step A_main s = Some s'" "gs_main s \<noteq> P_wait" "threads_done s"
  shows "gs_main s' = P_done \<and> threads_done s'"
  using assms by (cases "gs_main s") (auto simp: main_step_def threads_done_def split: prod.splits)

lemma threads_end:
  assumes "orderly c s" "gs_main s \<noteq> P_wait" "gateway_run as s = Some s'"
    and "19 \<le> count_list as A_ingress" "8 \<le> count_list as A_worker" "7 \<le> count_list as A_monitor"
  shows "threads_done s'"
proof -
  have i: "ingress_left (gs_ingress s) \<le> 19" and r: "\<not> app_running (gs_app s)" using assms(1,2) by (auto simp: orderly_def)
  have "ingress_left (gs_ingress s') = 0" "worker_left (gs_worker s') = 0" "monitor_left (gs_monitor s') = 0"
    using left_run [OF assms(3) r] i worker_left_few [of "gs_worker s"] monitor_left_few [of "gs_monitor s"] assms(4-6) by linarith+
  then show ?thesis by (simp add: left_done threads_done_def)
qed

lemma exit_run:
  assumes "gateway_app_init (Some a) (Some c) g w = (0, Some app0, g1, w1)" "gateway_app_run (Some app0) g1 w1 = (0, Some app, w2)"
    and "fair w2" and "19 \<le> count_list after A_ingress" "8 \<le> count_list after A_worker" "7 \<le> count_list after A_monitor"
  shows "\<exists>s. gateway_run (before @ [A_signal] @ mid @ [A_main] @ after @ [A_main]) (gateway_started app g1 w2) = Some s \<and>
    threads_done s \<and> gs_main s = P_done \<and> \<not> app_running (gs_app s)"
proof -
  have o0: "orderly c (gateway_started app g1 w2)" by (rule started_orderly [OF assms(1-3)])
  obtain s1 where s1: "gateway_run (before @ [A_signal]) (gateway_started app g1 w2) = Some s1" "orderly c s1" using run_fair [OF o0] by blast
  then have q1: "gs_exit_requested s1" by (auto simp: gateway_run_append bind_eq_Some_conv on_signal_def)
  obtain s2 where s2: "gateway_run mid s1 = Some s2" "orderly c s2" using run_fair [OF s1(2)] by blast
  obtain s3 where s3: "gateway_step A_main s2 = Some s3" "orderly c s3" using run_fair [OF s2(2), of "[A_main]"] by (auto simp: bind_eq_Some_conv)
  have m3: "gs_main s3 \<noteq> P_wait" by (rule exit_asked [OF s3(1) asked.run [OF q1 s2(1)]])
  obtain s4 where s4: "gateway_run after s3 = Some s4" "orderly c s4" using run_fair [OF s3(2)] by blast
  note d4 = threads_end [OF s3(2) m3 s4(1) assms(4-6)]
  obtain s5 where s5: "gateway_step A_main s4 = Some s5" "orderly c s5" using run_fair [OF s4(2), of "[A_main]"] by (auto simp: bind_eq_Some_conv)
  have "gateway_run ((before @ [A_signal]) @ mid @ [A_main] @ after @ [A_main]) (gateway_started app g1 w2) = Some s5"
    unfolding gateway_run_append [of "before @ [A_signal]"] s1(1) bind.bind_lunit using s2(1) s3(1) s4(1) s5(1)
    by (simp add: gateway_run_append)
  moreover have "gs_main s5 = P_done \<and> threads_done s5" by (rule exit_joins [OF s5(1) leaving.run [OF m3 s4(1)] d4])
  ultimately show ?thesis using s5(2) by (auto simp: orderly_def)
qed

text \<open>
  C4. The gateway stops when it is told to: from a successful start, in a world where sleeps end and
  writes make progress or fail, any schedule of the threads' steps runs without blocking; and if a signal
  arrives and the main thread then looks at its flag, 19 steps of the ingress thread, 8 of the worker and 7
  of the monitor, in any order and among any others, bring all three to their ends, so that the main
  thread's joins return and the process reaches its exit.
\<close>

theorem gateway_exits:
  assumes "gateway_app_init (Some a) (Some c) g w = (0, Some app0, g1, w1)" "gateway_app_run (Some app0) g1 w1 = (0, Some app, w2)"
    and "fair w2" and "19 \<le> count_list after A_ingress" "8 \<le> count_list after A_worker" "7 \<le> count_list after A_monitor"
  shows "\<exists>s. gateway_run (before @ [A_signal] @ mid @ [A_main] @ after @ [A_main]) (gateway_started app g1 w2) = Some s \<and>
    threads_done s \<and> gs_main s = P_done \<and> \<not> app_running (gs_app s)"
  by (rule exit_run [OF assms])

definition fair_host :: "mem_db env" where
  "fair_host = demo_host\<lparr>env_ret := (\<lambda>k. if k < 3 then 1 else if k < 8 then 0 else if even k then 0 else 1)\<rparr>"

lemma fair_host_ready: "host_ready fair_host" "env_ret w = env_ret fair_host \<Longrightarrow> fair w"
proof -
  have z: "\<exists>k\<ge>m. env_ret fair_host k = 0" for m by (rule exI [of _ "2 * m + 8"]) (simp add: fair_host_def)
  have p: "\<exists>k\<ge>m. 0 < env_ret fair_host k" for m by (rule exI [of _ "2 * m + 9"]) (simp add: fair_host_def)
  show "host_ready fair_host" unfolding host_ready_def using z by (auto simp: fair_host_def)
  show "env_ret w = env_ret fair_host \<Longrightarrow> fair w" unfolding fair_def using z p by metis
qed

lemma fair_start:
  "\<exists>app0 g1 w1 app w2. gateway_app_init (Some gateway_app_zero) (Some gateway_config_defaults) demo_statics fair_host = (0, Some app0, g1, w1) \<and>
     gateway_app_run (Some app0) g1 w1 = (0, Some app, w2) \<and> fair w2 \<and> orderly gateway_config_defaults (gateway_started app g1 w2)"
proof -
  obtain app0 g1 w1 app w2 where d: "gateway_app_init (Some gateway_app_zero) (Some gateway_config_defaults) demo_statics fair_host = (0, Some app0, g1, w1)"
    "gateway_app_run (Some app0) g1 w1 = (0, Some app, w2)" "env_ret w2 = env_ret fair_host" using start_ready [OF fair_host_ready(1)] by blast
  then show ?thesis using fair_host_ready(2) started_orderly [OF d(1,2)] by blast
qed

theorem gateway_exits_witness:
  "\<exists>app0 g1 w1 app w2 s. gateway_app_init (Some gateway_app_zero) (Some gateway_config_defaults) demo_statics fair_host = (0, Some app0, g1, w1) \<and>
     gateway_app_run (Some app0) g1 w1 = (0, Some app, w2) \<and>
     gateway_run ([A_ingress, A_ingress] @ [A_signal] @ [] @ [A_main] @
       (replicate 19 A_ingress @ replicate 8 A_worker @ replicate 7 A_monitor) @ [A_main]) (gateway_started app g1 w2) = Some s \<and>
     gs_main s = P_done"
proof -
  obtain app0 g1 w1 app w2 where d: "gateway_app_init (Some gateway_app_zero) (Some gateway_config_defaults) demo_statics fair_host = (0, Some app0, g1, w1)"
    "gateway_app_run (Some app0) g1 w1 = (0, Some app, w2)" "fair w2" "orderly gateway_config_defaults (gateway_started app g1 w2)" using fair_start by blast
  let ?as = "replicate 19 A_ingress @ replicate 8 A_worker @ replicate 7 A_monitor"
  have "19 \<le> count_list ?as A_ingress" "8 \<le> count_list ?as A_worker" "7 \<le> count_list ?as A_monitor" by (simp_all add: eval_nat_numeral)
  then show ?thesis using gateway_exits [OF d(1-3), of ?as "[A_ingress, A_ingress]" "[]"] d(1,2) by blast
qed


subsection \<open>The books at every step\<close>

text \<open>A point the ring has accepted and ingress has not counted; one the worker holds before and after it counts it.\<close>

fun uncounted :: "ingress_pc \<Rightarrow> u64" where
  "uncounted (I_count _) = 1"
| "uncounted _ = 0"

fun in_hand :: "worker_pc \<Rightarrow> u64" where
  "in_hand (W_popped _) = 1"
| "in_hand (W_stored _ _) = 1"
| "in_hand _ = 0"

fun in_flight :: "worker_pc \<Rightarrow> u64" where
  "in_flight (W_counted _ _) = 1"
| "in_flight (W_decided _ _) = 1"
| "in_flight (W_sent _ _) = 1"
| "in_flight W_failed = 1"
| "in_flight _ = 0"

definition books_at :: "'d gateway_sys \<Rightarrow> bool" where
  "books_at s \<longleftrightarrow> ring_wf (app_ring (gs_app s)) \<and>
     (\<exists>taken. gs_accepted s = taken @ ring_items (app_ring (gs_app s)) \<and>
        (case counts (app_metrics (gs_app s)) of (ingress, processed, ok, fail) \<Rightarrow>
           of_nat (length (gs_accepted s)) = ingress + uncounted (gs_ingress s) \<and>
           of_nat (length taken) = processed + in_hand (gs_worker s) \<and>
           processed = ok + fail + in_flight (gs_worker s)))"

lemma ring_push_step:
  assumes "ring_wf q" "ring_push q p = (ok, r)"
  shows "ring_wf r \<and> ring_items r = ring_items q @ (if ok then [p] else []) \<and> ring_cap r = ring_cap q"
  using ring.push_room [OF assms(1), of p] ring.push_full [OF assms(1), of p] ring.push_inv [OF assms(1), of p] assms(2)
  by (cases "length (ring_items q) < ring_cap q") auto

lemma ring_pop_step:
  assumes "ring_wf q" "ring_pop q = (x, r)"
  shows "ring_wf r \<and> ring_items q = (case x of None \<Rightarrow> [] | Some p \<Rightarrow> [p]) @ ring_items r"
  using ring.pop_items [OF assms(1)] ring.pop_inv [OF assms(1)] assms(2) by simp

lemma books_ingress:
  assumes "books_at s" "ingress_step s = Some s'"
  shows "books_at s'"
proof -
  have wf: "ring_wf (app_ring (gs_app s))" using assms(1) by (simp add: books_at_def)
  show ?thesis
    using assms(2)
  proof (cases rule: ingress_step_cases)
    case (accept p ps r)
    then show ?thesis using assms(1) ring_push_step [OF wf accept(2)] by (auto simp: books_at_def counts_def)
  next
    case (refuse p ps r)
    then show ?thesis using assms(1) ring_push_step [OF wf refuse(2)] by (auto simp: books_at_def counts_def)
  next
    case (count ps)
    then show ?thesis using assms(1) by (auto simp: books_at_def counts_def algebra_simps)
  qed (use assms(1) in \<open>auto simp: books_at_def gauges_only_def\<close>)
qed

lemma books_worker:
  assumes "books_at s" "worker_step s = Some s'"
  shows "books_at s'"
proof -
  have wf: "ring_wf (app_ring (gs_app s))" using assms(1) by (simp add: books_at_def)
  obtain taken where t: "gs_accepted s = taken @ ring_items (app_ring (gs_app s))"
    "of_nat (length taken) = gm_processed_points (app_metrics (gs_app s)) + in_hand (gs_worker s)"
    using assms(1) by (auto simp: books_at_def counts_def)
  show ?thesis
    using assms(2)
  proof (cases rule: worker_step_cases)
    case (quiet app1 w1 t pc)
    then show ?thesis using assms(1) by (auto simp: books_at_def gauges_only_def)
  next
    case (empty r)
    then show ?thesis using assms(1) ring_pop_step [OF wf empty(3)] by (auto simp: books_at_def)
  next
    case (pop p r)
    then have "gs_accepted s = (taken @ [p]) @ ring_items r" "of_nat (length (taken @ [p])) = gm_processed_points (app_metrics (gs_app s)) + 1"
      using t ring_pop_step [OF wf pop(3)] by simp_all
    then show ?thesis using assms(1) pop ring_pop_step [OF wf pop(3)]
      unfolding books_at_def by (intro conjI exI [of _ "taken @ [p]"]) (auto simp: counts_def)
  next
    case (decide q row app1 g1 w1)
    then have "app1 = fst (worker_decide q (gs_app s, gs_statics s, gs_env s))" by simp
    then show ?thesis using assms(1) decide(1,3) by (simp add: books_at_def frame_simps)
  qed (use assms(1) in \<open>auto simp: books_at_def counts_def algebra_simps\<close>)
qed

interpretation books_at: step_invariant books_at
proof
  fix s s' :: "'d gateway_sys" and a
  assume I: "books_at s" and st: "gateway_step a s = Some s'"
  from st show "books_at s'"
  proof (cases rule: gateway_step_cases)
    case ingress
    then show ?thesis using books_ingress [OF I] by blast
  next
    case worker
    then show ?thesis using books_worker [OF I] by blast
  next
    case monitor
    then show ?thesis using I monitor_step_frame(3,4,6,7,9) [OF monitor(2)] by (simp add: books_at_def)
  next
    case main
    then show ?thesis using I main_step_frame(2,3,5,6,8) [OF main(2)] by (simp add: books_at_def)
  qed (use I in \<open>simp add: books_at_def\<close>)
qed

text \<open>What a successful start leaves behind.\<close>

lemma started_fresh:
  assumes init: "gateway_app_init (Some a) (Some c) g w = (0, Some app0, g1, w1)" and run: "gateway_app_run (Some app0) g1 w1 = (0, Some app, w2)"
  shows "ring_wf (app_ring app)" "ring_items (app_ring app) = []" "counts (app_metrics app) = (0, 0, 0, 0)"
    "app_storage app = Some \<lparr>st_cfg = c, st_db = cfg_use_sqlite c\<rparr>"
proof -
  obtain a0 w0 where c0: "app_cleared c w = (a0, w0)" by (metis prod.exhaust)
  obtain src st w3 where so: "storage_open True (Some c) w0 = (src, st, w3)" by (metis prod_cases3)
  note r = app_run_started [OF run]
  have "ring_wf (app_ring app) \<and> ring_items (app_ring app) = [] \<and> counts (app_metrics app) = (0, 0, 0, 0) \<and>
    app_storage app = Some \<lparr>st_cfg = c, st_db = cfg_use_sqlite c\<rparr>"
  proof (cases rule: gateway_app_init_cases [OF init c0 so])
    case (3 m ring w4 wd)
    have "st = Some \<lparr>st_cfg = c, st_db = cfg_use_sqlite c\<rparr>" using so 3(1) by (auto simp: storage_open_def split: if_splits prod.splits)
    then show ?thesis using 3 r ring_setup_wf [OF 3(2)] app_cleared_simps(4) [OF c0] by auto
  qed simp_all
  then show "ring_wf (app_ring app)" "ring_items (app_ring app) = []" "counts (app_metrics app) = (0, 0, 0, 0)"
    "app_storage app = Some \<lparr>st_cfg = c, st_db = cfg_use_sqlite c\<rparr>" by blast+
qed

lemma started_books:
  assumes "gateway_app_init (Some a) (Some c) g w = (0, Some app0, g1, w1)" "gateway_app_run (Some app0) g1 w1 = (0, Some app, w2)"
  shows "books_at (gateway_started app g1 w2)"
  using started_fresh(1-3) [OF assms] by (simp add: books_at_def gateway_started_def)

text \<open>
  C3. The books of the running gateway, at every program point of its threads, after any interleaving of
  their steps from start-up, a stop included: the points the ring has accepted are those the worker has
  taken out followed by those still in the ring, in that order; the ingress counter is the number accepted,
  less the one that is accepted and not yet counted; the processed counter is the number taken, less the
  one the worker holds and has not counted; and the processed points are the successful plus the failed
  publications, plus the one in flight (64-bit counters). The ring stays well formed.
\<close>

theorem gateway_books_balance:
  assumes "gateway_app_init (Some a) (Some c) g w = (0, Some app0, g1, w1)" "gateway_app_run (Some app0) g1 w1 = (0, Some app, w2)"
    and "gateway_run sched (gateway_started app g1 w2) = Some s"
  shows "let m = app_metrics (gs_app s); q = ring_items (app_ring (gs_app s)) in
    ring_wf (app_ring (gs_app s)) \<and>
    (\<exists>taken. gs_accepted s = taken @ q \<and> of_nat (length taken) = gm_processed_points m + in_hand (gs_worker s)) \<and>
    gm_ingress_points m + uncounted (gs_ingress s) = gm_processed_points m + in_hand (gs_worker s) + of_nat (length q) \<and>
    gm_processed_points m = gm_mqtt_publish_ok m + gm_mqtt_publish_fail m + in_flight (gs_worker s)"
  using books_at.run [OF started_books [OF assms(1,2)] assms(3)] by (auto simp: books_at_def counts_def Let_def)

theorem gateway_books_balance_witness:
  "\<exists>app0 g1 w1 app w2 s. gateway_app_init (Some gateway_app_zero) (Some gateway_config_defaults) demo_statics fair_host = (0, Some app0, g1, w1) \<and>
     gateway_app_run (Some app0) g1 w1 = (0, Some app, w2) \<and>
     gateway_run [A_ingress, A_ingress, A_worker, A_ingress, A_worker, A_worker] (gateway_started app g1 w2) = Some s \<and>
     gm_ingress_points (app_metrics (gs_app s)) + uncounted (gs_ingress s) =
       gm_processed_points (app_metrics (gs_app s)) + in_hand (gs_worker s) + of_nat (length (ring_items (app_ring (gs_app s))))"
proof -
  obtain app0 g1 w1 app w2 where d: "gateway_app_init (Some gateway_app_zero) (Some gateway_config_defaults) demo_statics fair_host = (0, Some app0, g1, w1)"
    "gateway_app_run (Some app0) g1 w1 = (0, Some app, w2)" "fair w2" "orderly gateway_config_defaults (gateway_started app g1 w2)" using fair_start by blast
  obtain s where "gateway_run [A_ingress, A_ingress, A_worker, A_ingress, A_worker, A_worker] (gateway_started app g1 w2) = Some s"
    using run_fair [OF d(4)] by blast
  then show ?thesis using gateway_books_balance [OF d(1,2)] d(1,2) by (metis (no_types, lifting))
qed

subsection \<open>Over-temperature\<close>

text \<open>The point the engine is about to judge has been through the quality rule.\<close>

definition cool_at :: "gateway_config_t \<Rightarrow> 'd gateway_sys \<Rightarrow> bool" where
  "cool_at c s \<longleftrightarrow> engine_cool c (gs_app s) (gs_statics s) (gs_env s) \<and>
     (case gs_worker s of
        W_stored q _ \<Rightarrow> q \<in> range (apply_quality_rules c)
      | W_counted q _ \<Rightarrow> q \<in> range (apply_quality_rules c)
      | _ \<Rightarrow> True)"

lemma engine_cool_same:
  assumes "engine_cool c (gs_app s) g w" "fixed_members s' = fixed_members s" "app_state_engine (gs_app s') = app_state_engine (gs_app s)"
  shows "engine_cool c (gs_app s') g' w'"
  using assms by (simp add: engine_cool_def fixed_members_def)

lemma cool_worker:
  assumes "cool_at c s" "worker_step s = Some s'"
  shows "cool_at c s'"
proof -
  note same = engine_cool_same [OF _ worker_step_frame(1) [OF assms(2)]]
  have cool: "engine_cool c (gs_app s) (gs_statics s) (gs_env s)" using assms(1) by (simp add: cool_at_def)
  show ?thesis
    using assms(2)
  proof (cases rule: worker_step_cases)
    case (decide q row app1 g1 w1)
    then obtain p where q: "q = apply_quality_rules c p" using assms(1) by (auto simp: cool_at_def)
    have "app1 = fst (worker_decide q (gs_app s, gs_statics s, gs_env s))" using decide(2) by simp
    then show ?thesis using cool decide(3) engine_after_cool [of "app_state_engine (gs_app s)" c p]
      by (simp add: cool_at_def engine_cool_def frame_simps worker_decide_engine q)
  qed (use assms(1) in \<open>auto simp: cool_at_def engine_cool_def gauges_only_def\<close>)
qed

interpretation cool_at: step_invariant "cool_at c"
proof
  fix s s' :: "'d gateway_sys" and a
  assume I: "cool_at c s" and st: "gateway_step a s = Some s'"
  have cool: "engine_cool c (gs_app s) (gs_statics s) (gs_env s)" using I by (simp add: cool_at_def)
  note same = engine_cool_same [OF cool step_fixed [OF st]]
  from st show "cool_at c s'"
  proof (cases rule: gateway_step_cases)
    case ingress
    then show ?thesis using I same ingress_step_frame(3,4) [OF ingress(2)] by (simp add: cool_at_def)
  next
    case worker
    then show ?thesis using cool_worker [OF I] by blast
  next
    case monitor
    then show ?thesis using I same monitor_step_frame(4,8) [OF monitor(2)] by (simp add: cool_at_def)
  next
    case main
    then show ?thesis using I same main_step_frame(3,7) [OF main(2)] by (simp add: cool_at_def)
  qed (use I in \<open>simp add: cool_at_def engine_cool_def\<close>)
qed

text \<open>
  C13. The over-temperature protection is out of reach in the running gateway: from start-up, with a
  temperature limit that is not negative, after any interleaving of the threads' steps, whatever the
  devices report, the state engine is never in the FAULT state and its recorded temperature is never above
  the limit. The worker marks a point above the limit as bad and the engine skips bad points, so
  the BMS_TEMP_HIGH alarm and the interlock it guards can never happen.
\<close>

theorem over_temperature_unreachable:
  assumes "gateway_app_init (Some a) (Some c) g w = (0, Some app0, g1, w1)" "gateway_app_run (Some app0) g1 w1 = (0, Some app, w2)"
    and "gateway_run sched (gateway_started app g1 w2) = Some s" and "\<not> dlt (cfg_temp_high c) (Fin 0)"
  shows "se_state (app_state_engine (gs_app s)) \<noteq> SYSTEM_STATE_FAULT \<and>
    \<not> dlt (cfg_temp_high c) (se_max_cell_temp_c (app_state_engine (gs_app s)))"
proof -
  have "cool_at c (gateway_started app g1 w2)"
    using started_cool [OF assms(1,2,4)] by (simp add: cool_at_def gateway_started_def)
  then show ?thesis using cool_at.run [OF _ assms(3)] by (auto simp: cool_at_def engine_cool_def)
qed

theorem over_temperature_unreachable_witness:
  "\<exists>app0 g1 w1 app w2 s. gateway_app_init (Some gateway_app_zero) (Some gateway_config_defaults) demo_statics fair_host = (0, Some app0, g1, w1) \<and>
     gateway_app_run (Some app0) g1 w1 = (0, Some app, w2) \<and>
     gateway_run (replicate 12 A_ingress @ replicate 6 A_worker) (gateway_started app g1 w2) = Some s \<and>
     se_state (app_state_engine (gs_app s)) \<noteq> SYSTEM_STATE_FAULT"
proof -
  obtain app0 g1 w1 app w2 where d: "gateway_app_init (Some gateway_app_zero) (Some gateway_config_defaults) demo_statics fair_host = (0, Some app0, g1, w1)"
    "gateway_app_run (Some app0) g1 w1 = (0, Some app, w2)" "fair w2" "orderly gateway_config_defaults (gateway_started app g1 w2)" using fair_start by blast
  obtain s where s: "gateway_run (replicate 12 A_ingress @ replicate 6 A_worker) (gateway_started app g1 w2) = Some s"
    using run_fair [OF d(4)] by blast
  have "\<not> dlt (cfg_temp_high gateway_config_defaults) (Fin 0)" by (simp add: gateway_config_defaults_def)
  then show ?thesis using over_temperature_unreachable [OF d(1,2) s] s d(1,2) by blast
qed

subsection \<open>The queue is drained\<close>

text \<open>How many of the accepted points have left the ring, and a run nobody has asked to end.\<close>

definition taken_count :: "'d gateway_sys \<Rightarrow> nat" where
  "taken_count s = length (gs_accepted s) - length (ring_items (app_ring (gs_app s)))"

definition serving :: "'d gateway_sys \<Rightarrow> bool" where
  "serving s \<longleftrightarrow> books_at s \<and> \<not> gs_exit_requested s \<and> gs_main s = P_wait \<and> app_running (gs_app s) \<and> gs_worker s \<noteq> W_done"

lemma asked_by_signal:
  assumes "gateway_step a s = Some s'" "a \<noteq> A_signal"
  shows "gs_exit_requested s' = gs_exit_requested s"
  using assms(1)
proof (cases rule: gateway_step_cases)
  case ingress
  then show ?thesis by (cases rule: ingress_step_cases [OF ingress(2)]) simp_all
next
  case worker
  then show ?thesis by (cases rule: worker_step_cases [OF worker(2)]) simp_all
next
  case monitor
  then show ?thesis by (cases rule: monitor_step_cases [OF monitor(2)]) simp_all
next
  case main
  then show ?thesis by (cases rule: main_step_cases [OF main(2)]) simp_all
qed (use assms(2) in simp)

lemma serving_step:
  assumes I: "serving s" and st: "gateway_step a s = Some s'" and a: "a \<noteq> A_signal"
  shows "serving s'"
proof -
  note i = I [unfolded serving_def]
  have "gs_main s' = P_wait \<and> app_running (gs_app s') \<and> gs_worker s' \<noteq> W_done"
    using st
  proof (cases rule: gateway_step_cases)
    case ingress
    then show ?thesis using i ingress_step_frame(2,4,6) [OF ingress(2)] by simp
  next
    case worker
    have "gs_worker s' \<noteq> W_done" using i by (cases rule: worker_step_cases [OF worker(2)]) simp_all
    then show ?thesis using i worker_step_frame(2,5) [OF worker(2)] by simp
  next
    case monitor
    then show ?thesis using i monitor_step_frame(2,4,5) [OF monitor(2)] by simp
  next
    case main
    then show ?thesis using i by (cases rule: main_step_cases [OF main(2)]) simp_all
  qed (use a in simp)
  then show ?thesis using i books_at.step [OF _ st] asked_by_signal [OF st a] by (simp add: serving_def)
qed

text \<open>A worker's step brings it nearer to its next look at the ring, or takes a point that is there.\<close>

lemma worker_progress:
  assumes I: "serving s" and st: "worker_step s = Some s'" and n: "taken_count s < N" "N \<le> length (gs_accepted s)"
  shows "8 * (N - taken_count s') + worker_left (gs_worker s') + 1 \<le> 8 * (N - taken_count s) + worker_left (gs_worker s)"
    "taken_count s \<le> taken_count s'"
proof -
  note i = I [unfolded serving_def]
  have wf: "ring_wf (app_ring (gs_app s))" and acc: "length (ring_items (app_ring (gs_app s))) \<le> length (gs_accepted s)"
    using i by (auto simp: books_at_def)
  have "8 * (N - taken_count s') + worker_left (gs_worker s') + 1 \<le> 8 * (N - taken_count s) + worker_left (gs_worker s) \<and>
      taken_count s \<le> taken_count s'"
    using st
  proof (cases rule: worker_step_cases)
    case (empty r)
    then show ?thesis using ring_pop_step [OF wf empty(3)] ring_pop_eq [OF wf] n by (auto simp: taken_count_def split: if_splits)
  next
    case (pop p r)
    have "taken_count s' = Suc (taken_count s)" using pop(4) ring_pop_step [OF wf pop(3)] acc by (simp add: taken_count_def Suc_diff_le)
    then show ?thesis using pop(1,4) n by simp
  next
    case (decide q row app1 g1 w1)
    then have "app1 = fst (worker_decide q (gs_app s, gs_statics s, gs_env s))" by simp
    then show ?thesis using decide(1,3) by (simp add: taken_count_def frame_simps)
  qed (use i in \<open>auto simp: taken_count_def gauges_only_def\<close>)
  then show "8 * (N - taken_count s') + worker_left (gs_worker s') + 1 \<le> 8 * (N - taken_count s) + worker_left (gs_worker s)"
    "taken_count s \<le> taken_count s'" by blast+
qed

lemma other_progress:
  assumes I: "serving s" and st: "gateway_step a s = Some s'" and a: "a \<noteq> A_worker" "a \<noteq> A_signal"
  shows "taken_count s' = taken_count s" "gs_worker s' = gs_worker s" "length (gs_accepted s) \<le> length (gs_accepted s')"
proof -
  have wf: "ring_wf (app_ring (gs_app s))" using I by (auto simp: serving_def books_at_def)
  have "taken_count s' = taken_count s \<and> gs_worker s' = gs_worker s \<and> length (gs_accepted s) \<le> length (gs_accepted s')"
    using st
  proof (cases rule: gateway_step_cases)
    case ingress
    have "taken_count s' = taken_count s \<and> length (gs_accepted s) \<le> length (gs_accepted s')"
      using ingress(2)
    proof (cases rule: ingress_step_cases)
      case (accept p ps r)
      then show ?thesis using ring_push_step [OF wf accept(2)] by (simp add: taken_count_def)
    next
      case (refuse p ps r)
      then show ?thesis using ring_push_step [OF wf refuse(2)] by (simp add: taken_count_def)
    qed (simp_all add: taken_count_def gauges_only_def)
    then show ?thesis using ingress_step_frame(4) [OF ingress(2)] by simp
  next
    case monitor
    then show ?thesis using monitor_step_frame(4,6,7) [OF monitor(2)] by (simp add: taken_count_def)
  next
    case main
    then show ?thesis using main_step_frame(3,5,6) [OF main(2)] by (simp add: taken_count_def)
  qed (use a in simp_all)
  then show "taken_count s' = taken_count s" "gs_worker s' = gs_worker s" "length (gs_accepted s) \<le> length (gs_accepted s')" by blast+
qed

lemma worker_ring:
  assumes "worker_step s = Some s'" "ring_wf (app_ring (gs_app s))"
  shows "suffix (ring_items (app_ring (gs_app s'))) (ring_items (app_ring (gs_app s)))"
    "\<not> app_running (gs_app s) \<Longrightarrow> app_ring (gs_app s') = app_ring (gs_app s)"
proof -
  have "suffix (ring_items (app_ring (gs_app s'))) (ring_items (app_ring (gs_app s))) \<and>
      (\<not> app_running (gs_app s) \<longrightarrow> app_ring (gs_app s') = app_ring (gs_app s))"
    using assms(1)
  proof (cases rule: worker_step_cases)
    case (empty r)
    then show ?thesis using ring_pop_step [OF assms(2) empty(3)] by simp
  next
    case (pop p r)
    then show ?thesis using ring_pop_step [OF assms(2) pop(3)] by (simp add: suffix_ConsI)
  next
    case (decide q row app1 g1 w1)
    then have "app1 = fst (worker_decide q (gs_app s, gs_statics s, gs_env s))" by simp
    then show ?thesis using decide(3) by (simp add: frame_simps)
  qed (auto simp: gauges_only_def)
  then show "suffix (ring_items (app_ring (gs_app s'))) (ring_items (app_ring (gs_app s)))"
    "\<not> app_running (gs_app s) \<Longrightarrow> app_ring (gs_app s') = app_ring (gs_app s)" by blast+
qed

lemma worker_keeps_taken:
  assumes "serving s" "worker_step s = Some s'"
  shows "taken_count s \<le> taken_count s'"
proof -
  have "length (ring_items (app_ring (gs_app s'))) \<le> length (ring_items (app_ring (gs_app s)))"
    using worker_ring(1) [OF assms(2)] assms(1) by (auto simp: serving_def books_at_def dest: suffix_length_le)
  then show ?thesis using worker_step_frame(6) [OF assms(2)] by (simp add: taken_count_def)
qed

lemma accepted_run: "gateway_run as s = Some s' \<Longrightarrow> prefix (gs_accepted s) (gs_accepted s')"
proof (induction as arbitrary: s)
  case (Cons a as)
  then obtain s1 where s1: "gateway_step a s = Some s1" "gateway_run as s1 = Some s'" by (auto simp: bind_eq_Some_conv)
  have "prefix (gs_accepted s) (gs_accepted s1)"
    using s1(1)
  proof (cases rule: gateway_step_cases)
    case ingress
    then show ?thesis by (cases rule: ingress_step_cases [OF ingress(2)]) simp_all
  qed (use worker_step_frame(6) [of s s1] monitor_step_frame(6) [of s s1] main_step_frame(5) [of s s1] in simp_all)
  then show ?case using Cons.IH [OF s1(2)] by (rule prefix_order.trans)
qed simp

lemma drain_run:
  assumes "serving s" "gateway_run as s = Some s'" "A_signal \<notin> set as" "N \<le> length (gs_accepted s)"
    and "8 * (N - taken_count s) + worker_left (gs_worker s) \<le> count_list as A_worker \<or> N \<le> taken_count s"
  shows "serving s' \<and> N \<le> taken_count s'"
  using assms
proof (induction as arbitrary: s)
  case Nil
  then show ?case by (cases "gs_worker s") (auto simp: serving_def)
next
  case (Cons a as)
  then obtain s1 where s1: "gateway_step a s = Some s1" "gateway_run as s1 = Some s'" by (auto simp: bind_eq_Some_conv)
  have a: "a \<noteq> A_signal" using Cons.prems(3) by auto
  have i1: "serving s1" by (rule serving_step [OF Cons.prems(1) s1(1) a])
  have acc: "length (gs_accepted s) \<le> length (gs_accepted s1)"
    using other_progress(3) [OF Cons.prems(1) s1(1) _ a] worker_step_frame(6) [of s s1] s1(1) by (cases "a = A_worker") auto
  have "8 * (N - taken_count s1) + worker_left (gs_worker s1) \<le> count_list as A_worker \<or> N \<le> taken_count s1"
  proof (cases "a = A_worker")
    case True
    then have w: "worker_step s = Some s1" using s1(1) by simp
    show ?thesis
    proof (cases "taken_count s < N")
      case n: True
      then show ?thesis using worker_progress [OF Cons.prems(1) w n Cons.prems(4)] Cons.prems(5) True by simp
    next
      case False
      then show ?thesis using worker_keeps_taken [OF Cons.prems(1) w] by simp
    qed
  next
    case False
    then show ?thesis using other_progress [OF Cons.prems(1) s1(1) False a] Cons.prems(5) by simp
  qed
  then show ?case using Cons.IH [OF i1 s1(2)] Cons.prems(3,4) acc by simp
qed

text \<open>
  C8. No point waits for ever: in a world where sleeps end and writes make progress or fail, while no signal
  has arrived, whatever the threads have done since start-up, a further 8 steps of the worker for each point in the ring and 8
  more, in any order with any steps of the other threads, take every point that was in the ring out of
  it, in order and before any point accepted later.
\<close>

theorem gateway_drains:
  assumes "gateway_app_init (Some a) (Some c) g w = (0, Some app0, g1, w1)" "gateway_app_run (Some app0) g1 w1 = (0, Some app, w2)"
    and "fair w2" and "A_signal \<notin> set before" "gateway_run before (gateway_started app g1 w2) = Some s"
    and "A_signal \<notin> set after" "8 * length (ring_items (app_ring (gs_app s))) + 8 \<le> count_list after A_worker"
  shows "\<exists>s' taken. gateway_run after s = Some s' \<and> gs_accepted s' = taken @ ring_items (app_ring (gs_app s')) \<and>
    prefix (gs_accepted s) taken"
proof -
  let ?s0 = "gateway_started app g1 w2"
  have "serving ?s0" using started_books [OF assms(1,2)] app_run_started [OF assms(2)] by (simp add: serving_def gateway_started_def)
  then have sv: "serving s" using drain_run [OF _ assms(5,4), of 0] by simp
  obtain s' where s': "gateway_run after s = Some s'"
    using run_fair [OF orderly.run [OF started_orderly [OF assms(1-3)] assms(5)]] by blast
  obtain t0 where t0: "gs_accepted s = t0 @ ring_items (app_ring (gs_app s))" using sv by (auto simp: serving_def books_at_def)
  have "8 * (length (gs_accepted s) - taken_count s) + worker_left (gs_worker s) \<le> count_list after A_worker"
    using assms(7) t0 worker_left_few [of "gs_worker s"] by (simp add: taken_count_def)
  then have d: "serving s' \<and> length (gs_accepted s) \<le> taken_count s'" using drain_run [OF sv s' assms(6) order_refl] by blast
  obtain taken where t: "gs_accepted s' = taken @ ring_items (app_ring (gs_app s'))" using d by (auto simp: serving_def books_at_def)
  moreover have "prefix (gs_accepted s) (gs_accepted s')" by (rule accepted_run [OF s'])
  ultimately have "prefix (gs_accepted s) taken" using d by (metis diff_add_inverse2 length_append prefix_length_prefix prefixI taken_count_def)
  then show ?thesis using s' t by blast
qed

theorem gateway_drains_witness:
  "\<exists>app0 g1 w1 app w2 s s'. gateway_app_init (Some gateway_app_zero) (Some gateway_config_defaults) demo_statics fair_host = (0, Some app0, g1, w1) \<and>
     gateway_app_run (Some app0) g1 w1 = (0, Some app, w2) \<and> gateway_run (replicate 12 A_ingress) (gateway_started app g1 w2) = Some s \<and>
     gateway_run (replicate (8 * length (ring_items (app_ring (gs_app s))) + 8) A_worker) s = Some s'"
proof -
  obtain app0 g1 w1 app w2 where d: "gateway_app_init (Some gateway_app_zero) (Some gateway_config_defaults) demo_statics fair_host = (0, Some app0, g1, w1)"
    "gateway_app_run (Some app0) g1 w1 = (0, Some app, w2)" "fair w2" "orderly gateway_config_defaults (gateway_started app g1 w2)" using fair_start by blast
  obtain s where s: "gateway_run (replicate 12 A_ingress) (gateway_started app g1 w2) = Some s"
    using run_fair [OF d(4)] by blast
  have "count_list (replicate n A_worker) A_worker = n" for n by (induction n) simp_all
  then show ?thesis
    using gateway_drains [OF d(1-3) _ s, of "replicate (8 * length (ring_items (app_ring (gs_app s))) + 8) A_worker"] d(1,2) s by auto
qed

subsection \<open>What a stop leaves behind\<close>

lemma abandoned_run:
  assumes "books_at s" "\<not> app_running (gs_app s)" "gateway_run as s = Some s'"
  shows "prefix (ring_items (app_ring (gs_app s))) (ring_items (app_ring (gs_app s')))"
  using assms
proof (induction as arbitrary: s)
  case (Cons a as)
  then obtain s1 where s1: "gateway_step a s = Some s1" "gateway_run as s1 = Some s'" by (auto simp: bind_eq_Some_conv)
  have wf: "ring_wf (app_ring (gs_app s))" using Cons.prems(1) by (simp add: books_at_def)
  have "prefix (ring_items (app_ring (gs_app s))) (ring_items (app_ring (gs_app s1)))"
    using s1(1)
  proof (cases rule: gateway_step_cases)
    case ingress
    from ingress(2) show ?thesis
    proof (cases rule: ingress_step_cases)
      case (accept p ps r)
      then show ?thesis using ring_push_step [OF wf accept(2)] by simp
    next
      case (refuse p ps r)
      then show ?thesis using ring_push_step [OF wf refuse(2)] by simp
    qed (simp_all add: gauges_only_def)
  next
    case worker
    then show ?thesis using worker_ring(2) [OF worker(2) wf Cons.prems(2)] by simp
  qed (use monitor_step_frame(7) [of s s1] main_step_frame(6) [of s s1] in simp_all)
  moreover have "\<not> app_running (gs_app s1)" using step_running(1) [OF s1(1)] Cons.prems(2) by blast
  ultimately show ?case using Cons.IH [OF books_at.step [OF Cons.prems(1) s1(1)] _ s1(2)] prefix_order.trans by blast
qed simp



end
