(* ===== verification/Gateway_Descriptors.thy ===== *)
theory Gateway_Descriptors
  imports Gateway_Safety
begin

text \<open>
  The descriptors of the running gateway, statement by statement. At every point of every schedule
  the sockets that are open are the ones its records name, and when the main thread is through
  \<^verbatim>\<open>gateway_app_stop\<close> none is left.
\<close>

subsection \<open>What a step keeps\<close>

lemma gauges_held:
  fixes w w' :: "'d env"
  assumes "fds_held base c app g w" "gauges_only app app'" "\<forall>rows :: 'd \<Rightarrow> tel_row list. tame rows w w'"
  shows "fds_held base c app' g w'"
  using assms by (simp add: fds_held_def gauges_only_def tame_def)

lemma ingress_step_held:
  assumes I: "fds_held base c (gs_app s) (gs_statics s) (gs_env s)" and "ingress_step s = Some s'"
  shows "fds_held base c (gs_app s') (gs_statics s') (gs_env s')"
  using assms(2)
proof (cases rule: ingress_step_cases)
  case (poll n points ig w1)
  have "app_registry (gs_app s) = \<lparr>reg_slots = [modbus_slot c]\<rparr>" using I by (simp add: fds_held_def)
  then have "calm (gs_env s) w1" using tame_poll_all [of "\<lambda>_. ()" "gs_env s" c] poll(3) by (metis snd_conv)
  then show ?thesis using calm_held [OF I] poll(4) by simp
next
  case (report app1 w1)
  then show ?thesis using gauges_held [OF I report(2,3)] by simp
qed (use I in \<open>simp_all add: fds_held_def\<close>)

lemma worker_step_held:
  assumes I: "fds_held base c (gs_app s) (gs_statics s) (gs_env s)" and "worker_step s = Some s'"
  shows "fds_held base c (gs_app s') (gs_statics s') (gs_env s')"
  using assms(2)
proof (cases rule: worker_step_cases)
  case (quiet app1 w1 t pc)
  then show ?thesis using gauges_held [OF I quiet(2,3)] by simp
next
  case (store p q row w1)
  have "calm (gs_env s) w1"
    using store(3) calm_append [of "gs_env s" "app_storage (gs_app s)" "Some q" "Some 0"] tame_trans [OF _ tame_log(2)]
    by (auto simp: worker_append_def split_beta)
  then show ?thesis using calm_held [OF I] store(4) by simp
next
  case (decide q row app1 g1 w1)
  have reg: "app_registry (gs_app s) = \<lparr>reg_slots = [modbus_slot c]\<rparr>" using I by (simp add: fds_held_def)
  show ?thesis
    using calm_held [OF I tame_worker_decide [OF reg, of "\<lambda>_. ()" "gs_env s" q "gs_statics s"], of app1 g1]
      worker_decide_frame [of q "gs_app s" "gs_statics s" "gs_env s"] worker_decide_statics [of q "gs_app s" "gs_statics s" "gs_env s"] decide
    by simp
next
  case (publish q row rc u w1)
  then show ?thesis using session_held [OF I] publish_telemetry_frame(1) [OF publish(2)] by auto
next
  case (mark q row)
  then show ?thesis using calm_held [OF I calm_mark] by simp
qed (use I in \<open>simp_all add: fds_held_def\<close>)

lemma replay_locked_kept:
  assumes "replay_locked st rows m s w = Some (m', u, w')"
  shows "fd_kept s w u w'"
proof -
  obtain rc s1 w1 where e: "mqtt_ensure_connected_locked s w = Some (rc, s1, w1)"
    using assms by (auto simp: replay_locked_def bind_eq_Some_conv)
  show ?thesis
  proof (cases "rc = 0")
    case True
    then obtain k m1 where "replay_rows st rows 0 (Some m) s1 w1 = Some (k, m1, u, w')"
      using assms e by (auto simp: replay_locked_def)
    then have "fd_kept s1 w1 u w'" using descriptors.R_replay_rows ensure_usable(1) [OF e] True by blast
    then show ?thesis by (rule fd_kept_trans [OF ensure_kept [OF e]])
  next
    case False
    then show ?thesis using assms e ensure_kept [OF e] by (simp add: replay_locked_def)
  qed
qed

lemma monitor_beat_held:
  assumes I: "fds_held base c app g w" and "monitor_beat app w = Some (u, w')"
  shows "fds_held base c (app\<lparr>app_mqtt := u\<rparr>) g w'"
proof -
  obtain n w1 where ct: "storage_pending_telemetry_count (app_storage app) w = (n, w1)" by (metis prod.exhaust)
  obtain now w2 where no: "edgeflow_now_ms w1 = (now, w2)" by (metis prod.exhaust)
  have "calm w w2" using tame_trans [OF tame_count tame_now] ct no by (metis snd_conv)
  then have I2: "fds_held base c app g w2" by (rule calm_held [OF I]) simp_all
  obtain topic pl rc where "publish_locked (app_mqtt app) topic pl w2 = Some (rc, u, w')"
    using assms(2) ct no by (auto simp: monitor_beat_def mqtt_session_publish_heartbeat_def)
  then show ?thesis by (rule session_held [OF I2 descriptors.R_publish_locked])
qed

lemma monitor_step_held:
  assumes I: "fds_held base c (gs_app s) (gs_statics s) (gs_env s)" and "monitor_step s = Some s'"
  shows "fds_held base c (gs_app s') (gs_statics s') (gs_env s')"
  using assms(2)
proof (cases rule: monitor_step_cases)
  case (quiet app1 w1 pc)
  then show ?thesis using gauges_held [OF I quiet(2,3)] by simp
next
  case (fetch frc rows cnt w1)
  have "calm (gs_env s) w1" using calm_db [OF fetch_only] fetch(3) by (metis snd_conv)
  then show ?thesis using calm_held [OF I] fetch(4) by simp
next
  case (send rows m u w1)
  have "fds_held base c ((gs_app s)\<lparr>app_mqtt := u\<rparr>) (gs_statics s) w1"
    by (rule session_held [OF I replay_locked_kept [OF send(2)]])
  then show ?thesis using send(3) by (simp add: fds_held_def)
next
  case (gauge n w1)
  have "calm (gs_env s) w1" using tame_count gauge(2) by (metis snd_conv)
  then show ?thesis using calm_held [OF I] gauge(3) by simp
next
  case (ping r u w1)
  then show ?thesis using session_held [OF I] descriptors.R_ping [OF ping(2)] by auto
next
  case (beat u w1)
  then show ?thesis using monitor_beat_held [OF I beat(2)] by simp
qed (use I in \<open>simp_all add: fds_held_def\<close>)

subsection \<open>Every schedule\<close>

definition held_at :: "(int \<Rightarrow> int) \<Rightarrow> gateway_config_t \<Rightarrow> 'd gateway_sys \<Rightarrow> bool" where
  "held_at base c s \<longleftrightarrow> fds_held base c (gs_app s) (gs_statics s) (gs_env s) \<and>
     (gs_main s = P_done \<longrightarrow> threads_done s \<and> ms_fd (app_mqtt (gs_app s)) < 0 \<and> wd_notify_fd (sg_watchdog (gs_statics s)) < 0)"

lemma done_idle:
  assumes "threads_done s" "gs_main s = P_done" "gateway_step a s = Some s'"
  shows "s' = s \<or> s' = s\<lparr>gs_exit_requested := True\<rparr>"
  using assms
  by (cases a) (auto simp: threads_done_def ingress_step_def worker_step_def monitor_step_def main_step_def on_signal_def Let_def)

lemma main_step_held_at:
  assumes I: "held_at base c s" and "gs_main s \<noteq> P_done" "main_step s = Some s'"
  shows "held_at base c s'"
  using assms(3)
proof (cases rule: main_step_cases)
  case (wait w1)
  then show ?thesis using I calm_held [OF _ tame_sleep [OF wait(3)], of base c "gs_app s" "gs_statics s"] by (simp add: held_at_def)
next
  case (joined u w1 wd w2)
  have "fds_held base c (gs_app s) (gs_statics s) (gs_env s)" using I by (simp add: held_at_def)
  from stop_closes [OF this joined(3,4)] show ?thesis using joined by (simp add: held_at_def threads_done_def)
qed (use I assms(2) in \<open>simp_all add: held_at_def fds_held_def\<close>)

interpretation held_at: step_invariant "held_at base c"
proof
  fix s s' :: "'d gateway_sys" and a
  assume I: "held_at base c s" and st: "gateway_step a s = Some s'"
  show "held_at base c s'"
  proof (cases "gs_main s = P_done")
    case True
    then have "s' = s \<or> s' = s\<lparr>gs_exit_requested := True\<rparr>" using done_idle [OF _ True st] I by (simp add: held_at_def)
    then show ?thesis using I by (auto simp: held_at_def threads_done_def)
  next
    case False
    have h: "fds_held base c (gs_app s) (gs_statics s) (gs_env s)" using I by (simp add: held_at_def)
    from st show ?thesis
    proof (cases rule: gateway_step_cases)
      case ingress
      then show ?thesis using ingress_step_held [OF h] ingress_step_frame(6) False by (metis held_at_def)
    next
      case worker
      then show ?thesis using worker_step_held [OF h] worker_step_frame(5) False by (metis held_at_def)
    next
      case monitor
      then show ?thesis using monitor_step_held [OF h] monitor_step_frame(5) False by (metis held_at_def)
    next
      case main
      then show ?thesis using main_step_held_at [OF I False] by blast
    qed (use I in \<open>simp add: held_at_def threads_done_def\<close>)
  qed
qed

lemma started_held_at:
  assumes "gateway_app_init (Some a) (Some c) g w = (0, Some app0, g1, w1)" "sg_watchdog g = watchdog_initial"
    and "gateway_app_run (Some app0) g1 w1 = (0, Some app, w2)"
  shows "held_at (\<lambda>fd. fd_balance fd (env_calls w)) c (gateway_started app g1 w2)"
  using gateway_run_held [OF assms(3) gateway_init_held [OF assms(1,2)]] by (simp add: held_at_def gateway_started_def)

lemma schedule_descriptors:
  assumes "gateway_app_init (Some a) (Some c) g w = (0, Some app0, g1, w1)" "sg_watchdog g = watchdog_initial"
    and "gateway_app_run (Some app0) g1 w1 = (0, Some app, w2)" and "gateway_run as (gateway_started app g1 w2) = Some s"
  shows "fd_balance fd (env_calls (gs_env s)) = fd_balance fd (env_calls w) +
      held (ms_fd (app_mqtt (gs_app s))) fd + held (wd_notify_fd (sg_watchdog (gs_statics s))) fd \<and>
    (gs_main s = P_done \<longrightarrow> fd_balance fd (env_calls (gs_env s)) = fd_balance fd (env_calls w) \<and>
      (case gateway_app_destroy (Some (gs_app s)) (gs_statics s) (gs_env s) of
         (app', g', w') \<Rightarrow> fd_balance fd (env_calls w') = fd_balance fd (env_calls w) \<and>
           (\<exists>a'. app' = Some a' \<and> app_storage a' = None \<and> rg_buf (app_ring a') = None)))"
proof -
  have I: "held_at (\<lambda>fd. fd_balance fd (env_calls w)) c s"
    by (rule held_at.run [OF started_held_at [OF assms(1-3)] assms(4)])
  obtain app' g' w' where d: "gateway_app_destroy (Some (gs_app s)) (gs_statics s) (gs_env s) = (app', g', w')" by (metis prod_cases3)
  show ?thesis
    using I destroy_closes [OF _ _ _ d, of "\<lambda>fd. fd_balance fd (env_calls w)" c fd] d
    by (auto simp: held_at_def fds_held_def held_def)
qed


lemma exit_demo:
  "\<exists>app0 g1 w1 app w2 s. gateway_app_init (Some gateway_app_zero) (Some gateway_config_defaults) demo_statics fair_host = (0, Some app0, g1, w1) \<and>
     gateway_app_run (Some app0) g1 w1 = (0, Some app, w2) \<and>
     gateway_run ([A_ingress, A_ingress] @ [A_signal] @ [A_main] @
       (replicate 19 A_ingress @ replicate 8 A_worker @ replicate 7 A_monitor) @ [A_main]) (gateway_started app g1 w2) = Some s \<and>
     gs_main s = P_done"
proof -
  obtain app0 g1 w1 app w2 where d: "gateway_app_init (Some gateway_app_zero) (Some gateway_config_defaults) demo_statics fair_host = (0, Some app0, g1, w1)"
    "gateway_app_run (Some app0) g1 w1 = (0, Some app, w2)" "fair w2" using fair_start by blast
  let ?as = "replicate 19 A_ingress @ replicate 8 A_worker @ replicate 7 A_monitor"
  have "19 \<le> count_list ?as A_ingress" "8 \<le> count_list ?as A_worker" "7 \<le> count_list ?as A_monitor" by (simp_all add: eval_nat_numeral)
  then obtain s where s: "gateway_run ([A_ingress, A_ingress] @ [A_signal] @ [] @ [A_main] @ ?as @ [A_main]) (gateway_started app g1 w2) = Some s"
    "gs_main s = P_done" using exit_run [OF d, of ?as "[A_ingress, A_ingress]" "[]"] by blast
  show ?thesis
    by (rule exI [of _ app0], rule exI [of _ g1], rule exI [of _ w1], rule exI [of _ app], rule exI [of _ w2], rule exI [of _ s])
      (use d(1,2) s in \<open>simp only: append_Nil simp_thms\<close>)
qed


end
