(* ===== verification/Gateway_Process.thy ===== *)
theory Gateway_Process
  imports Gateway_Descriptors
begin

text \<open>
  The two executables: the gateway process, \<^verbatim>\<open>src/src/main.c\<close>, and the operator's command line
  tool, \<^verbatim>\<open>src/src/cli/main.c\<close>.

  A command of the tool returns its exit code, what it printed on standard output and the world;
  the error stream is part of the world. The configuration file is read through the parameters of the
  configuration loader. The process runs a schedule of the steps of \<open>Gateway_Steps\<close>, which is an argument: the
  main thread's wait and stop are steps of it, among those of the threads and the signals.
\<close>

definition eol :: string where
  "eol = [CHR 0x0A]"

definition print_err :: "string \<Rightarrow> 'd env \<Rightarrow> 'd env" where
  "print_err msg w = w\<lparr>env_stderr := env_stderr w @ msg\<rparr>"

subsection \<open>Command line options\<close>

definition is_config_option :: "string \<Rightarrow> bool" where
  "is_config_option a \<longleftrightarrow> a = ''-c'' \<or> a = ''--config''"

text \<open>The process takes the value after the first option; the list is \<^verbatim>\<open>argv\<close> from index 1.\<close>

fun first_option_value :: "string list \<Rightarrow> string option" where
  "first_option_value (a # b # rest) = (if is_config_option a then Some b else first_option_value (b # rest))"
| "first_option_value _ = None"

definition parse_config_path :: "string list \<Rightarrow> string" where
  "parse_config_path argv =
     (case first_option_value (drop 1 argv) of Some p \<Rightarrow> p | None \<Rightarrow> ''configs/gateway.json'')"

text \<open>The tool keeps the value after the last option; the list is \<^verbatim>\<open>argv\<close> from index 2.\<close>

fun last_option_value :: "(string \<Rightarrow> bool) \<Rightarrow> string list \<Rightarrow> string option \<Rightarrow> string option" where
  "last_option_value opt (a # b # rest) acc = last_option_value opt (b # rest) (if opt a then Some b else acc)"
| "last_option_value opt _ acc = acc"

subsection \<open>The tool\<close>

definition usage_text :: "string \<Rightarrow> string" where
  "usage_text prog =
     ''Usage:'' @ eol @
     ''  '' @ prog @ '' validate-config -c <gateway.json>'' @ eol @
     ''  '' @ prog @ '' status --metrics <metrics.prom>'' @ eol @
     ''  '' @ prog @ '' storage-stats --sqlite <edgeflow.db>'' @ eol"

definition cli_config_path :: "string list \<Rightarrow> string" where
  "cli_config_path argv =
     (case last_option_value is_config_option (drop 2 argv) None of Some p \<Rightarrow> p | None \<Rightarrow> ''configs/gateway.json'')"

definition validate_report :: "string \<Rightarrow> gateway_config_t \<Rightarrow> string" where
  "validate_report path cfg =
     ''validate-config OK: '' @ path @ eol @
     ''  device_id='' @ cfg_device_id cfg @ '' simulate='' @ show_bool (cfg_simulate cfg) @ eol @
     ''  broker='' @ cfg_broker_host cfg @ '':'' @ show_word (cfg_broker_port cfg) @ '' topic='' @ cfg_mqtt_topic cfg @ eol @
     ''  sqlite='' @ cfg_sqlite_path cfg @ '' use_sqlite='' @ show_bool (cfg_use_sqlite cfg) @ eol"

definition cmd_validate_config ::
    "(string \<Rightarrow> file_io) \<Rightarrow> c_heap \<Rightarrow> string list \<Rightarrow> 'd env \<Rightarrow> (int \<times> string \<times> 'd env) option" where
  "cmd_validate_config fs mem argv w =
     (let path = cli_config_path argv
      in Option.bind (gateway_config_load fs mem (Some path) (Some gateway_config_zero)) (\<lambda>(rc, cfg, mem').
           if rc \<noteq> 0 then Some (1, '''', print_err (''validate-config: load failed: '' @ path @ eol) w)
           else Some (0, validate_report path (the cfg), w)))"

text \<open>\<^verbatim>\<open>fgets\<close> with a buffer of \<open>n\<close> bytes: up to \<open>n - 1\<close> characters, through the first new line.\<close>

fun c_fgets :: "nat \<Rightarrow> string \<Rightarrow> string \<times> string" where
  "c_fgets n [] = ([], [])"
| "c_fgets n (c # cs) =
     (if n \<le> 1 then ([], c # cs)
      else if c = CHR 0x0A then ([c], cs)
      else case c_fgets (n - 1) cs of (line, rest) \<Rightarrow> (c # line, rest))"

lemma fgets_append: "c_fgets n t = (line, rest) \<Longrightarrow> t = line @ rest"
  by (induction n t arbitrary: line rest rule: c_fgets.induct) (auto split: if_splits prod.splits)

lemma fgets_progress: "t \<noteq> [] \<Longrightarrow> c_fgets 512 t = (line, rest) \<Longrightarrow> length rest < length t"
  using fgets_append [of 511 "tl t"] by (cases t) (auto split: if_splits prod.splits)

function status_lines :: "string \<Rightarrow> string" where
  "status_lines t =
     (if t = [] then ''''
      else (case c_fgets 512 t of (line, rest) \<Rightarrow> (if hd line \<noteq> CHR ''#'' then c_str line else '''') @ status_lines rest))"
  by pat_completeness auto
termination by (relation "measure length") (auto dest: fgets_progress [OF _ sym])

declare status_lines.simps [simp del]

definition cmd_status :: "string list \<Rightarrow> 'd env \<Rightarrow> int \<times> string \<times> 'd env" where
  "cmd_status argv w =
     (case last_option_value (\<lambda>a. a = ''--metrics'') (drop 2 argv) None of
        None \<Rightarrow> (1, '''', print_err (''status: missing --metrics'' @ eol) w)
      | Some metrics_path \<Rightarrow>
          (case syscall (C_fopen metrics_path ''r'') w of
             (fp, w1) \<Rightarrow>
               if fp = 0 then (1, '''', print_err (''status: cannot open '' @ metrics_path @ eol) w1)
               else (0, ''=== edgeflow status ('' @ metrics_path @ '') ==='' @ eol @ status_lines (env_files w1 metrics_path), w1)))"

definition stats_queries :: "(string \<times> string) list" where
  "stats_queries =
     [(''SELECT COUNT(*) FROM telemetry;'', ''telemetry_total''),
      (''SELECT COUNT(*) FROM telemetry WHERE uploaded=0;'', ''telemetry_pending''),
      (''SELECT COUNT(*) FROM alarms;'', ''alarms_total''),
      (''SELECT COUNT(*) FROM commands;'', ''commands_total'')]"

fun show_int :: "int \<Rightarrow> string" where
  "show_int i = (if i < 0 then ''-'' @ show_nat (nat (- i)) else show_nat (nat i))"

fun stats_loop :: "(string \<times> string) list \<Rightarrow> 'd env \<Rightarrow> string \<times> 'd env" where
  "stats_loop [] w = ('''', w)"
| "stats_loop ((sql, label) # qs) w =
     (case db_prepare sql w of
        (ok, w1) \<Rightarrow>
          if \<not> ok then stats_loop qs w1
          else
            (case db_rows sql [] w1 of
               (rs, w2) \<Rightarrow>
                 let line = (case rs of [] \<Rightarrow> ''''
                   | r # _ \<Rightarrow> label @ '' '' @ show_int (sq_column_int64 (env_sqlite w2) (col r 0)) @ eol)
                 in (case stats_loop qs w2 of (out, w3) \<Rightarrow> (line @ out, w3))))"

definition cmd_storage_stats :: "string list \<Rightarrow> 'd env \<Rightarrow> int \<times> string \<times> 'd env" where
  "cmd_storage_stats argv w =
     (case last_option_value (\<lambda>a. a = ''--sqlite'') (drop 2 argv) None of
        None \<Rightarrow> (1, '''', print_err (''storage-stats: missing --sqlite'' @ eol) w)
      | Some db_path \<Rightarrow>
          (case db_open db_path w of
             (ok, w1) \<Rightarrow>
               if \<not> ok then (1, '''', print_err (''storage-stats: open failed: '' @ db_path @ eol) w1)
               else
                 (case stats_loop stats_queries w1 of
                    (out, w2) \<Rightarrow> (0, ''=== storage stats ('' @ db_path @ '') ==='' @ eol @ out, db_close w2))))"

text \<open>\<^verbatim>\<open>argv\<close> holds at least the program's name.\<close>

definition cli_main ::
    "(string \<Rightarrow> file_io) \<Rightarrow> c_heap \<Rightarrow> string list \<Rightarrow> 'd env \<Rightarrow> (int \<times> string \<times> 'd env) option" where
  "cli_main fs mem argv w =
     (if length argv < 2 then Some (1, '''', print_err (usage_text (argv ! 0)) w)
      else if argv ! 1 = ''validate-config'' then cmd_validate_config fs mem argv w
      else if argv ! 1 = ''status'' then Some (cmd_status argv w)
      else if argv ! 1 = ''storage-stats'' then Some (cmd_storage_stats argv w)
      else Some (1, '''', print_err (usage_text (argv ! 0)) w))"

subsection \<open>The process\<close>

definition startup_log :: "string \<Rightarrow> gateway_config_t \<Rightarrow> 'd env \<Rightarrow> 'd env" where
  "startup_log config_path cfg w =
     (let (lrc, w1) = logger_init (Some (cfg_log_dir cfg)) w;
          w2 = (if lrc \<noteq> 0 then print_err (''failed to init logger, fallback stderr (dir='' @ cfg_log_dir cfg @ '')'' @ eol) w1
                else w1)
      in log_info (''edgeflow startup: config='' @ config_path @ '' device_id='' @ cfg_device_id cfg) w2)"

definition banner :: "gateway_config_t \<Rightarrow> string" where
  "banner cfg =
     ''EdgeFlow running '' @ [CHR 0xE2, CHR 0x80, CHR 0x94] @ '' Ctrl+C to stop'' @ eol @
     ''  log:      '' @ cfg_log_dir cfg @ ''/edgeflow.log'' @ eol @
     ''  metrics:  '' @ cfg_metrics_path cfg @ eol @
     ''  cache:    '' @ cfg_cache_path cfg @ eol @
     ''  sqlite:   '' @ cfg_sqlite_path cfg @ '' (use_sqlite='' @ show_bool (cfg_use_sqlite cfg) @ '')'' @ eol"

text \<open>
  The part of \<^verbatim>\<open>main\<close> after the configuration is loaded. Once the threads are started, \<open>as\<close> is the order in which
  they, the main thread (its wait for the flag and \<^verbatim>\<open>gateway_app_stop\<close>) and the signal handler take their steps. The result is
  \<open>None\<close> when a step never returns and when the schedule ends before the main thread is through the stop.
\<close>

definition serve ::
    "string \<Rightarrow> gateway_config_t \<Rightarrow> agent list \<Rightarrow> statics \<Rightarrow> 'd env \<Rightarrow> (int \<times> string \<times> 'd env) option" where
  "serve config_path cfg as g w =
     (case gateway_app_init (Some gateway_app_zero) (Some cfg) g (startup_log config_path cfg w) of
        (irc, app, g1, w1) \<Rightarrow>
          if irc \<noteq> 0 then Some (1, '''', logger_shutdown (log_error ''gateway_app_init failed'' w1))
          else
            (case gateway_app_run app g1 w1 of
               (rrc, app1, w2) \<Rightarrow>
                 if rrc \<noteq> 0 then
                   (case gateway_app_destroy app1 g1 (log_error ''gateway_app_run failed'' w2) of
                      (_, _, w3) \<Rightarrow> Some (1, '''', logger_shutdown w3))
                 else
                   Option.bind (gateway_run as (gateway_started (the app1) g1 w2)) (\<lambda>s.
                     if gs_main s \<noteq> P_done then None
                     else (case gateway_app_destroy (Some (gs_app s)) (gs_statics s) (gs_env s) of
                             (_, _, w3) \<Rightarrow> Some (0, banner cfg, logger_shutdown w3)))))"

definition edgeflow_main ::
    "(string \<Rightarrow> file_io) \<Rightarrow> c_heap \<Rightarrow> string list \<Rightarrow> agent list \<Rightarrow> statics \<Rightarrow> 'd env \<Rightarrow>
     (int \<times> string \<times> 'd env) option" where
  "edgeflow_main fs mem argv as g w =
     (let config_path = parse_config_path argv
      in Option.bind (gateway_config_load fs mem (Some config_path) (Some gateway_config_zero)) (\<lambda>(rc, cfg, mem').
           if rc \<noteq> 0 then Some (1, '''', print_err (''failed to load config: '' @ config_path @ eol) w)
           else serve config_path (the cfg) as g w))"

subsection \<open>Status prints the metrics\<close>

lemma fgets_line:
  "CHR 0x0A \<notin> set l \<Longrightarrow> length l + 2 \<le> n \<Longrightarrow> c_fgets n (l @ CHR 0x0A # r) = (l @ [CHR 0x0A], r)"
  by (induction l arbitrary: n) auto

lemma c_str_plain: "nul \<notin> set s \<Longrightarrow> c_str s = s"
  by (rule c_str_id)

lemma status_line:
  assumes "l \<noteq> []" "CHR 0x0A \<notin> set l" "nul \<notin> set l" "length l \<le> 510"
  shows "status_lines (l @ CHR 0x0A # r) = (if hd l = CHR ''#'' then '''' else l @ [CHR 0x0A]) @ status_lines r"
proof -
  have "c_str (l @ [CHR 0x0A]) = l @ [CHR 0x0A]" using assms(3) by (intro c_str_plain) (auto simp: nul_def)
  then show ?thesis
    using fgets_line [OF assms(2), of 512 r] assms(1,4) by (subst status_lines.simps) simp
qed

definition sample_ok :: "string \<times> nat \<Rightarrow> bool" where
  "sample_ok s \<longleftrightarrow> fst s \<noteq> [] \<and> hd (fst s) \<noteq> CHR ''#'' \<and> CHR 0x0A \<notin> set (fst s) \<and> nul \<notin> set (fst s) \<and>
     length (fst s) \<le> 64 \<and> snd s < 10 ^ 20"

lemma status_metric_line:
  assumes "sample_ok s"
  shows "status_lines (metric_line s @ r) = metric_line s @ status_lines r"
proof -
  let ?l = "fst s @ '' '' @ show_nat (snd s)"
  have digits: "CHR 0x0A \<notin> set (show_nat (snd s))"
    using show_nat_digits [of "CHR 0x0A" "snd s"] by (auto simp: is_digit_char_def)
  have "length (show_nat (snd s)) \<le> 20" using assms by (intro length_show_nat) (auto simp: sample_ok_def)
  then have "status_lines (?l @ CHR 0x0A # r) = ?l @ [CHR 0x0A] @ status_lines r"
    using assms digits nul_notin_show_nat [of "snd s"] by (subst status_line) (auto simp: sample_ok_def nul_def)
  then show ?thesis by (simp add: metric_line_def)
qed

lemma status_metric_lines:
  "list_all sample_ok ss \<Longrightarrow> status_lines (concat (map metric_line ss)) = concat (map metric_line ss)"
  by (induction ss) (simp_all add: status_metric_line status_lines.simps [of "[]"])

lemma metric_samples_ok: "list_all sample_ok (metric_samples m)"
proof -
  have "unat (x :: u64) < 10 ^ 20" "unat (y :: u32) < 10 ^ 20" for x y
    using unsigned_less [of x, where ?'a = nat] unsigned_less [of y, where ?'a = nat] by simp_all
  then show ?thesis by (simp add: metric_samples_def sample_ok_def nul_def)
qed

lemma status_metrics_text: "status_lines (metrics_text m) = concat (map metric_line (metric_samples m))"
proof -
  let ?h = "''# HELP edgeflow_ingress_points_total Total ingress telemetry points''"
  have "status_lines (metrics_text m) = status_lines (?h @ CHR 0x0A # concat (map metric_line (metric_samples m)))"
    by (simp add: metrics_text_def metrics_help_def)
  also have "\<dots> = status_lines (concat (map metric_line (metric_samples m)))"
    by (subst status_line) (simp_all add: nul_def)
  finally show ?thesis using status_metric_lines [OF metric_samples_ok] by simp
qed

text \<open>
  C38. Gateway and tool fit together: after the gateway has written its metrics file, the tool's status
  command, if it can open the file, exits with 0 and prints a title and then exactly the eleven samples the
  gateway wrote, in order, each with its full value; the comment line is left out and nothing is cut,
  for every value the counters can have.
\<close>

theorem status_prints_metrics:
  assumes "metrics_write_file (Some path) (Some m) w = (0, w1)" and "env_ret w1 (env_n w1) \<noteq> 0"
  shows "cli_main fs mem [prog, ''status'', ''--metrics'', path] w1 =
    Some (0, ''=== edgeflow status ('' @ path @ '') ==='' @ eol @ concat (map metric_line (metric_samples m)),
      snd (syscall (C_fopen path ''r'') w1))"
proof -
  have "env_files w1 path = metrics_text m"
    using assms(1) by (auto simp: metrics_write_file_def syscall_def frame_simps split: if_splits)
  then show ?thesis
    using assms(2) status_metrics_text [of m] by (simp add: cli_main_def cmd_status_def split_beta frame_simps)
qed

theorem status_prints_metrics_witness:
  "\<exists>w1 out w2. metrics_write_file (Some ''m.prom'') (Some metrics_zero) (demo_env (\<lambda>_. 1)) = (0, w1) \<and>
     cli_main (demo_file '''') demo_heap [''edgeflow-cli'', ''status'', ''--metrics'', ''m.prom''] w1 = Some (0, out, w2)"
proof -
  obtain w1 where w1: "metrics_write_file (Some ''m.prom'') (Some metrics_zero) (demo_env (\<lambda>_. 1)) = (0, w1)" "env_ret w1 = (\<lambda>_. 1)"
    by (simp add: metrics_write_file_def split_beta demo_env_def frame_simps)
  then show ?thesis using status_prints_metrics [OF w1(1), of "demo_file ''''" demo_heap "''edgeflow-cli''"] by simp
qed

subsection \<open>The tool validates what the process will load\<close>

text \<open>How often the option occurs where both programs look for it.\<close>

fun option_count :: "string list \<Rightarrow> nat" where
  "option_count (a # b # rest) = (if is_config_option a then 1 else 0) + option_count (b # rest)"
| "option_count _ = 0"

lemma last_option_none: "option_count args = 0 \<Longrightarrow> last_option_value is_config_option args acc = acc"
  by (induction args arbitrary: acc rule: option_count.induct) (auto split: if_splits)

lemma options_agree:
  "option_count args \<le> 1 \<Longrightarrow> last_option_value is_config_option args None = first_option_value args"
  by (induction args rule: option_count.induct) (auto simp: last_option_none)



subsection \<open>The exit of the process\<close>

lemma calm_print_err: "calm w (print_err m w)"
  by (simp add: tame_def print_err_def)

lemma calm_logger: "calm w (snd (logger_init d w))" "calm w (logger_shutdown w)"
proof -
  have "calm w (snd (syscall (C_fopen p m) (snd (syscall (C_mkdir q) w))))" for p q m
    by (rule tame_trans [OF tame_syscall tame_syscall]) simp_all
  then show "calm w (snd (logger_init d w))"
    by (cases d) (auto simp: logger_init_def Let_def split_beta tame_def)
  show "calm w (logger_shutdown w)" by (simp add: logger_shutdown_def tame_def)
qed

lemma calm_startup: "calm w (startup_log config_path cfg w)"
proof -
  obtain lrc w1 where li: "logger_init (Some (cfg_log_dir cfg)) w = (lrc, w1)" by (metis prod.exhaust)
  then have "calm w w1" using calm_logger(1) by (metis snd_conv)
  then show ?thesis
    using tame_trans [OF tame_trans [OF _ calm_print_err] tame_log(1)] tame_trans [OF _ tame_log(1)] li by (auto simp: startup_log_def Let_def)
qed

lemma log_closed: "env_log_fp (logger_shutdown u) = None"
  by (simp add: logger_shutdown_def)

text \<open>Whether the start succeeds, and the threads' first state then.\<close>

definition boots :: "string \<Rightarrow> gateway_config_t \<Rightarrow> statics \<Rightarrow> 'd env \<Rightarrow> ('d gateway_app_t \<times> statics \<times> 'd env) option" where
  "boots config_path cfg g w =
     (case gateway_app_init (Some gateway_app_zero) (Some cfg) g (startup_log config_path cfg w) of
        (irc, app, g1, w1) \<Rightarrow>
          (case gateway_app_run app g1 w1 of
             (rrc, app1, w2) \<Rightarrow> if irc = 0 \<and> rrc = 0 then Some (the app1, g1, w2) else None))"

lemma bootsE:
  assumes "boots config_path cfg g w = Some (app, g1, w2)"
  obtains app0 w1 where "gateway_app_init (Some gateway_app_zero) (Some cfg) g (startup_log config_path cfg w) = (0, Some app0, g1, w1)"
    "gateway_app_run (Some app0) g1 w1 = (0, Some app, w2)"
proof -
  obtain x w1 y where i: "gateway_app_init (Some gateway_app_zero) (Some cfg) g (startup_log config_path cfg w) = (0, x, g1, w1)"
    and r: "gateway_app_run x g1 w1 = (0, y, w2)" "app = the y"
    using assms by (auto simp: boots_def split: prod.splits if_splits)
  obtain app0 where "x = Some app0" using i by (auto simp: gateway_app_init_def Let_def split: option.splits prod.splits if_splits)
  moreover from this obtain a1 where "y = Some a1" using r(1) by (auto simp: gateway_app_run_def Let_def split: prod.splits if_splits)
  ultimately show thesis using that i r by simp
qed

lemma serve_refused: "boots config_path cfg g w = None \<Longrightarrow> \<exists>u. serve config_path cfg as g w = Some (1, '''', logger_shutdown u)"
  by (auto simp: serve_def boots_def split: prod.splits if_splits)

lemma serve_booted:
  assumes "boots config_path cfg g w = Some (app, g1, w2)"
  shows "serve config_path cfg as g w = Option.bind (gateway_run as (gateway_started app g1 w2)) (\<lambda>s.
    if gs_main s \<noteq> P_done then None
    else Some (0, banner cfg, logger_shutdown (snd (snd (gateway_app_destroy (Some (gs_app s)) (gs_statics s) (gs_env s))))))"
proof -
  obtain app0 w1 where "gateway_app_init (Some gateway_app_zero) (Some cfg) g (startup_log config_path cfg w) = (0, Some app0, g1, w1)"
    "gateway_app_run (Some app0) g1 w1 = (0, Some app, w2)" using assms by (rule bootsE)
  then show ?thesis by (cases "gateway_run as (gateway_started app g1 w2)") (simp_all add: serve_def split_beta)
qed


definition demo_machine :: "mem_db env" where
  "demo_machine = demo_storage_env\<lparr>env_ret := (\<lambda>k. if k < 5 then 1 else if k < 10 then 0 else if even k then 0 else 1)\<rparr>"

lemma demo_machine_ready: "host_ready (startup_log path gateway_config_defaults demo_machine)"
  "env_ret (startup_log path gateway_config_defaults demo_machine) = env_ret demo_machine"
proof -
  let ?c = gateway_config_defaults
  have dir: "cfg_log_dir ?c \<noteq> []" by (simp add: gateway_config_defaults_def copy_string_def snprintf_def c_str_def nul_def)
  obtain w1 where li: "logger_init (Some (cfg_log_dir ?c)) demo_machine = (0, w1)"
    "env_n w1 = 2" "env_ret w1 = env_ret demo_machine" "env_getenv w1 = (\<lambda>_. None)" "env_sqlite w1 = mem_api"
    using dir by (simp add: logger_init_def Let_def split_beta frame_simps demo_machine_def demo_storage_env_def)
  then have s: "startup_log path ?c demo_machine = log_info (''edgeflow startup: config='' @ path @ '' device_id='' @ cfg_device_id ?c) w1"
    by (simp add: startup_log_def)
  have "\<exists>k\<ge>m. env_ret demo_machine k = 0" for m by (rule exI [of _ "2 * m + 10"]) (simp add: demo_machine_def)
  then show "host_ready (startup_log path ?c demo_machine)"
    using li unfolding s by (simp add: host_ready_def frame_simps) (simp add: demo_machine_def)
  show "env_ret (startup_log path ?c demo_machine) = env_ret demo_machine" unfolding s using li by (simp add: frame_simps)
qed

lemma demo_machine_fair: "env_ret w = env_ret demo_machine \<Longrightarrow> fair w"
proof -
  have z: "\<exists>k\<ge>m. env_ret demo_machine k = 0" for m by (rule exI [of _ "2 * m + 10"]) (simp add: demo_machine_def)
  have p: "\<exists>k\<ge>m. 0 < env_ret demo_machine k" for m by (rule exI [of _ "2 * m + 11"]) (simp add: demo_machine_def)
  show "env_ret w = env_ret demo_machine \<Longrightarrow> fair w" unfolding fair_def using z p by metis
qed

lemma demo_machine_boots:
  "\<exists>app g1 w2. boots path gateway_config_defaults demo_statics demo_machine = Some (app, g1, w2) \<and> fair w2"
proof -
  obtain app0 g1 w1 app w2 where "gateway_app_init (Some gateway_app_zero) (Some gateway_config_defaults) demo_statics
      (startup_log path gateway_config_defaults demo_machine) = (0, Some app0, g1, w1)"
    "gateway_app_run (Some app0) g1 w1 = (0, Some app, w2)" "env_ret w2 = env_ret (startup_log path gateway_config_defaults demo_machine)"
    using start_ready [OF demo_machine_ready(1)] by blast
  then show ?thesis using demo_machine_fair [of w2] demo_machine_ready(2) by (auto simp: boots_def)
qed


end
