(* ===== verification/Gateway_Flow.thy ===== *)
theory Gateway_Flow
  imports Gateway_Safety
begin

text \<open>
  What the gateway promises about a telemetry point, as an abstract machine, and that every schedule of
  \<open>Gateway_Steps\<close> refines it.

  The machine has a bounded queue, one point in the worker's hand, the telemetry table and the set of
  packets that went out whole on a connection to the broker. A point is refused only by a full queue; it
  is taken in order; it becomes a row with a new key or is lost when the store fails; and a row may be
  marked as uploaded only when a packet that carries it is out. Order and at-least-once delivery are
  proved of the abstract machine, and hold of the program by refinement.
\<close>

subsection \<open>The abstract machine\<close>

definition unmarked :: "tel_row \<Rightarrow> tel_row" where
  "unmarked r = r\<lparr>tr_uploaded := False\<rparr>"

definition point_packet :: "gateway_config_t \<Rightarrow> telemetry_t \<Rightarrow> bytes" where
  "point_packet cfg p = packet_bytes (PUBLISH (cfg_mqtt_topic cfg) (telemetry_to_json p 384))"

text \<open>The packets that carry a row: that of a point the row stores, and that of the point a fetch makes of it.\<close>

definition carries :: "gateway_config_t \<Rightarrow> tel_row \<Rightarrow> bytes \<Rightarrow> bool" where
  "carries cfg r b \<longleftrightarrow> (\<exists>p. b = point_packet cfg p \<and> (stored_row (tr_id r) p = unmarked r \<or> p = sr_point (restored r)))"

record flow =
  fl_queue :: "telemetry_t list"
  fl_dropped :: u32
  fl_hand :: "telemetry_t option"
  fl_rows :: "tel_row list"
  fl_sent :: "bytes set"
  fl_accepted :: "telemetry_t list"

inductive flow_step :: "gateway_config_t \<Rightarrow> nat \<Rightarrow> flow \<Rightarrow> flow \<Rightarrow> bool" for cfg cap where
  accept: "length (fl_queue f) < cap \<Longrightarrow>
     flow_step cfg cap f (f\<lparr>fl_queue := fl_queue f @ [p], fl_accepted := fl_accepted f @ [p]\<rparr>)"
| refuse: "length (fl_queue f) = cap \<Longrightarrow> flow_step cfg cap f (f\<lparr>fl_dropped := fl_dropped f + 1\<rparr>)"
| taken: "fl_hand f = None \<Longrightarrow> fl_queue f = p # q \<Longrightarrow> flow_step cfg cap f (f\<lparr>fl_queue := q, fl_hand := Some p\<rparr>)"
| store: "fl_hand f = Some p \<Longrightarrow> 0 < k \<Longrightarrow> \<forall>r \<in> set (fl_rows f). tr_id r < k \<Longrightarrow>
     flow_step cfg cap f (f\<lparr>fl_hand := None, fl_rows := fl_rows f @ [stored_row k (apply_quality_rules cfg p)]\<rparr>)"
| lose: "fl_hand f = Some p \<Longrightarrow> flow_step cfg cap f (f\<lparr>fl_hand := None\<rparr>)"
| send: "fl_sent f \<subseteq> S \<Longrightarrow> flow_step cfg cap f (f\<lparr>fl_sent := S\<rparr>)"
| mark: "\<forall>r \<in> set (fl_rows f). tr_id r \<in> M \<longrightarrow> (\<exists>b \<in> fl_sent f. carries cfg r b) \<Longrightarrow>
     flow_step cfg cap f (f\<lparr>fl_rows := mark_rows M (fl_rows f)\<rparr>)"

inductive_cases flow_stepE: "flow_step cfg cap f g"

abbreviation flows :: "gateway_config_t \<Rightarrow> nat \<Rightarrow> flow \<Rightarrow> flow \<Rightarrow> bool" where
  "flows cfg cap \<equiv> (flow_step cfg cap)\<^sup>*\<^sup>*"

definition hand :: "flow \<Rightarrow> telemetry_t list" where
  "hand f = (case fl_hand f of None \<Rightarrow> [] | Some p \<Rightarrow> [p])"

subsection \<open>What the abstract machine keeps\<close>

lemma unmarked_simps [simp]:
  "unmarked (unmarked r) = unmarked r" "tr_id (unmarked r) = tr_id r" "unmarked (stored_row k p) = stored_row k p"
  "unmarked (r\<lparr>tr_uploaded := b\<rparr>) = unmarked r" "restored (unmarked r) = restored r"
  by (simp_all add: unmarked_def stored_row_def restored_def)

lemma map_unmarked_mark [simp]: "map unmarked (mark_rows M rs) = map unmarked rs"
  by (simp add: mark_rows_def)

lemma carries_unmarked: "carries cfg (unmarked r) = carries cfg r"
  by (simp add: carries_def fun_eq_iff)

locale flow_invariant =
  fixes J :: "flow \<Rightarrow> bool" and cfg :: gateway_config_t and cap :: nat
  assumes flow: "J f \<Longrightarrow> flow_step cfg cap f g \<Longrightarrow> J g"
begin

lemma flows: "flows cfg cap f g \<Longrightarrow> J f \<Longrightarrow> J g"
  by (induction rule: rtranclp_induct) (auto intro: flow)

end

text \<open>The bound of the queue.\<close>

interpretation bounded: flow_invariant "\<lambda>f. length (fl_queue f) \<le> cap" cfg cap
  by unfold_locales (auto elim!: flow_stepE)

text \<open>
  Order: the points accepted are those done with, the one in hand and those in the queue, in that order; the
  table is the old one, up to marks, followed by a row for each of some of the points done with, in order.
\<close>

definition in_order :: "gateway_config_t \<Rightarrow> tel_row list \<Rightarrow> flow \<Rightarrow> bool" where
  "in_order cfg base f \<longleftrightarrow> (\<exists>gone kept. fl_accepted f = gone @ hand f @ fl_queue f \<and> subseq (map snd kept) gone \<and>
     map unmarked (fl_rows f) = map unmarked base @ map (\<lambda>(k, p). stored_row k (apply_quality_rules cfg p)) kept)"

lemma in_order_step:
  assumes "in_order cfg base f" "flow_step cfg cap f g"
  shows "in_order cfg base g"
proof -
  obtain gone kept where o: "fl_accepted f = gone @ hand f @ fl_queue f" "subseq (map snd kept) gone"
    "map unmarked (fl_rows f) = map unmarked base @ map (\<lambda>(k, p). stored_row k (apply_quality_rules cfg p)) kept"
    using assms(1) by (auto simp: in_order_def)
  from assms(2) show ?thesis
  proof cases
    case (store p k)
    have "fl_accepted g = (gone @ [p]) @ hand g @ fl_queue g" using o(1) store by (simp add: hand_def)
    moreover have "subseq (map snd (kept @ [(k, p)])) (gone @ [p])" using o(2) by (simp add: list_emb_append_mono)
    moreover have "map unmarked (fl_rows g) =
        map unmarked base @ map (\<lambda>(k, p). stored_row k (apply_quality_rules cfg p)) (kept @ [(k, p)])" using o(3) store by simp
    ultimately show ?thesis unfolding in_order_def by blast
  next
    case (lose p)
    have "fl_accepted g = (gone @ [p]) @ hand g @ fl_queue g" using o(1) lose by (simp add: hand_def)
    moreover have "subseq (map snd kept) (gone @ [p])" using o(2) by (rule list_emb_prefix)
    moreover have "fl_rows g = fl_rows f" using lose by simp
    ultimately show ?thesis unfolding in_order_def using o(3) by metis
  qed (use o in \<open>auto simp: in_order_def hand_def\<close>)
qed

interpretation ordered: flow_invariant "in_order cfg base" cfg cap
  by unfold_locales (rule in_order_step)

text \<open>At least once: a row that is marked was marked before, or a packet that carries it is out.\<close>

definition delivered :: "gateway_config_t \<Rightarrow> tel_row list \<Rightarrow> flow \<Rightarrow> bool" where
  "delivered cfg base f \<longleftrightarrow> (\<forall>r \<in> set (fl_rows f). tr_uploaded r \<longrightarrow> r \<in> set base \<or> (\<exists>b \<in> fl_sent f. carries cfg r b))"

lemma delivered_step:
  assumes "delivered cfg base f" "flow_step cfg cap f g"
  shows "delivered cfg base g"
  using assms(2)
proof cases
  case (send S)
  then show ?thesis using assms(1) by (auto simp: delivered_def)
next
  case (mark M)
  show ?thesis unfolding delivered_def
  proof (intro ballI impI)
    fix r assume "r \<in> set (fl_rows g)" and up: "tr_uploaded r"
    then obtain r0 where r0: "r0 \<in> set (fl_rows f)" "r = (if tr_id r0 \<in> M then r0\<lparr>tr_uploaded := True\<rparr> else r0)"
      using mark by (auto simp: mark_rows_def)
    then have u: "unmarked r = unmarked r0" by simp
    show "r \<in> set base \<or> (\<exists>b \<in> fl_sent g. carries cfg r b)"
    proof (cases "tr_id r0 \<in> M")
      case True
      then obtain b where "b \<in> fl_sent f" "carries cfg r0 b" using mark r0(1) by blast
      then show ?thesis using mark u carries_unmarked by (metis flow.select_convs(5) flow.surjective flow.update_convs(4))
    next
      case False
      then show ?thesis using assms(1) r0 up mark by (auto simp: delivered_def)
    qed
  qed
qed (use assms(1) in \<open>auto simp: delivered_def stored_row_def\<close>)

interpretation delivery: flow_invariant "delivered cfg base" cfg cap
  by unfold_locales (rule delivered_step)

subsection \<open>Packets on the wire\<close>

text \<open>
  What went out whole to the broker: the bytes of a run of consecutive writes on a descriptor that had been
  connected to the broker's address.
\<close>

definition packets_out :: "string \<Rightarrow> (call \<times> int) list \<Rightarrow> bytes set" where
  "packets_out host calls = {b. \<exists>pre fd cs post. calls = pre @ cs @ post \<and> (C_connect fd host, 0) \<in> set pre \<and>
     writes_on fd cs \<and> sent_on fd cs = b}"

lemma packets_out_mono: "packets_out host cs \<subseteq> packets_out host (cs @ ds)"
proof
  fix b assume "b \<in> packets_out host cs"
  then obtain pre fd xs post where "cs = pre @ xs @ post" "(C_connect fd host, 0) \<in> set pre" "writes_on fd xs" "sent_on fd xs = b"
    by (auto simp: packets_out_def)
  then show "b \<in> packets_out host (cs @ ds)" unfolding packets_out_def
    by (intro CollectI exI [of _ pre] exI [of _ fd] exI [of _ xs] exI [of _ "post @ ds"]) simp
qed

lemma grown_packets: "grown w w' \<Longrightarrow> packets_out host (env_calls w) \<subseteq> packets_out host (env_calls w')"
  using packets_out_mono by (fastforce simp: grown_def)

lemma packets_out_write:
  "(C_connect fd host, 0) \<in> set pre \<Longrightarrow> writes_on fd cs \<Longrightarrow> sent_on fd cs \<in> packets_out host (pre @ cs)"
  unfolding packets_out_def by blast

definition linked :: "mqtt_session_t \<Rightarrow> 'd env \<Rightarrow> bool" where
  "linked s w \<longleftrightarrow> (usable s \<longrightarrow> (C_connect (ms_fd s) (cfg_broker_host (ms_cfg s)), 0) \<in> set (env_calls w))"

lemma linked_grown: "linked s w \<Longrightarrow> grown w w' \<Longrightarrow> linked s w'"
  by (auto simp: linked_def grown_def)

lemma linked_down: "\<not> usable s \<Longrightarrow> linked s w"
  by (simp add: linked_def)

lemma open_tcp_connects:
  "mqtt_open_tcp cfg w = (f, w') \<Longrightarrow> 0 \<le> f \<Longrightarrow> (C_connect f (cfg_broker_host cfg), 0) \<in> set (env_calls w')"
  by (auto simp: mqtt_open_tcp_def syscall_def split: if_splits)

lemma ensure_links:
  assumes "mqtt_ensure_connected_locked s w = Some (rc, s', w')" "linked s w"
  shows "linked s' w'"
proof (cases rule: ensure_cases [OF assms(1)])
  case 1
  then show ?thesis using assms(2) by simp
next
  case (4 s1 w1 f w2)
  have "(C_connect f (cfg_broker_host (ms_cfg s)), 0) \<in> set (env_calls w')"
    using open_tcp_connects [OF 4(3,4)] calls_only_frame(7) [OF send_connect_calls_only [OF 4(5)]] by auto
  then show ?thesis using 4(7) ensure_usable(2) [OF assms(1)] by (auto simp: linked_def)
qed (use ensure_usable(1) [OF assms(1)] in \<open>auto simp: linked_down\<close>)

interpretation linking: session_discipline "\<lambda>s w s' w'. linked s w \<longrightarrow> linked s' w'"
proof
  fix s s1 s2 :: mqtt_session_t and w w1 w2 :: "'d env" and rc d p bs
  show "linked s w \<longrightarrow> linked s1 w1" if "mqtt_shutdown_locked s w = (s1, w1)"
    using shutdown_result [OF that] linked_down by blast
  show "linked s w \<longrightarrow> linked s1 w1" if "mqtt_ensure_connected_locked s w = Some (rc, s1, w1)"
    using ensure_links [OF that] by blast
  show "linked s w \<longrightarrow> linked s w1" if "mqtt_write_all (ms_fd s) (packet_bytes p) w = Some (0, w1)"
    using linked_grown calls_grown [OF write_all_calls_only [OF that]] by blast
  show "linked s w \<longrightarrow> linked s1 w2" if "mqtt_shutdown_locked s w1 = (s1, w2)"
    using shutdown_result [OF that] linked_down by blast
  show "linked s w \<longrightarrow> linked s (w\<lparr>env_db := d\<rparr>)" by (simp add: linked_def)
qed auto

lemma send_publish_out:
  assumes "mqtt_send_publish (ms_fd s) topic payload w = Some (0, w')" "linked s w" "usable s"
  shows "packet_bytes (PUBLISH topic payload) \<in> packets_out (cfg_broker_host (ms_cfg s)) (env_calls w')"
proof -
  obtain cs where "called w cs w'" "writes_on (ms_fd s) cs" "sent_on (ms_fd s) cs = packet_bytes (PUBLISH topic payload)"
    using send_publish_effect [OF assms(1)] by auto
  then show ?thesis using packets_out_write assms(2,3) by (fastforce simp: linked_def called_def)
qed

lemma publish_out:
  assumes "publish_locked s topic payload w = Some (0, s', w')" "linked s w"
  shows "packet_bytes (PUBLISH topic payload) \<in> packets_out (cfg_broker_host (ms_cfg s)) (env_calls w')"
proof -
  obtain rc s1 w1 where e: "mqtt_ensure_connected_locked s w = Some (rc, s1, w1)"
    using assms(1) by (auto simp: publish_locked_def bind_eq_Some_conv)
  have rc: "rc = 0" using assms(1) e by (auto simp: publish_locked_def split: if_splits)
  then have "mqtt_send_publish (ms_fd s1) topic payload w1 = Some (0, w')"
    using assms(1) e by (auto simp: publish_locked_def bind_eq_Some_conv split: if_splits prod.splits)
  then show ?thesis
    using send_publish_out [of s1 topic payload w1 w'] ensure_links [OF e assms(2)] ensure_usable [OF e] rc by simp
qed

text \<open>A replay marks only rows whose packets it has written.\<close>

lemma replay_rows_marks:
  assumes "replay_rows (Some ctx) rs k m s w = Some (k', m', s', w')" "sqlite_laws (env_sqlite w) rows" "linked s w" "usable s"
  shows "\<exists>M. rows (env_db w') = mark_rows M (rows (env_db w)) \<and>
    (\<forall>i \<in> M. \<exists>sr \<in> set rs. sr_row_id sr = i \<and> row_packet (ms_cfg s) sr \<in> packets_out (cfg_broker_host (ms_cfg s)) (env_calls w'))"
  using assms
proof (induction rs arbitrary: k m w)
  case Nil
  then show ?case by (intro exI [of _ "{}"]) simp
next
  case (Cons r rs)
  let ?out = "\<lambda>w. packets_out (cfg_broker_host (ms_cfg s)) (env_calls w)"
  obtain rc w1 where p: "mqtt_send_publish (ms_fd s) (cfg_mqtt_topic (ms_cfg s)) (telemetry_to_json (sr_point r) 384) w = Some (rc, w1)"
    using Cons.prems(1) by (auto simp: bind_eq_Some_conv)
  note f = calls_only_frame [OF send_publish_calls_only [OF p]]
  show ?case
  proof (cases "rc = 0")
    case False
    obtain s3 w3 where sh: "mqtt_shutdown_locked s w1 = (s3, w3)" by (metis prod.exhaust)
    then have "env_db w' = env_db w" using Cons.prems(1) p False shutdown_frame(1) [OF sh] f(1) by auto
    then show ?thesis by (intro exI [of _ "{}"]) simp
  next
    case True
    have out: "row_packet (ms_cfg s) r \<in> ?out w1"
      using send_publish_out [of s] p True Cons.prems(3,4) by (simp add: row_packet_def)
    obtain mrc w2 where mk: "storage_mark_telemetry_uploaded (Some ctx) (sr_row_id r) w1 = (mrc, w2)" by (metis prod.exhaust)
    have laws1: "sqlite_laws (env_sqlite w1) rows" using f(2) Cons.prems(2) by simp
    obtain d where d: "w2 = w1\<lparr>env_db := d\<rparr>" "rows d = (if mrc = 0 then mark_rows {sr_row_id r} (rows (env_db w)) else rows (env_db w))"
      using mark_uploaded_rows [OF laws1 mk] f(1) by auto
    have l2: "linked s w2" using linked_grown [OF Cons.prems(3) calls_grown [OF send_publish_calls_only [OF p]]] d(1) by (simp add: linked_def)
    obtain k1 m1 where rest: "replay_rows (Some ctx) rs k1 m1 s w2 = Some (k', m', s', w')"
      using Cons.prems(1) p True mk by (auto split: if_splits)
    obtain M where M: "rows (env_db w') = mark_rows M (rows (env_db w2))" "\<forall>i \<in> M. \<exists>sr \<in> set rs. sr_row_id sr = i \<and> row_packet (ms_cfg s) sr \<in> ?out w'"
      using Cons.IH [OF rest _ l2 Cons.prems(4)] laws1 d(1) by auto
    have "grown w2 w'" using keeps.R_replay_rows [OF rest Cons.prems(4)] by blast
    then have "row_packet (ms_cfg s) r \<in> ?out w'" using out grown_packets d(1) by fastforce
    then show ?thesis using M d by (intro exI [of _ "if mrc = 0 then insert (sr_row_id r) M else M"]) auto
  qed
qed

subsection \<open>The program as a flow\<close>

definition flow_of :: "('d \<Rightarrow> tel_row list) \<Rightarrow> 'd gateway_sys \<Rightarrow> flow" where
  "flow_of rows s = \<lparr>fl_queue = ring_items (app_ring (gs_app s)), fl_dropped = rg_dropped (app_ring (gs_app s)),
     fl_hand = (case gs_worker s of W_popped p \<Rightarrow> Some p | _ \<Rightarrow> None), fl_rows = rows (env_db (gs_env s)),
     fl_sent = packets_out (cfg_broker_host (app_cfg (gs_app s))) (env_calls (gs_env s)), fl_accepted = gs_accepted s\<rparr>"

text \<open>What a worker or a monitor on its way knows of the table and the wire.\<close>

fun worker_tracks :: "gateway_config_t \<Rightarrow> tel_row list \<Rightarrow> bytes set \<Rightarrow> worker_pc \<Rightarrow> bool" where
  "worker_tracks c R S (W_stored q k) \<longleftrightarrow> (0 < k \<longrightarrow> stored_row k q \<in> unmarked ` set R)"
| "worker_tracks c R S (W_counted q k) \<longleftrightarrow> (0 < k \<longrightarrow> stored_row k q \<in> unmarked ` set R)"
| "worker_tracks c R S (W_decided q k) \<longleftrightarrow> (0 < k \<longrightarrow> stored_row k q \<in> unmarked ` set R)"
| "worker_tracks c R S (W_sent q k) \<longleftrightarrow> (0 < k \<longrightarrow> stored_row k q \<in> unmarked ` set R) \<and> point_packet c q \<in> S"
| "worker_tracks c R S (W_mark q k) \<longleftrightarrow> (0 < k \<longrightarrow> stored_row k q \<in> unmarked ` set R) \<and> point_packet c q \<in> S"
| "worker_tracks c R S _ \<longleftrightarrow> True"

fun monitor_tracks :: "tel_row list \<Rightarrow> monitor_pc \<Rightarrow> bool" where
  "monitor_tracks R (M_send rs) \<longleftrightarrow> set rs \<subseteq> restored ` unmarked ` set R"
| "monitor_tracks R _ \<longleftrightarrow> True"

lemma worker_tracks_mono:
  "worker_tracks c R S pc \<Longrightarrow> unmarked ` set R \<subseteq> unmarked ` set R' \<Longrightarrow> S \<subseteq> S' \<Longrightarrow> worker_tracks c R' S' pc"
  by (cases "(c, R, S, pc)" rule: worker_tracks.cases) auto

lemma monitor_tracks_mono: "monitor_tracks R pc \<Longrightarrow> unmarked ` set R \<subseteq> unmarked ` set R' \<Longrightarrow> monitor_tracks R' pc"
  by (cases pc) (simp_all, meson image_mono subset_trans)

lemma unmarked_mark_set: "unmarked ` set (mark_rows M R) = unmarked ` set R"
  by (metis image_set map_unmarked_mark)

definition tracked :: "('d \<Rightarrow> tel_row list) \<Rightarrow> gateway_config_t \<Rightarrow> nat \<Rightarrow> 'd gateway_sys \<Rightarrow> bool" where
  "tracked rows c cap s \<longleftrightarrow> sqlite_laws (env_sqlite (gs_env s)) rows \<and> cfg_use_sqlite c \<and>
     fixed_members s = (c, \<lparr>reg_slots = [modbus_slot c]\<rparr>, Some \<lparr>st_cfg = c, st_db = True\<rparr>) \<and> ms_cfg (app_mqtt (gs_app s)) = c \<and>
     ring_wf (app_ring (gs_app s)) \<and> ring_cap (app_ring (gs_app s)) = cap \<and> linked (app_mqtt (gs_app s)) (gs_env s) \<and>
     worker_tracks c (rows (env_db (gs_env s))) (packets_out (cfg_broker_host c) (env_calls (gs_env s))) (gs_worker s) \<and>
     monitor_tracks (rows (env_db (gs_env s))) (gs_monitor s)"

lemma trackedD:
  assumes "tracked rows c cap s"
  shows "sqlite_laws (env_sqlite (gs_env s)) rows" "app_cfg (gs_app s) = c" "app_registry (gs_app s) = \<lparr>reg_slots = [modbus_slot c]\<rparr>"
    "app_storage (gs_app s) = Some \<lparr>st_cfg = c, st_db = True\<rparr>" "sqlite_on \<lparr>st_cfg = c, st_db = True\<rparr>"
    "ms_cfg (app_mqtt (gs_app s)) = c" "ring_wf (app_ring (gs_app s))" "linked (app_mqtt (gs_app s)) (gs_env s)"
    "worker_tracks c (rows (env_db (gs_env s))) (packets_out (cfg_broker_host c) (env_calls (gs_env s))) (gs_worker s)"
    "monitor_tracks (rows (env_db (gs_env s))) (gs_monitor s)" "ring_cap (app_ring (gs_app s)) = cap"
  using assms by (auto simp: tracked_def fixed_members_def sqlite_on_def)

lemma tame_rows: "sqlite_laws (env_sqlite w) rows \<Longrightarrow> tame rows w w' \<Longrightarrow> rows (env_db w') = rows (env_db w)"
  using quiet_sql_laws by (auto simp: tame_def)

text \<open>A step that leaves ring, hand and table alone: on the wire more may have gone out.\<close>

lemma flow_quiet:
  assumes "fixed_members s' = fixed_members s" "app_ring (gs_app s') = app_ring (gs_app s)" "gs_accepted s' = gs_accepted s"
    "fl_hand (flow_of rows s') = fl_hand (flow_of rows s)" "rows (env_db (gs_env s')) = rows (env_db (gs_env s))" "grown (gs_env s) (gs_env s')"
  shows "flows c cap (flow_of rows s) (flow_of rows s')"
proof -
  have "flow_of rows s' = (flow_of rows s)\<lparr>fl_sent := fl_sent (flow_of rows s')\<rparr>"
    using assms by (simp add: flow_of_def fixed_members_def)
  moreover have "fl_sent (flow_of rows s) \<subseteq> fl_sent (flow_of rows s')"
    using assms(1) grown_packets [OF assms(6)] by (auto simp: flow_of_def fixed_members_def)
  ultimately show ?thesis by (metis flow_step.send r_into_rtranclp)
qed

text \<open>What a step has to show to keep the invariant.\<close>

lemma tracked_step:
  assumes t: "tracked rows c cap s" and st: "gateway_step a s = Some s'"
    and ring: "ring_wf (app_ring (gs_app s')) \<and> ring_cap (app_ring (gs_app s')) = cap"
    and link: "linked (app_mqtt (gs_app s')) (gs_env s')"
    and more: "unmarked ` set (rows (env_db (gs_env s))) \<subseteq> unmarked ` set (rows (env_db (gs_env s')))"
    and w: "gs_worker s' = gs_worker s \<or> worker_tracks c (rows (env_db (gs_env s')))
        (packets_out (cfg_broker_host c) (env_calls (gs_env s'))) (gs_worker s')"
    and m: "gs_monitor s' = gs_monitor s \<or> monitor_tracks (rows (env_db (gs_env s'))) (gs_monitor s')"
  shows "tracked rows c cap s'"
proof -
  note d = trackedD [OF t]
  note g = step_grown [OF st d(3)]
  have "packets_out (cfg_broker_host c) (env_calls (gs_env s)) \<subseteq> packets_out (cfg_broker_host c) (env_calls (gs_env s'))"
    using g grown_packets by blast
  then have "worker_tracks c (rows (env_db (gs_env s'))) (packets_out (cfg_broker_host c) (env_calls (gs_env s'))) (gs_worker s')"
    using w worker_tracks_mono [OF d(9) more] by auto
  moreover have "monitor_tracks (rows (env_db (gs_env s'))) (gs_monitor s')" using m monitor_tracks_mono [OF d(10) more] by auto
  ultimately show ?thesis
    using t ring link g step_fixed [OF st] by (auto simp: tracked_def grown_def)
qed

lemma ingress_flow:
  assumes t: "tracked rows c cap s" and st: "ingress_step s = Some s'"
  shows "tracked rows c cap s' \<and> flows c cap (flow_of rows s) (flow_of rows s')"
proof -
  note d = trackedD [OF t] and f = ingress_step_frame [OF st]
  note tm = ingress_step_grown [OF st d(3), of rows]
  have r: "rows (env_db (gs_env s')) = rows (env_db (gs_env s))" by (rule tame_rows [OF d(1) tm])
  have l: "linked (app_mqtt (gs_app s')) (gs_env s')" using linked_grown [OF d(8) tame_grown [OF tm]] f(7) by simp
  have same: "app_ring (gs_app s') = app_ring (gs_app s) \<Longrightarrow> gs_accepted s' = gs_accepted s \<Longrightarrow> flows c cap (flow_of rows s) (flow_of rows s')"
    using f(1,4) r tame_grown [OF tm] by (intro flow_quiet) (simp_all add: flow_of_def)
  have "(ring_wf (app_ring (gs_app s')) \<and> ring_cap (app_ring (gs_app s')) = cap) \<and> flows c cap (flow_of rows s) (flow_of rows s')"
    using st
  proof (cases rule: ingress_step_cases)
    case (accept p ps q)
    have "length (ring_items (app_ring (gs_app s))) < cap" "rg_dropped q = rg_dropped (app_ring (gs_app s))"
      using accept(2) ring_push_eq [OF d(7), of p] ring.items_le_cap [OF d(7)] d(11) by (auto split: if_splits)
    then have "flow_step c cap (flow_of rows s) (flow_of rows s')"
      using accept(3) ring_push_step [OF d(7) accept(2)] flow_step.accept [of "flow_of rows s" cap c p] by (simp add: flow_of_def)
    then show ?thesis using accept(3) ring_push_step [OF d(7) accept(2)] d(11) by simp
  next
    case (refuse p ps q)
    have "length (ring_items (app_ring (gs_app s))) = cap" "q = (app_ring (gs_app s))\<lparr>rg_dropped := rg_dropped (app_ring (gs_app s)) + 1\<rparr>"
      using refuse(2) ring_push_eq [OF d(7), of p] d(11) by (auto split: if_splits)
    then have "flow_step c cap (flow_of rows s) (flow_of rows s')"
      using refuse(3) ring_push_step [OF d(7) refuse(2)] flow_step.refuse [of "flow_of rows s" cap c] by (simp add: flow_of_def)
    then show ?thesis using refuse(3) ring_push_step [OF d(7) refuse(2)] d(11) by simp
  qed (use same d(7,11) in \<open>simp_all add: gauges_only_def\<close>)
  then show ?thesis using tracked_step [OF t, of A_ingress s'] st l r f(4,5) by simp
qed

lemma worker_append_rows:
  assumes "worker_append q app w = (k, w1)" "app_storage app = Some ctx" "sqlite_on ctx" "sqlite_laws (env_sqlite w) rows"
  shows "0 < k \<and> (\<forall>r \<in> set (rows (env_db w)). tr_id r < k) \<and> rows (env_db w1) = rows (env_db w) @ [stored_row k q] \<or>
    k = 0 \<and> rows (env_db w1) = rows (env_db w)"
proof -
  obtain rc i w2 where a: "storage_append_telemetry (Some ctx) (Some q) (Some 0) w = (rc, i, w2)" by (metis prod_cases3)
  have "k = the i" "env_db w1 = env_db w2" using assms(1,2) a by (auto simp: worker_append_def frame_simps split: if_splits)
  then show ?thesis using append_telemetry_rows [OF assms(4,3) a] by (auto split: if_splits)
qed

lemma unique_key:
  assumes "sqlite_laws api rows" "r \<in> set (rows d)" "r' \<in> set (rows d)" "tr_id r = tr_id r'"
  shows "r = r'"
proof -
  have "distinct (map tr_id (rows d))" using sqlite_lawsD(2) [OF assms(1)] by (simp add: law_keys_def strict_sorted_iff)
  then show ?thesis using assms(2-4) by (auto simp: distinct_map dest: inj_onD)
qed

lemma mark_flow:
  assumes laws: "sqlite_laws (env_sqlite (gs_env s)) rows" and fm: "fixed_members s' = fixed_members s"
    and same: "app_ring (gs_app s') = app_ring (gs_app s)" "gs_accepted s' = gs_accepted s"
    "fl_hand (flow_of rows s') = fl_hand (flow_of rows s)" and g: "grown (gs_env s) (gs_env s')"
    and M: "rows (env_db (gs_env s')) = mark_rows M (rows (env_db (gs_env s)))"
    and known: "\<And>i. i \<in> M \<Longrightarrow> \<exists>r \<in> set (rows (env_db (gs_env s))). tr_id r = i \<and> (\<exists>b \<in> fl_sent (flow_of rows s'). carries c r b)"
  shows "flows c cap (flow_of rows s) (flow_of rows s')"
proof -
  let ?f = "(flow_of rows s)\<lparr>fl_sent := fl_sent (flow_of rows s')\<rparr>"
  have "fl_sent (flow_of rows s) \<subseteq> fl_sent (flow_of rows s')"
    using fm grown_packets [OF g] by (auto simp: flow_of_def fixed_members_def)
  then have 1: "flow_step c cap (flow_of rows s) ?f" by (rule flow_step.send)
  have "\<forall>r \<in> set (fl_rows ?f). tr_id r \<in> M \<longrightarrow> (\<exists>b \<in> fl_sent ?f. carries c r b)"
  proof (intro ballI impI)
    fix r assume r: "r \<in> set (fl_rows ?f)" "tr_id r \<in> M"
    obtain r0 where r0: "r0 \<in> set (rows (env_db (gs_env s)))" "tr_id r0 = tr_id r" "\<exists>b \<in> fl_sent (flow_of rows s'). carries c r0 b"
      using known [OF r(2)] by blast
    have "r = r0" using r(1) r0 unique_key [OF laws] by (simp add: flow_of_def)
    then show "\<exists>b \<in> fl_sent ?f. carries c r b" using r0(3) by simp
  qed
  then have 2: "flow_step c cap ?f (?f\<lparr>fl_rows := mark_rows M (fl_rows ?f)\<rparr>)" by (rule flow_step.mark)
  have "flow_of rows s' = ?f\<lparr>fl_rows := mark_rows M (fl_rows ?f)\<rparr>"
    using fm same M by (simp add: flow_of_def fixed_members_def)
  then show ?thesis using 1 2 by (metis rtranclp.rtrancl_into_rtrancl rtranclp.rtrancl_refl)
qed

text \<open>The steps of the worker that only move on.\<close>

lemma worker_quiet:
  assumes t: "tracked rows c cap s" and st: "worker_step s = Some s'"
    and ring: "app_ring (gs_app s') = app_ring (gs_app s)" and link: "linked (app_mqtt (gs_app s')) (gs_env s')"
    and r: "rows (env_db (gs_env s')) = rows (env_db (gs_env s))"
    and hand: "fl_hand (flow_of rows s') = fl_hand (flow_of rows s)"
    and pc: "worker_tracks c (rows (env_db (gs_env s'))) (packets_out (cfg_broker_host c) (env_calls (gs_env s'))) (gs_worker s')"
  shows "tracked rows c cap s' \<and> flows c cap (flow_of rows s) (flow_of rows s')"
proof -
  note d = trackedD [OF t] and f = worker_step_frame [OF st]
  have "flows c cap (flow_of rows s) (flow_of rows s')"
    using f(1,6) ring hand r worker_step_grown [OF st d(3)] by (intro flow_quiet) simp_all
  then show ?thesis using tracked_step [OF t, of A_worker s'] st ring link r pc f(4) d(7,11) by simp
qed

lemma worker_publish_flow:
  assumes t: "tracked rows c cap s" and st: "worker_step s = Some s'" and pc: "gs_worker s = W_decided q k"
  shows "tracked rows c cap s' \<and> flows c cap (flow_of rows s) (flow_of rows s')"
  using st
proof (cases rule: worker_step_cases)
  case (publish q' row rc u w1)
  note d = trackedD [OF t]
  have q: "q' = q" "row = k" using publish(1) pc by auto
  have p: "publish_locked (app_mqtt (gs_app s)) (cfg_mqtt_topic c) (telemetry_to_json q 384) (gs_env s) = Some (rc, u, w1)"
    using publish(2) d(6) q by (auto simp: mqtt_session_publish_telemetry_def)
  note f = calls_only_frame [OF publish_calls_only [OF p]]
  have "point_packet c q \<in> packets_out (cfg_broker_host c) (env_calls w1)" if "rc = 0"
    using publish_out [OF p [unfolded that] d(8)] d(6) by (simp add: point_packet_def)
  then show ?thesis using publish(3) q f(1) d(9) pc linking.R_publish_locked [OF p] d(8)
    by (intro worker_quiet [OF t st]) (auto simp: flow_of_def split: worker_pc.split)
qed (use pc in simp_all)

lemma worker_store_flow:
  assumes t: "tracked rows c cap s" and st: "worker_step s = Some s'" and pc: "gs_worker s = W_popped p"
  shows "tracked rows c cap s' \<and> flows c cap (flow_of rows s) (flow_of rows s')"
  using st
proof (cases rule: worker_step_cases)
  case (store p' q k w1)
  note d = trackedD [OF t]
  have q: "q = apply_quality_rules c p" using store(1,2) pc d(2) by simp
  let ?f = "(flow_of rows s)\<lparr>fl_sent := fl_sent (flow_of rows s')\<rparr>" and ?R = "rows (env_db (gs_env s))"
  have g: "grown (gs_env s) (gs_env s')" using worker_step_grown [OF st d(3)] by simp
  then have 1: "flow_step c cap (flow_of rows s) ?f"
    using grown_packets worker_step_frame(1) [OF st] by (intro flow_step.send) (auto simp: flow_of_def fixed_members_def)
  have h: "fl_hand ?f = Some p" "fl_hand (flow_of rows s') = None" using pc store(4) by (simp_all add: flow_of_def)
  note a = worker_append_rows [OF store(3) d(4,5,1)]
  have "flow_step c cap ?f (flow_of rows s') \<and> unmarked ` set ?R \<subseteq> unmarked ` set (rows (env_db w1)) \<and> (0 < k \<longrightarrow> stored_row k q \<in> unmarked ` set (rows (env_db w1)))"
    using a
  proof
    assume k: "0 < k \<and> (\<forall>r \<in> set ?R. tr_id r < k) \<and> rows (env_db w1) = ?R @ [stored_row k q]"
    then have "flow_of rows s' = ?f\<lparr>fl_hand := None, fl_rows := fl_rows ?f @ [stored_row k (apply_quality_rules c p)]\<rparr>"
      using store(4) q by (simp add: flow_of_def)
    moreover have "flow_step c cap ?f (?f\<lparr>fl_hand := None, fl_rows := fl_rows ?f @ [stored_row k (apply_quality_rules c p)]\<rparr>)"
      using flow_step.store [OF h(1), of k c cap] k by (simp add: flow_of_def)
    ultimately show ?thesis using k by auto
  next
    assume k: "k = 0 \<and> rows (env_db w1) = ?R"
    then have "flow_of rows s' = ?f\<lparr>fl_hand := None\<rparr>" using store(4) by (simp add: flow_of_def)
    then show ?thesis using flow_step.lose [OF h(1), of c cap] k by simp
  qed
  then show ?thesis using 1 tracked_step [OF t, of A_worker s'] st store(4) d(7,11) linked_grown [OF d(8)] g
    by (auto intro: converse_rtranclp_into_rtranclp)
qed (use pc in simp_all)

lemma worker_mark_flow:
  assumes t: "tracked rows c cap s" and st: "worker_step s = Some s'" and pc: "gs_worker s = W_mark q k"
  shows "tracked rows c cap s' \<and> flows c cap (flow_of rows s) (flow_of rows s')"
proof -
  note d = trackedD [OF t] and f = worker_step_frame [OF st]
  obtain rc w1 where m: "storage_mark_telemetry_uploaded (app_storage (gs_app s)) k (gs_env s) = (rc, w1)" by (metis prod.exhaust)
  have s': "s' = s\<lparr>gs_env := w1, gs_worker := W_report\<rparr>" using st pc m by (simp add: worker_step_def)
  obtain M where w1: "rows (env_db w1) = mark_rows M (rows (env_db (gs_env s)))" "M \<subseteq> {k}" "M = {} \<or> 0 < k"
  proof (cases "0 < k \<and> rc = 0")
    case True
    then show ?thesis using that [of "{k}"] mark_uploaded_rows [OF d(1) m [unfolded d(4)]] by auto
  next
    case False
    then have "rows (env_db w1) = rows (env_db (gs_env s))"
      using mark_uploaded_rows [OF d(1) m [unfolded d(4)]] m d(4) by (auto simp: storage_mark_telemetry_uploaded_def)
    then show ?thesis using that [of "{}"] by simp
  qed
  have g: "grown (gs_env s) (gs_env s')" using worker_step_grown [OF st d(3)] by simp
  have "flows c cap (flow_of rows s) (flow_of rows s')"
  proof (rule mark_flow [OF d(1) f(1)])
    fix i assume i: "i \<in> M"
    then have k: "i = k" "0 < k" using w1(2,3) by auto
    then obtain r where r: "r \<in> set (rows (env_db (gs_env s)))" "unmarked r = stored_row k q" using d(9) pc by auto
    then have "tr_id r = i" using k by (metis unmarked_simps(2) stored_row_def tel_row.select_convs(1))
    moreover have "carries c r (point_packet c q)" using r(2) k \<open>tr_id r = i\<close> by (auto simp: carries_def)
    moreover have "point_packet c q \<in> fl_sent (flow_of rows s')"
      using d(2,9) pc f(1) grown_packets [OF g, of "cfg_broker_host c"] by (auto simp: flow_of_def fixed_members_def)
    ultimately show "\<exists>r \<in> set (rows (env_db (gs_env s))). tr_id r = i \<and> (\<exists>b \<in> fl_sent (flow_of rows s'). carries c r b)"
      using r(1) by blast
  qed (use s' w1(1) f(6) g pc in \<open>simp_all add: flow_of_def\<close>)
  then show ?thesis
    using tracked_step [OF t, of A_worker s'] st s' d(7,11) linked_grown [OF d(8) g] w1(1) by (simp add: unmarked_mark_set)
qed

lemma worker_flow:
  assumes t: "tracked rows c cap s" and st: "worker_step s = Some s'"
  shows "tracked rows c cap s' \<and> flows c cap (flow_of rows s) (flow_of rows s')"
proof -
  note d = trackedD [OF t] and quiet' = worker_quiet [OF t st]
  have g: "grown (gs_env s) (gs_env s')" using worker_step_grown [OF st d(3)] by simp
  show ?thesis
    using st
  proof (cases rule: worker_step_cases)
    case (quiet app1 w1 t' pc)
    then show ?thesis using linked_grown [OF d(8) g] tame_rows [OF d(1), of w1]
      by (intro quiet') (auto simp: flow_of_def gauges_only_def)
  next
    case (empty r)
    have "r = app_ring (gs_app s)" using empty(3) ring_pop_eq [OF d(7)] by (auto split: if_splits)
    then show ?thesis using empty(1,4) d(8) by (intro quiet') (simp_all add: flow_of_def)
  next
    case (pop p r)
    have "flow_of rows s' = (flow_of rows s)\<lparr>fl_queue := ring_items r, fl_hand := Some p\<rparr>"
      using pop(1,3,4) ring_pop_eq [OF d(7)] by (auto simp: flow_of_def split: if_splits)
    then have "flow_step c cap (flow_of rows s) (flow_of rows s')"
      using flow_step.taken [of "flow_of rows s" p "ring_items r" c cap] ring_pop_step [OF d(7) pop(3)] pop(1) by (simp add: flow_of_def)
    then show ?thesis
      using tracked_step [OF t, of A_worker s'] st pop(3,4) ring_pop_step [OF d(7) pop(3)] ring.pop_inv [OF d(7)] d(8,11) by auto
  next
    case (store p q row w1)
    show ?thesis by (rule worker_store_flow [OF t st store(1)])
  next
    case (count q row)
    then show ?thesis using d(8,9) by (intro quiet') (simp_all add: flow_of_def)
  next
    case (decide q row app1 g1 w1)
    then have w: "app1 = fst (worker_decide q (gs_app s, gs_statics s, gs_env s))" "w1 = snd (snd (worker_decide q (gs_app s, gs_statics s, gs_env s)))"
      by simp_all
    show ?thesis using decide(1,3) w linked_grown [OF d(8) g] tame_rows [OF d(1) tame_worker_decide [OF d(3)]] d(9)
      by (intro quiet') (simp_all add: flow_of_def frame_simps)
  next
    case (publish q row rc u w1)
    show ?thesis by (rule worker_publish_flow [OF t st publish(1)])
  next
    case (ok q row)
    then show ?thesis using d(8,9) by (intro quiet') (simp_all add: flow_of_def)
  next
    case (mark q row)
    show ?thesis by (rule worker_mark_flow [OF t st mark(1)])
  next
    case fail
    then show ?thesis using d(8) by (intro quiet') (simp_all add: flow_of_def)
  next
    case ended
    then show ?thesis using t by simp
  qed
qed

text \<open>The monitor marks rows in its replay and nowhere else.\<close>

lemma ping_calls_only: "mqtt_session_ping (Some s) w = Some (rc, s', w') \<Longrightarrow> calls_only w w'"
proof -
  assume p: "mqtt_session_ping (Some s) w = Some (rc, s', w')"
  show ?thesis
  proof (cases "ms_connected s \<and> 0 \<le> ms_fd s")
    case True
    then obtain r w1 where w: "mqtt_write_all (ms_fd s) ping_packet w = Some (r, w1)"
      using p by (auto simp: mqtt_session_ping_def mqtt_send_ping_def bind_eq_Some_conv)
    obtain s2 w2 where sh: "mqtt_shutdown_locked s w1 = (s2, w2)" by (metis prod.exhaust)
    have "w' = w1 \<or> w' = w2" using p True w sh by (auto simp: mqtt_session_ping_def mqtt_send_ping_def split: if_splits)
    then show ?thesis using write_all_calls_only [OF w] calls_only_trans [OF _ shutdown_calls_only [OF sh]] by blast
  qed (use p in \<open>auto simp: mqtt_session_ping_def\<close>)
qed

lemma beat_rows:
  assumes "monitor_beat app w = Some (u, w')" "sqlite_laws (env_sqlite w) rows"
  shows "rows (env_db w') = rows (env_db w)"
proof -
  obtain n w1 where c: "storage_pending_telemetry_count (app_storage app) w = (n, w1)" by (metis prod.exhaust)
  obtain t w2 where t: "edgeflow_now_ms w1 = (t, w2)" by (metis prod.exhaust)
  have 1: "tame rows w w2" using tame_trans [OF tame_count tame_now] c t by (metis snd_conv)
  obtain rc pl where "publish_locked (app_mqtt app) (cfg_mqtt_heartbeat_topic (ms_cfg (app_mqtt app))) pl w2 = Some (rc, u, w')"
    using assms(1) c t by (auto simp: monitor_beat_def mqtt_session_publish_heartbeat_def Let_def)
  then show ?thesis using tame_rows [OF assms(2) 1] calls_only_frame(1) [OF publish_calls_only] by metis
qed

lemma monitor_quiet:
  assumes t: "tracked rows c cap s" and st: "monitor_step s = Some s'" and link: "linked (app_mqtt (gs_app s')) (gs_env s')"
    and r: "rows (env_db (gs_env s')) = rows (env_db (gs_env s))" and pc: "monitor_tracks (rows (env_db (gs_env s'))) (gs_monitor s')"
  shows "tracked rows c cap s' \<and> flows c cap (flow_of rows s) (flow_of rows s')"
proof -
  note d = trackedD [OF t] and f = monitor_step_frame [OF st]
  have "flows c cap (flow_of rows s) (flow_of rows s')"
    using f(1,4,6,7) r monitor_step_grown [OF st] by (intro flow_quiet) (simp_all add: flow_of_def)
  then show ?thesis using tracked_step [OF t, of A_monitor s'] st link r pc f(4,7) d(7,11) by simp
qed

lemma monitor_send_flow:
  assumes t: "tracked rows c cap s" and st: "monitor_step s = Some s'" and pc: "gs_monitor s = M_send rs"
  shows "tracked rows c cap s' \<and> flows c cap (flow_of rows s) (flow_of rows s')"
  using st
proof (cases rule: monitor_step_cases)
  case (send rs' m u w1)
  note d = trackedD [OF t] and f = monitor_step_frame [OF st]
  note lo = send(2) [unfolded d(4)]
  obtain rc s1 w2 where e: "mqtt_ensure_connected_locked (app_mqtt (gs_app s)) (gs_env s) = Some (rc, s1, w2)"
    using lo by (auto simp: replay_locked_def bind_eq_Some_conv)
  note ef = calls_only_frame [OF ensure_calls_only [OF e]]
  have c1: "ms_cfg s1 = c" using ensure_usable(2) [OF e] d(6) by simp
  obtain M where M: "rows (env_db w1) = mark_rows M (rows (env_db (gs_env s)))"
    "\<forall>i \<in> M. \<exists>sr \<in> set rs. sr_row_id sr = i \<and> row_packet c sr \<in> packets_out (cfg_broker_host c) (env_calls w1)"
  proof (cases "rc = 0")
    case True
    then obtain k m1 where "replay_rows (Some \<lparr>st_cfg = c, st_db = True\<rparr>) rs 0 (Some (app_metrics (gs_app s))) s1 w2 = Some (k, m1, u, w1)"
      using lo e send(1) pc by (auto simp: replay_locked_def)
    then show ?thesis
      using that replay_rows_marks [of "\<lparr>st_cfg = c, st_db = True\<rparr>" rs 0 _ s1 w2 k m1 u w1 rows] ensure_links [OF e d(8)]
        ensure_usable(1) [OF e] True ef(1,2) d(1) c1 by auto
  next
    case False
    then show ?thesis using that [of "{}"] lo e ef(1) by (simp add: replay_locked_def)
  qed
  have g: "grown (gs_env s) (gs_env s')" using monitor_step_grown [OF st] by simp
  have "flows c cap (flow_of rows s) (flow_of rows s')"
  proof (rule mark_flow [OF d(1) f(1)])
    fix i assume "i \<in> M"
    then obtain sr where sr: "sr \<in> set rs" "sr_row_id sr = i" "row_packet c sr \<in> packets_out (cfg_broker_host c) (env_calls w1)" using M(2) by blast
    then obtain r where r: "r \<in> set (rows (env_db (gs_env s)))" "sr = restored r" using d(10) pc by auto
    then have "tr_id r = i" "carries c r (row_packet c sr)"
      using sr(2) by (auto simp: restored_def carries_def row_packet_def point_packet_def)
    moreover have "row_packet c sr \<in> fl_sent (flow_of rows s')" using sr(3) send(3) d(2) by (simp add: flow_of_def)
    ultimately show "\<exists>r \<in> set (rows (env_db (gs_env s))). tr_id r = i \<and> (\<exists>b \<in> fl_sent (flow_of rows s'). carries c r b)" using r(1) by blast
  qed (use send(3) M(1) f(4,6,7) g in \<open>simp_all add: flow_of_def\<close>)
  moreover have "linked u w1" using linking.R_replay_locked [OF send(2)] d(8) by blast
  ultimately show ?thesis using tracked_step [OF t, of A_monitor s'] st send(3) d(7,11) M(1) by (simp add: unmarked_mark_set)
qed (use pc in simp_all)

lemma monitor_flow:
  assumes t: "tracked rows c cap s" and st: "monitor_step s = Some s'"
  shows "tracked rows c cap s' \<and> flows c cap (flow_of rows s) (flow_of rows s')"
proof -
  note d = trackedD [OF t] and quiet' = monitor_quiet [OF t st]
  have g: "grown (gs_env s) (gs_env s')" using monitor_step_grown [OF st] by simp
  show ?thesis
    using st
  proof (cases rule: monitor_step_cases)
    case (quiet app1 w1 pc)
    then show ?thesis using linked_grown [OF d(8) g] tame_rows [OF d(1), of w1] by (intro quiet') (auto simp: gauges_only_def)
  next
    case (fetch frc out cnt w1)
    have b: "0 < replay_batch (cfg_mqtt_replay_batch (ms_cfg (app_mqtt (gs_app s))))" by (auto simp: replay_batch_def Let_def unat_gt_0)
    obtain j where o: "rows (env_db w1) = rows (env_db (gs_env s))" "out = map restored (take j (pending (rows (env_db (gs_env s)))))"
      using fetch_pending_oldest_rows [OF d(1,5) b fetch(3) [unfolded d(4)]] by blast
    have "restored r \<in> restored ` unmarked ` set R" if "r \<in> set R" for r R using that by (metis imageI unmarked_simps(5))
    then have "set (take cnt out) \<subseteq> restored ` unmarked ` set (rows (env_db (gs_env s)))"
      using o(2) by (auto simp: pending_def dest!: in_set_takeD)
    then show ?thesis using fetch(4) linked_grown [OF d(8) g] o(1) by (intro quiet') (simp_all split: if_splits)
  next
    case (send rs m u w1)
    show ?thesis by (rule monitor_send_flow [OF t st send(1)])
  next
    case (gauge n w1)
    then have w: "w1 = snd (storage_pending_telemetry_count (app_storage (gs_app s)) (gs_env s))" by simp
    show ?thesis using gauge(3) w linked_grown [OF d(8) g] tame_rows [OF d(1) tame_count] by (intro quiet') simp_all
  next
    case (ping r u w1)
    then show ?thesis using linking.R_ping [OF ping(2)] d(8) calls_only_frame(1) [OF ping_calls_only [OF ping(2)]] by (intro quiet') simp_all
  next
    case (beat u w1)
    obtain w2 where "calm (gs_env s) w2" "linked (app_mqtt (gs_app s)) w2 \<longrightarrow> linked u w1" using linking.R_beat [OF beat(2)] by blast
    then have "linked u w1" using linked_grown [OF d(8) tame_grown] by blast
    then show ?thesis using beat(3) beat_rows [OF beat(2) d(1)] by (intro quiet') simp_all
  next
    case ended
    then show ?thesis using t by simp
  qed (use d(8) in \<open>intro quiet'; simp\<close>)+
qed

lemma main_flow:
  assumes t: "tracked rows c cap s" and st: "main_step s = Some s'"
  shows "tracked rows c cap s' \<and> flows c cap (flow_of rows s) (flow_of rows s')"
proof -
  note d = trackedD [OF t] and f = main_step_frame [OF st]
  have g: "grown (gs_env s) (gs_env s')" using main_step_grown [OF st] by simp
  have "rows (env_db (gs_env s')) = rows (env_db (gs_env s)) \<and> linked (app_mqtt (gs_app s')) (gs_env s')"
    using st
  proof (cases rule: main_step_cases)
    case (wait w1)
    then show ?thesis using tame_rows [OF d(1) tame_sleep [OF wait(3)]] linked_grown [OF d(8) g] by simp
  next
    case (joined u w1 wd w2)
    have "env_db w1 = env_db (gs_env s)" using shutdown_frame(1) [OF joined(3)] by (simp add: join_all_def frame_simps)
    moreover have "env_db w2 = env_db w1" using joined(4) by (auto simp: watchdog_shutdown_def frame_simps split: if_splits)
    ultimately show ?thesis using joined(5) shutdown_result [OF joined(3)] by (simp add: frame_simps linked_def)
  qed (use d(8) in simp_all)
  moreover have "flows c cap (flow_of rows s) (flow_of rows s')"
    using f(1,3,5,6) calculation g by (intro flow_quiet) (simp_all add: flow_of_def)
  ultimately show ?thesis using tracked_step [OF t, of A_main s'] st f(3,4,6) d(7,11) by simp
qed

lemma step_refines:
  assumes t: "tracked rows c cap s" and st: "gateway_step a s = Some s'"
  shows "tracked rows c cap s' \<and> flows c cap (flow_of rows s) (flow_of rows s')"
  using st
proof (cases rule: gateway_step_cases)
  case signal
  then show ?thesis using t by (simp add: tracked_def flow_of_def fixed_members_def)
qed (use ingress_flow [OF t] worker_flow [OF t] monitor_flow [OF t] main_flow [OF t] in blast)+

text \<open>A simulation: an invariant of the steps under which each of them is a run of an abstract machine.\<close>

locale step_simulation = step_invariant I for I :: "'d gateway_sys \<Rightarrow> bool" +
  fixes abs :: "'d gateway_sys \<Rightarrow> 'a" and spec :: "'a \<Rightarrow> 'a \<Rightarrow> bool"
  assumes simulates: "I s \<Longrightarrow> gateway_step a s = Some s' \<Longrightarrow> spec\<^sup>*\<^sup>* (abs s) (abs s')"
begin

lemma refines: "I s \<Longrightarrow> gateway_run as s = Some s' \<Longrightarrow> spec\<^sup>*\<^sup>* (abs s) (abs s')"
proof (induction as arbitrary: s)
  case (Cons a as)
  then obtain s1 where s1: "gateway_step a s = Some s1" "gateway_run as s1 = Some s'" by (auto simp: bind_eq_Some_conv)
  show ?case by (rule rtranclp_trans [OF simulates [OF Cons.prems(1) s1(1)] Cons.IH [OF step [OF Cons.prems(1) s1(1)] s1(2)]])
qed simp

end

interpretation tracked: step_simulation "tracked rows c cap" "flow_of rows" "flow_step c cap"
  by unfold_locales (use step_refines in blast)+

lemma started_tracked:
  assumes "gateway_app_init (Some a) (Some c) g w = (0, Some app0, g1, w1)" "gateway_app_run (Some app0) g1 w1 = (0, Some app, w2)"
    and "cfg_use_sqlite c" "sqlite_laws (env_sqlite w2) rows"
  shows "tracked rows c (ring_cap (app_ring app)) (gateway_started app g1 w2)"
  using assms(3,4) app_init_started [OF assms(1)] app_run_started [OF assms(2)] started_fresh [OF assms(1,2)]
  by (simp add: tracked_def gateway_started_def fixed_members_def linked_def usable_def)

text \<open>
  C2. The gateway implements its abstract machine: with SQLite obeying its laws, every schedule of the threads'
  steps from start-up, a stop included, is a run of the abstract machine on the queue, the point in
  hand, the telemetry table and the packets on the wire. So a point is refused only when the queue is
  full, points leave the queue in order, each becomes one row with a new key or is lost with the store's
  failure, and a row is marked only after a packet that carries it has gone out whole to the broker.
\<close>

theorem gateway_refines_flow:
  assumes "gateway_app_init (Some a) (Some c) g w = (0, Some app0, g1, w1)" "gateway_app_run (Some app0) g1 w1 = (0, Some app, w2)"
    and "cfg_use_sqlite c" "sqlite_laws (env_sqlite w2) rows" and "gateway_run sched (gateway_started app g1 w2) = Some s"
  shows "(flow_step c (ring_cap (app_ring app)))\<^sup>*\<^sup>* (flow_of rows (gateway_started app g1 w2)) (flow_of rows s)"
  by (rule tracked.refines [OF started_tracked [OF assms(1-4)] assms(5)])

text \<open>
  C1. Order and at-least-once delivery, end to end: with SQLite obeying its laws, after any schedule of the
  threads' steps from start-up, the ring holds no more than its capacity, and the table is the one found at
  the start, up to marks, followed by one row for each of some of the points taken from the ring, with the quality rule applied, in the order the ring had
  accepted them; nothing is inserted twice, reordered or deleted. And every row marked as uploaded either
  was so at the start or has had a packet that carries it written whole to the broker.
\<close>

theorem gateway_delivers:
  assumes "gateway_app_init (Some a) (Some c) g w = (0, Some app0, g1, w1)" "gateway_app_run (Some app0) g1 w1 = (0, Some app, w2)"
    and "cfg_use_sqlite c" "sqlite_laws (env_sqlite w2) rows" and "gateway_run sched (gateway_started app g1 w2) = Some s"
  shows "length (ring_items (app_ring (gs_app s))) \<le> ring_cap (app_ring app) \<and> (\<exists>gone kept. gs_accepted s = gone @ hand (flow_of rows s) @ ring_items (app_ring (gs_app s)) \<and> subseq (map snd kept) gone \<and>
      map unmarked (rows (env_db (gs_env s))) =
        map unmarked (rows (env_db w2)) @ map (\<lambda>(k, p). stored_row k (apply_quality_rules c p)) kept) \<and>
    (\<forall>r \<in> set (rows (env_db (gs_env s))). tr_uploaded r \<longrightarrow>
      r \<in> set (rows (env_db w2)) \<or> (\<exists>b \<in> packets_out (cfg_broker_host c) (env_calls (gs_env s)). carries c r b))"
proof -
  let ?s0 = "gateway_started app g1 w2"
  note t = started_tracked [OF assms(1-4)]
  note r = tracked.refines [OF t assms(5)]
  have "length (fl_queue (flow_of rows ?s0)) \<le> ring_cap (app_ring app)" "in_order c (rows (env_db w2)) (flow_of rows ?s0)" "delivered c (rows (env_db w2)) (flow_of rows ?s0)"
    using started_fresh(2) [OF assms(1,2)] by (simp_all add: in_order_def delivered_def flow_of_def gateway_started_def hand_def)
  then have "length (fl_queue (flow_of rows s)) \<le> ring_cap (app_ring app)" "in_order c (rows (env_db w2)) (flow_of rows s)" "delivered c (rows (env_db w2)) (flow_of rows s)"
    using bounded.flows [OF r] ordered.flows [OF r] delivery.flows [OF r] by blast+
  moreover have "app_cfg (gs_app s) = c" using trackedD(2) [OF tracked.run [OF t assms(5)]] .
  ultimately show ?thesis by (simp add: in_order_def delivered_def flow_of_def)
qed

lemma sqlite_start:
  "\<exists>app0 g1 w1 app w2 s. gateway_app_init (Some gateway_app_zero) (Some gateway_config_defaults) demo_statics fair_host = (0, Some app0, g1, w1) \<and>
     gateway_app_run (Some app0) g1 w1 = (0, Some app, w2) \<and> cfg_use_sqlite gateway_config_defaults \<and> sqlite_laws (env_sqlite w2) mem_rows \<and>
     gateway_run sched (gateway_started app g1 w2) = Some s"
proof -
  obtain app0 g1 w1 app w2 where d: "gateway_app_init (Some gateway_app_zero) (Some gateway_config_defaults) demo_statics fair_host = (0, Some app0, g1, w1)"
    "gateway_app_run (Some app0) g1 w1 = (0, Some app, w2)" "env_ret w2 = env_ret fair_host" "env_sqlite w2 = mem_api"
    using start_ready [OF fair_host_ready(1)] by blast
  have "cfg_use_sqlite gateway_config_defaults" by (simp add: gateway_config_defaults_def)
  then show ?thesis using run_fair [OF started_orderly [OF d(1,2) fair_host_ready(2) [OF d(3)]], of sched] d mem_laws by metis
qed

theorem gateway_refines_flow_witness:
  "\<exists>app g1 w2 s. gateway_run (replicate 12 A_ingress @ replicate 9 A_worker) (gateway_started app g1 (w2 :: mem_db env)) = Some s \<and>
     (flow_step gateway_config_defaults (ring_cap (app_ring app)))\<^sup>*\<^sup>* (flow_of mem_rows (gateway_started app g1 w2)) (flow_of mem_rows s)"
proof -
  obtain app0 g1 w1 app w2 s where d: "gateway_app_init (Some gateway_app_zero) (Some gateway_config_defaults) demo_statics fair_host = (0, Some app0, g1, w1)"
    "gateway_app_run (Some app0) g1 w1 = (0, Some app, w2)" "cfg_use_sqlite gateway_config_defaults" "sqlite_laws (env_sqlite w2) mem_rows"
    "gateway_run (replicate 12 A_ingress @ replicate 9 A_worker) (gateway_started app g1 w2) = Some s" using sqlite_start by blast
  then show ?thesis using gateway_refines_flow [OF d] by blast
qed

theorem gateway_delivers_witness:
  "\<exists>app g1 w2 s. gateway_run (replicate 12 A_ingress @ replicate 9 A_worker @ [A_monitor, A_monitor, A_monitor])
       (gateway_started app g1 (w2 :: mem_db env)) = Some s \<and>
     (\<forall>r \<in> set (mem_rows (env_db (gs_env s))). tr_uploaded r \<longrightarrow> r \<in> set (mem_rows (env_db w2)) \<or>
        (\<exists>b \<in> packets_out (cfg_broker_host gateway_config_defaults) (env_calls (gs_env s)). carries gateway_config_defaults r b))"
proof -
  obtain app0 g1 w1 app w2 s where d: "gateway_app_init (Some gateway_app_zero) (Some gateway_config_defaults) demo_statics fair_host = (0, Some app0, g1, w1)"
    "gateway_app_run (Some app0) g1 w1 = (0, Some app, w2)" "cfg_use_sqlite gateway_config_defaults" "sqlite_laws (env_sqlite w2) mem_rows"
    "gateway_run (replicate 12 A_ingress @ replicate 9 A_worker @ [A_monitor, A_monitor, A_monitor]) (gateway_started app g1 w2) = Some s"
    using sqlite_start by blast
  then show ?thesis using gateway_delivers [OF d] by blast
qed

end
