(* ===== verification/Gateway_Race.thy ===== *)
theory Gateway_Race
  imports Gateway_Flow
begin

text \<open>
  The race between the worker and the monitor of \<^verbatim>\<open>src/src/runtime/app.c\<close> over one telemetry
  row. \<^verbatim>\<open>mqtt_session_replay_pending\<close> fetches the pending rows before it takes the session
  lock and does not look at them again afterwards, and the worker marks its row only after it has
  left the lock. A row the monitor fetches while the worker is between storing and publishing it
  goes out twice: delivery is at least once (\<open>Gateway_Flow\<close>), and not exactly once.
\<close>

text \<open>With every write making progress, a replay writes the packets of all rows it was given.\<close>

lemma replay_writes_all:
  assumes "sqlite_laws (env_sqlite w) rows" "sqlite_healthy (env_sqlite w) rows" "st_db c" "writes_progress w" "usable s"
    "fits 128 (cfg_mqtt_topic (ms_cfg s))" "list_all (\<lambda>r. 0 < sr_row_id r) rs"
  shows "\<exists>m' w' cs. replay_locked (Some c) rs m s w = Some (m', s, w') \<and> env_calls w' = env_calls w @ cs \<and>
    prefix (concat (map (row_packet (ms_cfg s)) rs)) (sent_on (ms_fd s) cs) \<and>
    rows (env_db w') = mark_rows (sr_row_id ` set rs) (rows (env_db w))"
proof -
  have e: "mqtt_ensure_connected_locked s w = Some (0, s, w)"
    using assms(5) by (simp add: mqtt_ensure_connected_locked_def usable_def)
  obtain m' w' where r: "replay_rows (Some c) rs 0 (Some m) s w = Some (0 + int (length rs), m', s, w')"
    "rows (env_db w') = mark_rows (sr_row_id ` set rs) (rows (env_db w))"
    using replay_rows_healthy [OF assms(1-4,6,7), of 0 "Some m"] by blast
  from replay_rows_replayed [OF r(1) assms(1)] obtain sent marked cs where p: "prefix sent rs" "subseq marked sent"
    "int (length rs) = int (length marked)" "env_calls w' = env_calls w @ cs"
    "prefix (concat (map (row_packet (ms_cfg s)) sent)) (sent_on (ms_fd s) cs)"
    by (auto simp: replayed_to_def)
  have "length marked \<le> length sent" using p(2) by (rule list_emb_length)
  with p(1,3) have "sent = rs" by (metis not_equal_is_parallel of_nat_eq_iff parallelE prefix_length_le le_antisym prefix_order.refl
      prefix_def append_eq_conv_conj take_all)
  with p e r show ?thesis by (auto simp: replay_locked_def)
qed

lemma worker_publishes:
  assumes "usable s" "writes_progress w" "fits 128 (cfg_mqtt_topic (ms_cfg s))"
  shows "\<exists>w' cs. mqtt_session_publish_telemetry (Some s) (Some p) w = Some (0, Some s, w') \<and> called w cs w' \<and>
    sent_on (ms_fd s) cs = point_packet (ms_cfg s) p"
proof -
  have e: "mqtt_ensure_connected_locked s w = Some (0, s, w)"
    using assms(1) by (simp add: mqtt_ensure_connected_locked_def usable_def)
  have "length (cfg_mqtt_topic (ms_cfg s)) + length (telemetry_to_json p 384) \<le> 1017"
    using assms(3) json_fits [of p] by (simp add: fits_def)
  then obtain w' where w': "mqtt_send_publish (ms_fd s) (cfg_mqtt_topic (ms_cfg s)) (telemetry_to_json p 384) w = Some (0, w')"
    using send_publish_progress [OF assms(2)] by blast
  with send_publish_effect [OF w'] e show ?thesis
    by (auto simp: mqtt_session_publish_telemetry_def publish_locked_def point_packet_def)
qed

lemma monitor_fetches:
  assumes "sqlite_laws (env_sqlite (gs_env s)) rows" "sqlite_healthy (env_sqlite (gs_env s)) rows"
    "app_storage (gs_app s) = Some c" "sqlite_on c" "gs_monitor s = M_fetch"
  defines "b \<equiv> replay_batch (cfg_mqtt_replay_batch (ms_cfg (app_mqtt (gs_app s))))"
  shows "\<exists>d. rows d = rows (env_db (gs_env s)) \<and> gateway_step A_monitor s =
    Some (s\<lparr>gs_env := (gs_env s)\<lparr>env_db := d\<rparr>, gs_monitor := M_send (map restored (take b (pending (rows (env_db (gs_env s))))))\<rparr>)"
proof -
  let ?w = "gs_env s"
  have b: "0 < b" by (auto simp: b_def replay_batch_def Let_def unat_gt_0)
  obtain frc out cnt w1 where f: "storage_fetch_pending_telemetry (Some c) True b ?w = (frc, out, cnt, w1)" by (metis prod_cases4)
  obtain d where w1: "w1 = ?w\<lparr>env_db := d\<rparr>" using fetch_only [of "Some c" True b ?w] f by auto
  have "rows d = rows (env_db ?w)" using fetch_pending_oldest_rows [OF assms(1,4) b f] w1 by auto
  with fetch_healthy [OF assms(1,2,4) b f] f w1 show ?thesis
    using assms(3,5) by (intro exI [of _ d]) (simp add: monitor_step_def Let_def b_def)
qed

lemma infix_packet:
  assumes "x \<in> set xs" and "prefix (concat (map f xs)) out"
  shows "\<exists>before after. out = before @ f x @ after"
proof -
  from assms(1) obtain us vs where "xs = us @ x # vs" by (meson split_list)
  moreover from assms(2) obtain rest where "out = concat (map f xs) @ rest" by (auto simp: prefix_def)
  ultimately show ?thesis by (intro exI [of _ "concat (map f us)"] exI [of _ "concat (map f vs) @ rest"]) simp
qed

text \<open>
  C22. A row can be delivered twice: on a connected session, with SQLite and every write working,
  from any state in which the worker has stored a point and is about to publish it while the
  monitor is about to fetch, and the row is in the monitor's batch, the schedule monitor, worker,
  monitor writes the packet of the point and then, among the batch, the packet of the same row
  again on the same socket; and the row is marked only by the monitor.
\<close>

theorem replay_race_resends:
  assumes laws: "sqlite_laws (env_sqlite (gs_env s)) rows" and healthy: "sqlite_healthy (env_sqlite (gs_env s)) rows"
    and store: "app_storage (gs_app s) = Some c" "sqlite_on c"
    and mqtt: "app_mqtt (gs_app s) = session" "ms_connected session" "0 \<le> ms_fd session" "config_wf (ms_cfg session)"
    and writes: "\<forall>k. 0 < env_ret (gs_env s) k"
    and pc: "gs_monitor s = M_fetch" "gs_worker s = W_decided point (tr_id r)"
    and row: "r \<in> set (take (replay_batch (cfg_mqtt_replay_batch (ms_cfg session))) (pending (rows (env_db (gs_env s)))))"
      "stored_row (tr_id r) point = r"
  shows "\<exists>s' cs1 cs2 before after. gateway_run [A_monitor, A_worker, A_monitor] s = Some s' \<and>
    env_calls (gs_env s') = env_calls (gs_env s) @ cs1 @ cs2 \<and>
    sent_on (ms_fd session) cs1 = point_packet (ms_cfg session) point \<and>
    sent_on (ms_fd session) cs2 = before @ row_packet (ms_cfg session) (restored r) @ after \<and>
    gs_worker s' = W_sent point (tr_id r) \<and>
    r \<notin> set (pending (rows (env_db (gs_env s'))))"
proof -
  let ?b = "replay_batch (cfg_mqtt_replay_batch (ms_cfg session))" and ?w = "gs_env s"
  let ?rows = "map restored (take ?b (pending (rows (env_db ?w))))"
  have use: "usable session" "fits 128 (cfg_mqtt_topic (ms_cfg session))" "st_db c"
    using mqtt store(2) by (auto simp: usable_def config_wf_def sqlite_on_def)
  obtain d where d: "rows d = rows (env_db ?w)"
    and s1: "gateway_step A_monitor s = Some (s\<lparr>gs_env := ?w\<lparr>env_db := d\<rparr>, gs_monitor := M_send ?rows\<rparr>)" (is "_ = Some ?s1")
    using monitor_fetches [OF laws healthy store pc(1)] mqtt(1) by auto
  have "writes_progress (?w\<lparr>env_db := d\<rparr>)" using writes by (simp add: writes_progress_def)
  then obtain w2 cs1 where p: "mqtt_session_publish_telemetry (Some session) (Some point) (?w\<lparr>env_db := d\<rparr>) = Some (0, Some session, w2)"
    "called (?w\<lparr>env_db := d\<rparr>) cs1 w2" "sent_on (ms_fd session) cs1 = point_packet (ms_cfg session) point"
    using worker_publishes [OF use(1) _ use(2)] by blast
  let ?s2 = "?s1\<lparr>gs_env := w2, gs_worker := W_sent point (tr_id r)\<rparr>"
  have s2: "gateway_step A_worker ?s1 = Some ?s2" using pc mqtt(1) p(1) by (cases s) (auto simp: worker_step_def Let_def)
  have w2: "writes_progress w2" "env_sqlite w2 = env_sqlite ?w" "rows (env_db w2) = rows (env_db ?w)"
    "env_calls w2 = env_calls ?w @ cs1"
    using p(2) d writes by (simp_all add: called_def writes_progress_def)
  have "list_all (\<lambda>r. 0 < sr_row_id r) ?rows"
    using pending_keys(2) [OF sqlite_lawsD(2) [OF laws]] by (auto simp: list_all_iff restored_def dest: in_set_takeD)
  then obtain m' w3 cs2 where q: "replay_locked (Some c) ?rows (app_metrics (gs_app s)) session w2 = Some (m', session, w3)"
    "env_calls w3 = env_calls w2 @ cs2" "prefix (concat (map (row_packet (ms_cfg session)) ?rows)) (sent_on (ms_fd session) cs2)"
    "rows (env_db w3) = mark_rows (sr_row_id ` set ?rows) (rows (env_db w2))"
    using replay_writes_all [of w2 rows c session ?rows "app_metrics (gs_app s)"] laws healthy w2 use by auto
  let ?s3 = "?s2\<lparr>gs_app := (gs_app s)\<lparr>app_metrics := m', app_mqtt := session\<rparr>, gs_env := w3, gs_monitor := M_gauge\<rparr>"
  have s3: "gateway_step A_monitor ?s2 = Some ?s3" using store mqtt(1) q(1) by (simp add: monitor_step_def Let_def)
  have "restored r \<in> set ?rows" using row(1) by simp
  from infix_packet [OF this q(3)] obtain before after where
    "sent_on (ms_fd session) cs2 = before @ row_packet (ms_cfg session) (restored r) @ after" by blast
  moreover have "r \<notin> set (pending (rows (env_db w3)))"
    using row(1) q(4) w2(3) by (auto simp: pending_mark_rows restored_def image_image)
  ultimately show ?thesis using s1 s2 s3 p(3) q(2) w2(4)
    by (intro exI [of _ ?s3] exI [of _ cs1] exI [of _ cs2] exI [of _ before] exI [of _ after]) simp
qed

definition demo_race :: "mem_db gateway_sys" where
  "demo_race = (gateway_started (gateway_app_zero\<lparr>app_storage := Some demo_ctx, app_mqtt := demo_replay_session\<rparr>) demo_statics demo_backlog)
     \<lparr>gs_monitor := M_fetch, gs_worker := W_decided demo_bad_point 1\<rparr>"

theorem replay_race_resends_witness:
  "\<exists>s' cs1 cs2 before after. gateway_run [A_monitor, A_worker, A_monitor] demo_race = Some s' \<and>
     sent_on 5 cs1 = point_packet gateway_config_defaults demo_bad_point \<and>
     sent_on 5 cs2 = before @ row_packet gateway_config_defaults (restored (stored_row 1 demo_bad_point)) @ after \<and>
     env_calls (gs_env s') = env_calls (gs_env demo_race) @ cs1 @ cs2"
proof -
  let ?r = "stored_row 1 demo_bad_point"
  have r: "tr_id ?r = 1" by (simp add: stored_row_def)
  have "0 < replay_batch (cfg_mqtt_replay_batch gateway_config_defaults)" by (auto simp: replay_batch_def Let_def unat_gt_0)
  then have row: "?r \<in> set (take (replay_batch (cfg_mqtt_replay_batch (ms_cfg demo_replay_session))) (pending (mem_rows (env_db (gs_env demo_race)))))"
    by (simp add: demo_race_def gateway_started_def demo_replay_session_def take_Cons')
  have pc: "gs_monitor demo_race = M_fetch" "gs_worker demo_race = W_decided demo_bad_point (tr_id ?r)"
    and st: "app_storage (gs_app demo_race) = Some demo_ctx" "sqlite_on demo_ctx"
    and mq: "app_mqtt (gs_app demo_race) = demo_replay_session" "ms_connected demo_replay_session" "0 \<le> ms_fd demo_replay_session"
      "config_wf (ms_cfg demo_replay_session)"
    and env: "env_sqlite (gs_env demo_race) = mem_api" "\<forall>k. 0 < env_ret (gs_env demo_race) k"
    and id: "stored_row (tr_id ?r) demo_bad_point = ?r"
    by (simp_all add: demo_race_def gateway_started_def demo_replay_session_def r)
  have laws: "sqlite_laws (env_sqlite (gs_env demo_race)) mem_rows" "sqlite_healthy (env_sqlite (gs_env demo_race)) mem_rows"
    using mem_laws mem_healthy env(1) by simp_all
  have "ms_fd demo_replay_session = 5" "ms_cfg demo_replay_session = gateway_config_defaults"
    by (simp_all add: demo_replay_session_def)
  with replay_race_resends [OF laws st mq env(2) pc row id] show ?thesis by metis
qed

end
