(* ===== verification/Spec2Isabelle.thy ===== *)
theory Spec2Isabelle
  imports Ring_Concurrent Modbus_Serial Gateway_Process Gateway_Race Gateway_Descriptors
begin

text \<open>
  \<^bold>\<open>Verification of the EdgeFlow energy gateway\<close>

  The gateway polls energy devices over Modbus, passes the readings through a lock-free ring to a worker
  that stores, judges and publishes them over MQTT, and watches over itself in a monitor thread. All
  paths below are relative to \<^verbatim>\<open>src/src/\<close>.

  \<^bold>\<open>The program.\<close> \<^verbatim>\<open>main.c\<close> loads the configuration and starts the application of
  \<^verbatim>\<open>runtime/app.c\<close>, which runs three threads. The ingress thread polls every registered adapter
  (\<^verbatim>\<open>ingress/\<close>) and pushes the points into the ring (\<^verbatim>\<open>core/ring.c\<close>). The worker pops a point, marks it
  bad if it is too hot, appends it to the store (\<^verbatim>\<open>platform/storage.c\<close>), gives it to the state engine
  (\<^verbatim>\<open>runtime/state_engine.c\<close>), submits the resulting command to the scheduler
  (\<^verbatim>\<open>runtime/command_scheduler.c\<close>), publishes the point on the MQTT session
  (\<^verbatim>\<open>egress/mqtt_session.c\<close>) and marks its row uploaded. The monitor runs on a timer of the reactor
  (\<^verbatim>\<open>core/reactor.c\<close>): it feeds the watchdog, replays pending rows, pings the broker and
  writes the metrics file. \<^verbatim>\<open>cli/main.c\<close> is the operator's tool.

  \<^bold>\<open>The library.\<close>

  \<^item> \<open>Edge_Prelude\<close>: word sizes, C strings in arrays (\<open>fits\<close>, \<open>snprintf\<close>), printing of
    numbers, the collections of simplification rules the components share.
  \<^item> \<open>IEEE_Double\<close>: binary64 values with rounding, comparison, NaN and infinities, and decimal
    printing, so that the guards of the state engine and the scaling of registers are the machine's.
  \<^item> \<open>Environment\<close>: the world outside the program. System calls are answered by an oracle and
    recorded in a trace; SQLite is a record of functions over an abstract database, with the laws the code
    relies on as the predicate \<open>sqlite_laws\<close> of \<open>Storage\<close>, satisfied by an in-memory database.
  \<^item> \<open>Cjson\<close>, \<open>Cjson_Safety\<close>, \<open>Cjson_Grammar\<close>: the JSON reader the loader is linked with
    (\<^verbatim>\<open>src/third_party/cJSON/cJSON.c\<close>), from \<^verbatim>\<open>cJSON_Parse\<close> down to the decoding of escapes, with every
    read and write checked against its block and every allocation answered by a parameter. No text makes it
    fault, every error exit gives its memory back, trees obey the nesting limit, and it
    returns the value of every document of a JSON grammar (strings without \<^verbatim>\<open>\u\<close> escapes, which only the
    parser has).
  \<^item> \<open>Device_Model\<close>, \<open>Gateway_Config\<close>: \<^verbatim>\<open>model/device_model.{h,c}\<close> and \<^verbatim>\<open>platform/config.{h,c}\<close>;
    every string stays inside its array, and when loading the text of a file is defined.
  \<^item> \<open>Spsc_Ring\<close>, \<open>Ring_Concurrent\<close>: \<^verbatim>\<open>core/ring.{h,c}\<close>, first as functions that refine a bounded
    queue, then as a step relation over the atomic accesses of both sides, with an invariant by rule
    induction: first in first out and no data race under every interleaving.
  \<^item> \<open>Modbus_Crc\<close>, \<open>Modbus_Source\<close>, \<open>Modbus_Serial\<close>, \<open>Adapter\<close>: \<^verbatim>\<open>ingress/\<close>. The checksum and the
    errors it detects, the simulator, the libmodbus back end and its context, the serial exchange, the
    plug-in registry and its two plug-ins.
  \<^item> \<open>State_Engine\<close>, \<open>Command_Scheduler\<close>: the decision handler with its interlocks, and the queue of
    commands.
  \<^item> \<open>Platform\<close>, \<open>Reactor\<close>: clock, sleep, logger, heartbeat, metrics, watchdog
    (\<^verbatim>\<open>common/\<close>, \<^verbatim>\<open>platform/\<close>), and the timer loop.
  \<^item> \<open>Storage\<close>: \<^verbatim>\<open>platform/storage.{h,c}\<close>; append, fetch and mark as operations on the list of
    pending rows.
  \<^item> \<open>Mqtt_Codec\<close>, \<open>Mqtt_Session\<close>, \<open>Mqtt_Replay\<close>: \<^verbatim>\<open>egress/\<close>. Packets and their unique reading; the
    session's operations, the bytes on its socket and its descriptors, through the locale
    \<open>session_discipline\<close> that every operation follows; replay sends before it marks, and drains.
  \<^item> \<open>Gateway_App\<close>, \<open>Gateway_Lifecycle\<close>: \<^verbatim>\<open>runtime/app.{h,c}\<close>. The turns of the three threads, start and
    stop. The locale \<open>turn_invariant\<close> lifts what each turn keeps to all interleavings of turns; it is
    interpreted for the descriptors held.
  \<^item> \<open>Gateway_Steps\<close>: the same threads cut into their statements, with the main loop and the signal handler of
    \<^verbatim>\<open>main.c\<close>. A thread has a program point; a schedule is any list of agents. The turns are shown to be
    particular schedules, so the two models of the threads agree.
  \<^item> \<open>Gateway_Runs\<close>: what a step leaves alone, that no step blocks in a fair world, and how many steps a
    thread has left once the running flag is cleared. The locale \<open>step_invariant\<close> of \<open>Gateway_Steps\<close> lifts what a step keeps
    to all schedules; it is interpreted for every invariant below.
  \<^item> \<open>Gateway_Safety\<close>: of every schedule from start-up: the exit after a signal, the counters at every program
    point, the draining of the ring, the points a stop abandons, and the temperature in the engine.
  \<^item> \<open>Gateway_Flow\<close>: the abstract specification of the gateway, \<open>flow_step\<close>: a bounded queue, a point in
    hand, the telemetry table and the packets on the wire. Its bound, order and at-least-once delivery are proved of it
    through the locale \<open>flow_invariant\<close>, and every schedule of the program refines it through the locale
    \<open>step_simulation\<close> (\<open>flow_of\<close> is the abstraction, \<open>tracked\<close> the invariant of the simulation).
  \<^item> \<open>Gateway_Descriptors\<close>: the sockets that are open at every point of every schedule, and that none is left after the stop.
  \<^item> \<open>Gateway_Race\<close>: the schedule of monitor and worker in which a row is sent twice.
  \<^item> \<open>Gateway_Process\<close>: \<^verbatim>\<open>main.c\<close> and \<^verbatim>\<open>cli/main.c\<close>; the process runs the schedules of
    \<open>Gateway_Steps\<close>. The tool agrees with the process on configurations and prints what the gateway measured; the process ends and leaves
    nothing open.

  \<^bold>\<open>How state and effects are modelled.\<close> A struct is a record; a pointer argument that may be NULL is an
  option; a function that writes through a pointer returns the new value beside its result. File-level
  variables of the ingress files and of the watchdog are records passed along (\<open>ingress_t\<close>,
  \<open>watchdog_t\<close>, \<open>statics\<close>). Unsigned integers are words of their width and wrap. An unbounded loop
  over system calls (write, sleep, serial read) is a partial function into an option, \<open>None\<close> meaning that it never
  returns; where the code is expected to return, that is proved from the answers of the
  system. Fuel is used only by the recursion of the JSON parser: \<open>3 * n + 1\<close> for a text of \<open>n\<close> bytes is enough because at
  most three nested calls lie between two characters consumed, and running out of it is one of the faults
  that are excluded for every text. A thread's loop ends when another thread clears the running flag: in the models by
  turns the number of turns is an argument, and theorems hold for every number and order of them; in the
  model by steps the flag is part of the state and the main thread clears it.

  \<^bold>\<open>Bounds of the model.\<close> In \<open>Gateway_Steps\<close> the threads interleave between their calls on shared objects; the
  ring's operations are cut further in \<open>Ring_Concurrent\<close>, a call on the session or on SQLite is atomic by
  its lock, and the gauges a thread writes at the end of a turn are one step. There the reactor's own
  calls between two ticks of the timer are left out; \<open>Reactor\<close> and \<open>monitor_main\<close> have them. The
  steps a started thread takes before a failing \<^verbatim>\<open>gateway_app_run\<close> joins it are left out, and the steps of the started
  threads begin when \<^verbatim>\<open>gateway_app_run\<close> returns.
  The bounds 19, 8 and 7 of the exit are the longest ways from a program point of ingress (eight points in
  hand), worker and monitor to their ends; 8 is also the worker's longest way from one look at the ring to the next.
  The arguments of the heartbeat's \<^verbatim>\<open>snprintf\<close> are evaluated in one of the orders C allows.
  Memory exhaustion appears where the code tests for it.

  \<^bold>\<open>Not modelled.\<close> SQLite and the libmodbus transports are third-party code and parameters; of libmodbus only
  the time-out setter is defined, on whose bounds the gateway's code depends. Of cJSON the printing, construction and editing
  of trees is left out: the gateway does not call it. \<^verbatim>\<open>strtod\<close> is defined as the C standard
  describes it on the characters the parser passes. Tests, build files, deployment files and documents hold no logic of the gateway.
\<close>

end
